(* ===== verification/Rhino_Prelude.thy ===== *)
theory Rhino_Prelude
  imports Main "HOL-Library.Word" "HOL-Library.Multiset"
begin

unbundle bit_operations_syntax

text \<open>
  Shared vocabulary of the Rhino kernel development: the machine types of the Cortex-M
  port (\<^verbatim>\<open>platform/arch/arm/armv7m/gcc/m4/k_types.h\<close>, 32-bit pointers and sizes), the
  status codes of \<^verbatim>\<open>k_err.h\<close>, and the generic facts on lists, orderings and words that
  the component theories use.

  The kernel keeps several lists ordered by inserting a new element before the first one
  that is strictly greater (\<^verbatim>\<open>pend_list_add\<close>, \<^verbatim>\<open>tick_list_pri_insert\<close>,
  \<^verbatim>\<open>timer_list_pri_insert\<close>).  That scan is \<open>insert_before_first\<close> below; the locale
  \<open>stable_insert\<close> states the contract the three users share and proves the ordering,
  content and stability facts once.
\<close>

section \<open>Machine types\<close>

type_synonym byte = "8 word"
type_synonym u8 = "8 word"
type_synonym u16 = "16 word"
type_synonym u32 = "32 word"
type_synonym u64 = "64 word"
type_synonym size_t = "32 word"
type_synonym ptr = "32 word"
type_synonym tick_t = "64 word"
type_synonym sys_time_t = "64 word"
type_synonym name_t = "string"

abbreviation (input) NULL :: ptr where
  "NULL \<equiv> 0"

text \<open>The waiting options of \<^verbatim>\<open>k_sys.h\<close> and the allocation flags of \<^verbatim>\<open>k_internal.h\<close>.\<close>

definition RHINO_NO_WAIT :: tick_t where
  "RHINO_NO_WAIT = 0"

definition RHINO_WAIT_FOREVER :: tick_t where
  "RHINO_WAIT_FOREVER = - 1"

definition MAX_TIMER_TICKS :: tick_t where
  "MAX_TIMER_TICKS = drop_bit 1 (- 1)"

definition RHINO_CONFIG_PRI_MAX :: nat where
  "RHINO_CONFIG_PRI_MAX = 62"

definition RHINO_IDLE_PRI :: nat where
  "RHINO_IDLE_PRI = RHINO_CONFIG_PRI_MAX - 1"

definition K_OBJ_STATIC_ALLOC :: u8 where
  "K_OBJ_STATIC_ALLOC = 1"

definition K_OBJ_DYN_ALLOC :: u8 where
  "K_OBJ_DYN_ALLOC = 2"

section \<open>Status codes\<close>

datatype (plugins only: code) kstat =
    RHINO_SUCCESS | RHINO_SYS_FATAL_ERR | RHINO_SYS_SP_ERR | RHINO_RUNNING
  | RHINO_STOPPED | RHINO_INV_PARAM | RHINO_NULL_PTR | RHINO_INV_ALIGN
  | RHINO_KOBJ_TYPE_ERR | RHINO_KOBJ_DEL_ERR | RHINO_KOBJ_DOCKER_EXIST
  | RHINO_KOBJ_BLK | RHINO_KOBJ_SET_FULL | RHINO_NOTIFY_FUNC_EXIST
  | RHINO_MM_POOL_SIZE_ERR | RHINO_MM_ALLOC_SIZE_ERR | RHINO_MM_FREE_ADDR_ERR
  | RHINO_MM_CORRUPT_ERR | RHINO_DYN_MEM_PROC_ERR | RHINO_NO_MEM
  | RHINO_RINGBUF_FULL | RHINO_RINGBUF_EMPTY
  | RHINO_SCHED_DISABLE | RHINO_SCHED_ALREADY_ENABLED | RHINO_SCHED_LOCK_COUNT_OVF
  | RHINO_INV_SCHED_WAY
  | RHINO_TASK_INV_STACK_SIZE | RHINO_TASK_NOT_SUSPENDED | RHINO_TASK_DEL_NOT_ALLOWED
  | RHINO_TASK_SUSPEND_NOT_ALLOWED | RHINO_SUSPENDED_COUNT_OVF | RHINO_BEYOND_MAX_PRI
  | RHINO_PRI_CHG_NOT_ALLOWED | RHINO_INV_TASK_STATE | RHINO_IDLE_TASK_EXIST
  | RHINO_NO_PEND_WAIT | RHINO_BLK_ABORT | RHINO_BLK_TIMEOUT | RHINO_BLK_DEL
  | RHINO_BLK_INV_STATE | RHINO_BLK_POOL_SIZE_ERR
  | RHINO_TIMER_STATE_INV
  | RHINO_NO_THIS_EVENT_OPT
  | RHINO_BUF_QUEUE_INV_SIZE | RHINO_BUF_QUEUE_SIZE_ZERO | RHINO_BUF_QUEUE_FULL
  | RHINO_BUF_QUEUE_MSG_SIZE_OVERFLOW | RHINO_QUEUE_FULL | RHINO_QUEUE_NOT_FULL
  | RHINO_SEM_OVF | RHINO_SEM_TASK_WAITING
  | RHINO_MUTEX_NOT_RELEASED_BY_OWNER | RHINO_MUTEX_OWNER_NESTED | RHINO_MUTEX_NESTED_OVF
  | RHINO_NOT_CALLED_BY_INTRPT | RHINO_TRY_AGAIN
  | RHINO_WORKQUEUE_EXIST | RHINO_WORKQUEUE_NOT_EXIST | RHINO_WORKQUEUE_WORK_EXIST
  | RHINO_WORKQUEUE_BUSY | RHINO_WORKQUEUE_WORK_RUNNING
  | RHINO_TASK_STACK_OVF | RHINO_INTRPT_STACK_OVF

section \<open>Ordered insertion\<close>

fun insert_before_first :: "('a \<Rightarrow> bool) \<Rightarrow> 'a \<Rightarrow> 'a list \<Rightarrow> 'a list" where
  "insert_before_first P e [] = [e]"
| "insert_before_first P e (x # xs) =
     (if P x then e # x # xs else x # insert_before_first P e xs)"

lemma set_insert_before_first [simp]:
  "set (insert_before_first P e xs) = insert e (set xs)"
  by (induction xs) auto

lemma mset_insert_before_first [simp]:
  "mset (insert_before_first P e xs) = add_mset e (mset xs)"
  by (induction xs) auto

lemma length_insert_before_first [simp]:
  "length (insert_before_first P e xs) = Suc (length xs)"
  by (induction xs) auto

lemma distinct_insert_before_first [simp]:
  "distinct (insert_before_first P e xs) \<longleftrightarrow> e \<notin> set xs \<and> distinct xs"
  by (induction xs) auto

lemma insert_before_first_split:
  "insert_before_first P e xs = takeWhile (\<lambda>x. \<not> P x) xs @ e # dropWhile (\<lambda>x. \<not> P x) xs"
  by (induction xs) auto

lemma insert_before_first_cong:
  "(\<And>x. x \<in> set xs \<Longrightarrow> P x = Q x) \<Longrightarrow> insert_before_first P e xs = insert_before_first Q e xs"
  by (induction xs) auto

lemma insert_before_first_neq_Nil [simp]: "insert_before_first P e xs \<noteq> []"
  by (cases xs) auto

locale stable_insert =
  fixes key :: "'a \<Rightarrow> 'k::linorder"
    and ins :: "'a \<Rightarrow> 'a list \<Rightarrow> 'a list"
  assumes ins_eq: "ins e xs = insert_before_first (\<lambda>x. key e < key x) e xs"
begin

lemma set_ins: "set (ins e xs) = insert e (set xs)"
  by (simp add: ins_eq)

lemma sorted_ins: "sorted (map key xs) \<Longrightarrow> sorted (map key (ins e xs))"
  unfolding ins_eq by (induction xs) (auto simp: less_imp_le not_less)

lemma ins_after_equal:
  assumes "sorted (map key xs)"
  shows "ins e xs = filter (\<lambda>x. key x \<le> key e) xs @ e # filter (\<lambda>x. key e < key x) xs"
  using assms unfolding ins_eq
proof (induction xs)
  case Nil
  then show ?case by simp
next
  case (Cons x xs)
  show ?case
  proof (cases "key e < key x")
    case True
    then have "\<forall>y\<in>set xs. key e < key y"
      using Cons.prems by (auto intro: less_le_trans)
    then have "filter (\<lambda>y. key e < key y) xs = xs" "filter (\<lambda>y. key y \<le> key e) xs = []"
      by (auto simp: filter_id_conv filter_empty_conv not_le)
    with True show ?thesis by simp
  next
    case False
    with Cons show ?thesis by simp
  qed
qed

lemma hd_ins_least:
  assumes "sorted (map key xs)" "x \<in> insert e (set xs)"
  shows "key (hd (ins e xs)) \<le> key x"
proof -
  have "sorted (map key (ins e xs))" "x \<in> set (ins e xs)" "ins e xs \<noteq> []"
    using assms by (simp_all add: sorted_ins set_ins) (simp add: ins_eq)
  then show ?thesis by (cases "ins e xs") auto
qed

end

section \<open>Generic list facts\<close>

lemma sorted_map_hd_le:
  "sorted (map f xs) \<Longrightarrow> x \<in> set xs \<Longrightarrow> f (hd xs) \<le> f x"
  by (cases xs) auto

lemma hd_remove1_other: "xs \<noteq> [] \<Longrightarrow> hd xs \<noteq> x \<Longrightarrow> hd (remove1 x xs) = hd xs"
  by (cases xs) auto

lemma remove1_neq_Nil: "distinct xs \<Longrightarrow> (remove1 x xs = []) \<longleftrightarrow> set xs \<subseteq> {x}"
  by (cases xs; cases "tl xs") auto

end
