(* ===== verification/Rhino_KList.thy ===== *)
theory Rhino_KList
  imports Rhino_Prelude
begin

text \<open>
  The intrusive circular doubly linked lists of \<^verbatim>\<open>kernel/rhino/core/include/k_list.h\<close>.

  A heap gives every node its \<^verbatim>\<open>next\<close> and \<^verbatim>\<open>prev\<close> field; each operation is the sequence of
  field writes of the C function, with every pointer re-read from the heap as the C code
  does.  \<open>ring h a xs\<close> says that the nodes \<open>xs\<close> hang off the head node \<open>a\<close> in this order,
  linked both ways.  The lemmas show what each operation does to the ring it works on and
  that it leaves disjoint rings alone; together with the scan of \<open>klist_scan\<close> they are the
  reason why the other theories represent a kernel list by the HOL list of its entries.
\<close>

section \<open>Heap and operations\<close>

record 'n klist_heap =
  nxt :: "'n \<Rightarrow> 'n"
  prv :: "'n \<Rightarrow> 'n"

abbreviation set_nxt :: "'n \<Rightarrow> 'n \<Rightarrow> 'n klist_heap \<Rightarrow> 'n klist_heap" where
  "set_nxt n v h \<equiv> h\<lparr>nxt := (nxt h)(n := v)\<rparr>"

abbreviation set_prv :: "'n \<Rightarrow> 'n \<Rightarrow> 'n klist_heap \<Rightarrow> 'n klist_heap" where
  "set_prv n v h \<equiv> h\<lparr>prv := (prv h)(n := v)\<rparr>"

definition klist_init :: "'n \<Rightarrow> 'n klist_heap \<Rightarrow> 'n klist_heap" where
  "klist_init list_head h =
     (let h1 = set_nxt list_head list_head h
      in set_prv list_head list_head h1)"

definition is_klist_empty :: "'n \<Rightarrow> 'n klist_heap \<Rightarrow> bool" where
  "is_klist_empty list_head h \<longleftrightarrow> nxt h list_head = list_head"

definition klist_insert :: "'n \<Rightarrow> 'n \<Rightarrow> 'n klist_heap \<Rightarrow> 'n klist_heap" where
  "klist_insert head element h =
     (let h1 = set_prv element (prv h head) h;
          h2 = set_nxt element head h1;
          h3 = set_nxt (prv h2 head) element h2
      in set_prv head element h3)"

definition klist_add :: "'n \<Rightarrow> 'n \<Rightarrow> 'n klist_heap \<Rightarrow> 'n klist_heap" where
  "klist_add head element h =
     (let h1 = set_prv element head h;
          h2 = set_nxt element (nxt h1 head) h1;
          h3 = set_prv (nxt h2 head) element h2
      in set_nxt head element h3)"

definition klist_rm :: "'n \<Rightarrow> 'n klist_heap \<Rightarrow> 'n klist_heap" where
  "klist_rm element h =
     (let h1 = set_nxt (prv h element) (nxt h element) h
      in set_prv (nxt h1 element) (prv h1 element) h1)"

definition klist_rm_init :: "'n \<Rightarrow> 'n klist_heap \<Rightarrow> 'n klist_heap" where
  "klist_rm_init element h =
     (let h1 = set_nxt (prv h element) (nxt h element) h;
          h2 = set_prv (nxt h1 element) (prv h1 element) h1;
          h3 = set_prv element element h2
      in set_nxt element (prv h3 element) h3)"

text \<open>
  The scan shared by the ordered insertions: start at \<open>head->next\<close>, stop at the head or at
  the first node satisfying \<open>P\<close>, and insert the element before the node the scan stopped at.
  A scan that never comes back to its head has no value.
\<close>

partial_function (option) klist_scan :: "('n \<Rightarrow> bool) \<Rightarrow> 'n \<Rightarrow> 'n \<Rightarrow> 'n klist_heap \<Rightarrow> 'n option" where
  "klist_scan P list_end q h =
     (if q = list_end then Some q
      else if P q then Some q
      else klist_scan P list_end (nxt h q) h)"

definition klist_ordered_insert :: "('n \<Rightarrow> bool) \<Rightarrow> 'n \<Rightarrow> 'n \<Rightarrow> 'n klist_heap \<Rightarrow> 'n klist_heap option" where
  "klist_ordered_insert P head element h =
     (case klist_scan P head (nxt h head) h of
        None \<Rightarrow> None
      | Some q \<Rightarrow> Some (klist_insert q element h))"

section \<open>Segments and rings\<close>

fun seg :: "'n klist_heap \<Rightarrow> 'n \<Rightarrow> 'n list \<Rightarrow> 'n \<Rightarrow> bool" where
  "seg h a [] b \<longleftrightarrow> nxt h a = b \<and> prv h b = a"
| "seg h a (x # xs) b \<longleftrightarrow> nxt h a = x \<and> prv h x = a \<and> seg h x xs b"

definition ring :: "'n klist_heap \<Rightarrow> 'n \<Rightarrow> 'n list \<Rightarrow> bool" where
  "ring h a xs \<longleftrightarrow> distinct (a # xs) \<and> seg h a xs a"

lemma seg_append:
  "seg h a (xs @ y # ys) b \<longleftrightarrow> seg h a xs y \<and> seg h y ys b"
  by (induction xs arbitrary: a) auto

lemma seg_nxt_upd:
  "u \<noteq> a \<Longrightarrow> u \<notin> set xs \<Longrightarrow> seg (set_nxt u v h) a xs b = seg h a xs b"
  by (induction xs arbitrary: a) auto

lemma seg_prv_upd:
  "u \<noteq> b \<Longrightarrow> u \<notin> set xs \<Longrightarrow> seg (set_prv u v h) a xs b = seg h a xs b"
  by (induction xs arbitrary: a) auto

lemma seg_cong:
  assumes "\<And>n. n = a \<or> n \<in> set xs \<Longrightarrow> nxt h' n = nxt h n"
    and "\<And>n. n = b \<or> n \<in> set xs \<Longrightarrow> prv h' n = prv h n"
  shows "seg h' a xs b = seg h a xs b"
  using assms by (induction xs arbitrary: a) auto

lemma seg_first: "seg h a xs b \<Longrightarrow> nxt h a = hd (xs @ [b])"
  by (cases xs) auto

lemma seg_last: "seg h a xs b \<Longrightarrow> prv h b = last (a # xs)"
  by (induction xs arbitrary: a) auto

lemma ring_first: "ring h a xs \<Longrightarrow> nxt h a = hd (xs @ [a])"
  by (simp add: ring_def seg_first)

lemma ring_unique: "ring h a xs \<Longrightarrow> ring h a ys \<Longrightarrow> xs = ys"
proof -
  have "seg h c xs a \<Longrightarrow> seg h c ys a \<Longrightarrow> a \<notin> set xs \<Longrightarrow> a \<notin> set ys \<Longrightarrow> xs = ys" for c
  proof (induction xs arbitrary: c ys)
    case Nil
    then show ?case by (cases ys) auto
  next
    case (Cons x xs)
    then show ?case by (cases ys) auto
  qed
  then show "ring h a xs \<Longrightarrow> ring h a ys \<Longrightarrow> xs = ys"
    by (auto simp: ring_def)
qed

text \<open>Any node of a ring can serve as its head: the ready lists have no separate head node.\<close>

lemma ring_rotate:
  "ring h a (xs @ x # ys) \<Longrightarrow> ring h x (ys @ a # xs)"
  by (auto simp: ring_def seg_append)

section \<open>What the operations do\<close>

text \<open>
  \<open>klist_insert\<close> applied to any node \<open>q\<close> of a ring puts the element just before \<open>q\<close>; the
  segment form covers the head, where \<open>a = q\<close>.
\<close>

lemma klist_insert_fields:
  assumes "element \<noteq> q" "prv h q \<noteq> element"
  shows "nxt (klist_insert q element h) =
           (nxt h)(element := q, prv h q := element)"
    and "prv (klist_insert q element h) = (prv h)(element := prv h q, q := element)"
  using assms by (auto simp: klist_insert_def Let_def fun_eq_iff)

lemma klist_rm_fields:
  assumes "prv h element \<noteq> element"
  shows "nxt (klist_rm element h) = (nxt h)(prv h element := nxt h element)"
    and "prv (klist_rm element h) = (prv h)(nxt h element := prv h element)"
  using assms by (auto simp: klist_rm_def Let_def fun_eq_iff)

lemma klist_insert_seg_end:
  assumes "seg h a xs b" "distinct (a # xs)" "b \<notin> set xs"
    and "e \<notin> set xs" "e \<noteq> a" "e \<noteq> b"
  shows "seg (klist_insert b e h) a (xs @ [e]) b"
proof -
  have p: "prv h b = last (a # xs)"
    using assms(1) by (rule seg_last)
  have pe: "prv h b \<noteq> e"
    using assms p by auto
  show ?thesis
  proof (cases xs rule: rev_cases)
    case Nil
    then show ?thesis
      using assms p by (simp add: klist_insert_fields)
  next
    case (snoc ys y)
    have y: "prv h b = y"
      using p snoc by simp
    have s: "seg h a ys y" "nxt h y = b"
      using assms(1) snoc by (auto simp: seg_append)
    have "seg (klist_insert b e h) a ys y = seg h a ys y"
      using assms snoc pe y by (intro seg_cong) (auto simp: klist_insert_fields)
    then show ?thesis
      using s snoc y assms pe by (auto simp: seg_append klist_insert_fields)
  qed
qed

lemma klist_insert_tail:
  assumes "ring h a xs" "e \<notin> set (a # xs)"
  shows "ring (klist_insert a e h) a (xs @ [e])"
  using assms by (auto simp: ring_def intro!: klist_insert_seg_end)

lemma klist_insert_before:
  assumes "ring h a (xs @ q # ys)" "e \<notin> set (a # xs @ q # ys)"
  shows "ring (klist_insert q e h) a (xs @ e # q # ys)"
proof -
  have "ring h q (ys @ a # xs)"
    using assms(1) by (rule ring_rotate)
  then have "ring (klist_insert q e h) q ((ys @ a # xs) @ [e])"
    by (rule klist_insert_tail) (use assms in auto)
  then have "ring (klist_insert q e h) q (ys @ a # (xs @ [e]))"
    by simp
  then have "ring (klist_insert q e h) a ((xs @ [e]) @ q # ys)"
    by (rule ring_rotate)
  then show ?thesis by simp
qed

lemma klist_add_insert: "nxt h head \<noteq> e \<Longrightarrow> head \<noteq> e \<Longrightarrow> prv h (nxt h head) = head \<Longrightarrow>
    klist_add head e h = klist_insert (nxt h head) e h"
  by (auto simp: klist_add_def klist_insert_def Let_def fun_eq_iff)

lemma klist_add_head:
  assumes "ring h a xs" "e \<notin> set (a # xs)"
  shows "ring (klist_add a e h) a (e # xs)"
proof (cases xs)
  case Nil
  with assms have "nxt h a = a" "prv h a = a" "a \<noteq> e"
    by (auto simp: ring_def)
  then have "klist_add a e h = klist_insert a e h"
    by (simp add: klist_add_insert)
  with assms Nil show ?thesis
    using klist_insert_tail [of h a "[]" e] by simp
next
  case (Cons x ys)
  with assms have f: "nxt h a = x" "prv h x = a" "a \<noteq> e" "x \<noteq> e"
    by (auto simp: ring_def)
  then have "klist_add a e h = klist_insert x e h"
    by (simp add: klist_add_insert)
  with assms Cons show ?thesis
    using klist_insert_before [of h a "[]" x ys e] by simp
qed

lemma klist_rm_ring:
  assumes "ring h a (xs @ e # ys)"
  shows "ring (klist_rm e h) a (xs @ ys)"
proof -
  have d: "distinct (a # xs @ e # ys)" and s: "seg h a xs e" "seg h e ys a"
    using assms by (auto simp: ring_def seg_append)
  have p: "prv h e = last (a # xs)" and n: "nxt h e = hd (ys @ [a])"
    using s seg_last seg_first by fast+
  have pe: "prv h e \<noteq> e"
    using p d by auto
  note f = klist_rm_fields [OF pe]
  show ?thesis
  proof (cases xs rule: rev_cases; cases ys)
    fix y ys' assume xs: "xs = []" and ys: "ys = y # ys'"
    have "seg (klist_rm e h) y ys' a = seg h y ys' a"
      using d p n xs ys by (intro seg_cong) (auto simp: f)
    then show ?thesis
      using d s p n xs ys by (auto simp: ring_def f)
  next
    fix xs' x assume xs: "xs = xs' @ [x]" and ys: "ys = []"
    have "seg (klist_rm e h) a xs' x = seg h a xs' x"
      using d p n xs ys by (intro seg_cong) (auto simp: f)
    then show ?thesis
      using d s p n xs ys by (auto simp: ring_def f seg_append)
  next
    fix xs' x y ys' assume xs: "xs = xs' @ [x]" and ys: "ys = y # ys'"
    have "seg (klist_rm e h) a xs' x = seg h a xs' x"
      using d p n xs ys by (intro seg_cong) (auto simp: f)
    moreover have "seg (klist_rm e h) y ys' a = seg h y ys' a"
      using d p n xs ys by (intro seg_cong) (auto simp: f)
    ultimately show ?thesis
      using d s p n xs ys by (auto simp: ring_def f seg_append)
  qed (use d p n in \<open>auto simp: ring_def f\<close>)
qed

lemma klist_rm_init_rm:
  assumes "prv h e \<noteq> e" "nxt h e \<noteq> e"
  shows "nxt (klist_rm_init e h) = (nxt (klist_rm e h))(e := e)"
    and "prv (klist_rm_init e h) = (prv (klist_rm e h))(e := e)"
  using assms by (auto simp: klist_rm_init_def klist_rm_def Let_def fun_eq_iff)

lemma klist_rm_init_ring:
  assumes "ring h a (xs @ e # ys)"
  shows "ring (klist_rm_init e h) a (xs @ ys)" and "ring (klist_rm_init e h) e []"
proof -
  have d: "distinct (a # xs @ e # ys)" and s: "seg h a xs e" "seg h e ys a"
    using assms by (auto simp: ring_def seg_append)
  have ne: "prv h e \<noteq> e" "nxt h e \<noteq> e"
    using seg_last [OF s(1)] seg_first [OF s(2)] d by (cases ys; auto)+
  have "ring (klist_rm e h) a (xs @ ys)"
    using assms by (rule klist_rm_ring)
  moreover have "seg (klist_rm_init e h) a (xs @ ys) a = seg (klist_rm e h) a (xs @ ys) a"
    using d by (intro seg_cong) (auto simp: klist_rm_init_rm [OF ne])
  ultimately show "ring (klist_rm_init e h) a (xs @ ys)"
    by (simp add: ring_def)
  show "ring (klist_rm_init e h) e []"
    by (simp add: ring_def klist_rm_init_rm [OF ne])
qed

lemma klist_init_ring: "ring (klist_init a h) a []"
  by (simp add: ring_def klist_init_def)

lemma is_klist_empty_ring: "ring h a xs \<Longrightarrow> is_klist_empty a h \<longleftrightarrow> xs = []"
  by (cases xs) (auto simp: is_klist_empty_def ring_def)

text \<open>A ring that shares no node with the one an operation works on is left as it was.\<close>

lemma ring_disjoint_cong:
  assumes "ring h b ys"
    and "\<And>n. n \<in> set (b # ys) \<Longrightarrow> nxt h' n = nxt h n \<and> prv h' n = prv h n"
  shows "ring h' b ys"
proof -
  have "seg h' b ys b = seg h b ys b"
    using assms(2) by (intro seg_cong) auto
  with assms(1) show ?thesis by (simp add: ring_def)
qed

lemma seg_prv_in: "seg h a xs b \<Longrightarrow> q \<in> set xs \<or> q = b \<Longrightarrow> prv h q \<in> set (a # xs)"
  by (induction xs arbitrary: a) auto

lemma seg_nxt_in: "seg h a xs b \<Longrightarrow> q \<in> set xs \<or> q = a \<Longrightarrow> nxt h q \<in> set (xs @ [b])"
  by (induction xs arbitrary: a) auto

lemma klist_insert_frame:
  assumes "ring h a xs" "q \<in> set (a # xs)" "e \<notin> set (a # xs)"
    and "ring h b ys" "set (b # ys) \<inter> set (a # xs) = {}" "e \<notin> set (b # ys)"
  shows "ring (klist_insert q e h) b ys"
proof -
  have p: "prv h q \<in> set (a # xs)"
    using assms(1,2) seg_prv_in [of h a xs a q] by (auto simp: ring_def)
  have ne: "e \<noteq> q" "prv h q \<noteq> e"
    using assms(2,3) p by auto
  show ?thesis
    using assms(4)
  proof (rule ring_disjoint_cong)
    fix n assume "n \<in> set (b # ys)"
    then have "n \<noteq> e" "n \<noteq> q" "n \<noteq> prv h q"
      using assms(2,5,6) p by auto
    then show "nxt (klist_insert q e h) n = nxt h n \<and> prv (klist_insert q e h) n = prv h n"
      by (simp add: klist_insert_fields [OF ne])
  qed
qed

lemma klist_rm_frame:
  assumes "ring h a xs" "e \<in> set xs"
    and "ring h b ys" "set (b # ys) \<inter> set (a # xs) = {}"
  shows "ring (klist_rm e h) b ys"
proof -
  have p: "prv h e \<in> set (a # xs)" "nxt h e \<in> set (a # xs)"
    using assms(1,2) seg_prv_in [of h a xs a e] seg_nxt_in [of h a xs a e]
    by (auto simp: ring_def)
  obtain us vs where "xs = us @ e # vs"
    using assms(2) by (auto simp: in_set_conv_decomp)
  then have ne: "prv h e \<noteq> e"
    using assms(1) seg_last [of h a us e] by (auto simp: ring_def seg_append)
  show ?thesis
    using assms(3)
  proof (rule ring_disjoint_cong)
    fix n assume "n \<in> set (b # ys)"
    then have "n \<noteq> nxt h e" "n \<noteq> prv h e"
      using assms(4) p by auto
    then show "nxt (klist_rm e h) n = nxt h n \<and> prv (klist_rm e h) n = prv h n"
      by (simp add: klist_rm_fields [OF ne])
  qed
qed

section \<open>The ordered insertion\<close>

lemma klist_scan_seg:
  assumes "seg h c xs a" "a \<notin> set xs"
  shows "klist_scan P a (hd (xs @ [a])) h = Some (hd (dropWhile (\<lambda>x. \<not> P x) xs @ [a]))"
  using assms
proof (induction xs arbitrary: c)
  case Nil
  show ?case by (simp add: klist_scan.simps)
next
  case (Cons x xs)
  then have x: "x \<noteq> a" "seg h x xs a" "a \<notin> set xs"
    by auto
  have "klist_scan P a (nxt h x) h = Some (hd (dropWhile (\<lambda>x. \<not> P x) xs @ [a]))"
    using Cons.IH [OF x(2,3)] seg_first [OF x(2)] by simp
  with x show ?case
    by (subst klist_scan.simps) simp
qed

lemma klist_scan_ring:
  assumes "ring h a xs"
  shows "klist_scan P a (nxt h a) h = Some (hd (dropWhile (\<lambda>x. \<not> P x) xs @ [a]))"
  using klist_scan_seg [of h a xs a P] ring_first [OF assms] assms by (simp add: ring_def)

theorem klist_ordered_insert_ring:
  assumes "ring h a xs" "e \<notin> set (a # xs)"
  shows "\<exists>h'. klist_ordered_insert P a e h = Some h' \<and> ring h' a (insert_before_first P e xs)"
proof -
  let ?ls = "takeWhile (\<lambda>x. \<not> P x) xs" and ?rs = "dropWhile (\<lambda>x. \<not> P x) xs"
  have xs: "xs = ?ls @ ?rs" by simp
  have ins: "insert_before_first P e xs = ?ls @ e # ?rs"
    by (rule insert_before_first_split)
  have "ring (klist_insert (hd (?rs @ [a])) e h) a (?ls @ e # ?rs)"
  proof (cases ?rs)
    case Nil
    then have "?ls = xs" using xs by (metis append_Nil2)
    with Nil show ?thesis
      using klist_insert_tail [OF assms] by (simp only: append_Nil list.sel)
  next
    case (Cons q ys)
    then have "ring h a (?ls @ q # ys)" "e \<notin> set (a # ?ls @ q # ys)"
      using assms xs by (metis, metis)
    then show ?thesis
      using klist_insert_before [of h a ?ls q ys e] Cons by simp
  qed
  then show ?thesis
    by (simp add: klist_ordered_insert_def klist_scan_ring [OF assms(1)] ins)
qed

section \<open>Properties\<close>

text \<open>
  (C37) The intrusive lists of the kernel, rings of nodes linked in both directions, implement lists: on a ring with head \<open>a\<close> that links the
  nodes \<open>xs\<close>, adding a new node at the end, at the front, or where the ordered insertion puts it, removing a node, and the test for emptiness do
  what they do on the list \<open>xs\<close>; the scan of the ordered insertion returns; and a node removed with initialisation is an empty ring of its own.
\<close>

theorem klist_refines:
  assumes "ring h a xs" "e \<notin> set (a # xs)"
  shows "ring (klist_insert a e h) a (xs @ [e]) \<and> ring (klist_add a e h) a (e # xs)
    \<and> (\<exists>h'. klist_ordered_insert P a e h = Some h' \<and> ring h' a (insert_before_first P e xs))
    \<and> (\<forall>ys x zs. xs = ys @ x # zs \<longrightarrow> ring (klist_rm x h) a (ys @ zs) \<and> ring (klist_rm_init x h) a (ys @ zs) \<and> is_klist_empty x (klist_rm_init x h))
    \<and> (is_klist_empty a h \<longleftrightarrow> xs = [])"
proof (intro conjI allI impI)
  show "ring (klist_insert a e h) a (xs @ [e])" "ring (klist_add a e h) a (e # xs)"
    "\<exists>h'. klist_ordered_insert P a e h = Some h' \<and> ring h' a (insert_before_first P e xs)"
    by (rule klist_insert_tail [OF assms] klist_add_head [OF assms] klist_ordered_insert_ring [OF assms])+
  show "is_klist_empty a h \<longleftrightarrow> xs = []" by (rule is_klist_empty_ring [OF assms(1)])
  fix ys x zs
  assume "xs = ys @ x # zs"
  then have r: "ring h a (ys @ x # zs)" using assms(1) by simp
  show "ring (klist_rm x h) a (ys @ zs)" "ring (klist_rm_init x h) a (ys @ zs)" by (rule klist_rm_ring [OF r] klist_rm_init_ring(1) [OF r])+
  show "is_klist_empty x (klist_rm_init x h)" using is_klist_empty_ring [OF klist_rm_init_ring(2) [OF r]] by simp
qed

theorem klist_refines_witness:
  "ring (klist_insert 0 3 \<lparr>nxt = (\<lambda>n. if n = 0 then 1 else if n = 1 then 2 else 0), prv = (\<lambda>n. if n = 0 then 2 else if n = 1 then 0 else 1)\<rparr>) (0::nat) [1, 2, 3]"
proof -
  have "ring \<lparr>nxt = (\<lambda>n. if n = 0 then 1 else if n = 1 then 2 else 0), prv = (\<lambda>n. if n = 0 then 2 else if n = 1 then 0 else 1)\<rparr> (0::nat) [1, 2]"
    by (simp add: ring_def)
  from klist_refines [OF this, of 3] show ?thesis by simp
qed

end
