(* ===== verification/Rhino_Ringbuf.thy ===== *)
theory Rhino_Ringbuf
  imports Rhino_Prelude "HOL-Library.Monad_Syntax"
begin

text \<open>
  The byte ring buffer of \<^verbatim>\<open>kernel/rhino/core/k_ringbuf.c\<close>, which carries the messages of the
  kernel queues.  The record keeps the memory between \<^verbatim>\<open>buf\<close> and \<^verbatim>\<open>end\<close> as a byte list and the
  pointers \<^verbatim>\<open>head\<close> and \<^verbatim>\<open>tail\<close> as offsets from \<^verbatim>\<open>buf\<close>, so \<^verbatim>\<open>end\<close> is the length of the list;
  sizes are natural numbers below \<open>2 ^ 32\<close> and the one sum that can wrap around in
  \<^verbatim>\<open>size_t\<close> is written with its modulus.  A \<^verbatim>\<open>memcpy\<close> outside the buffer, or past the end of the
  caller's data, has no value (\<open>None\<close>).

  The lemmas show that both buffer types, fixed blocks and length-prefixed messages,
  implement a first-in first-out queue of messages: \<open>rb_holds\<close> relates a buffer to the
  messages it holds, and the locale \<open>message_ring\<close> states what push and pop do to them.
\<close>

section \<open>Data\<close>

definition RINGBUF_TYPE_FIX :: nat where
  "RINGBUF_TYPE_FIX = 0"

definition RINGBUF_TYPE_DYN :: nat where
  "RINGBUF_TYPE_DYN = 1"

definition RINGBUF_LEN_3BYTES_MAXVALUE :: nat where
  "RINGBUF_LEN_3BYTES_MAXVALUE = 0x3fffff"

definition RING_BUF_LEN :: nat where
  "RING_BUF_LEN = 4"

record k_ringbuf =
  rb_buf :: "byte list"
  rb_head :: nat
  rb_tail :: nat
  rb_freesize :: nat
  rb_type :: nat
  rb_blk_size :: nat

abbreviation rb_end :: "k_ringbuf \<Rightarrow> nat" where
  "rb_end rb \<equiv> length (rb_buf rb)"

text \<open>Copies to and from memory, and the bytes of a \<^verbatim>\<open>size_t\<close> on a little-endian machine.\<close>

definition memcpy_to :: "byte list \<Rightarrow> nat \<Rightarrow> byte list \<Rightarrow> nat \<Rightarrow> byte list option" where
  "memcpy_to mem off src n =
     (if off + n \<le> length mem \<and> n \<le> length src
      then Some (take off mem @ take n src @ drop (off + n) mem) else None)"

definition memcpy_from :: "byte list \<Rightarrow> nat \<Rightarrow> nat \<Rightarrow> byte list option" where
  "memcpy_from mem off n =
     (if off + n \<le> length mem then Some (take n (drop off mem)) else None)"

definition size_bytes :: "nat \<Rightarrow> byte list" where
  "size_bytes n = [of_nat n, of_nat (n div 2 ^ 8), of_nat (n div 2 ^ 16), of_nat (n div 2 ^ 24)]"

fun bytes_size :: "byte list \<Rightarrow> nat" where
  "bytes_size [] = 0"
| "bytes_size (b # bs) = unat b + 2 ^ 8 * bytes_size bs"

section \<open>Operations\<close>

definition ringbuf_reset :: "k_ringbuf \<Rightarrow> k_ringbuf" where
  "ringbuf_reset rb = rb\<lparr>rb_head := 0, rb_tail := 0, rb_freesize := rb_end rb\<rparr>"

definition ringbuf_init :: "byte list \<Rightarrow> nat \<Rightarrow> nat \<Rightarrow> k_ringbuf" where
  "ringbuf_init buf type block_size =
     ringbuf_reset \<lparr>rb_buf = buf, rb_head = 0, rb_tail = 0, rb_freesize = 0,
       rb_type = type, rb_blk_size = block_size\<rparr>"

definition ringbuf_is_empty :: "k_ringbuf \<Rightarrow> bool" where
  "ringbuf_is_empty rb \<longleftrightarrow> rb_freesize rb = rb_end rb"

definition ringbuf_is_full :: "k_ringbuf \<Rightarrow> bool" where
  "ringbuf_is_full rb \<longleftrightarrow>
     (if rb_type rb = RINGBUF_TYPE_DYN \<and> rb_freesize rb < RING_BUF_LEN + 1 then True
      else if rb_type rb = RINGBUF_TYPE_FIX \<and> rb_freesize rb < rb_blk_size rb then True
      else False)"

definition ringbuf_push_fix :: "k_ringbuf \<Rightarrow> byte list \<Rightarrow> (kstat \<times> k_ringbuf) option" where
  "ringbuf_push_fix rb data =
     (if rb_freesize rb < rb_blk_size rb then Some (RHINO_RINGBUF_FULL, rb)
      else do {
        let tail = (if rb_tail rb = rb_end rb then 0 else rb_tail rb);
        mem \<leftarrow> memcpy_to (rb_buf rb) tail data (rb_blk_size rb);
        Some (RHINO_SUCCESS,
          rb\<lparr>rb_buf := mem, rb_tail := tail + rb_blk_size rb,
             rb_freesize := rb_freesize rb - rb_blk_size rb\<rparr>)
      })"

definition ringbuf_push_dyn :: "k_ringbuf \<Rightarrow> byte list \<Rightarrow> nat \<Rightarrow> (kstat \<times> k_ringbuf) option" where
  "ringbuf_push_dyn rb data len =
     (if len = 0 \<or> len \<ge> 2 ^ 32 - 1 then Some (RHINO_INV_PARAM, rb)
      else if rb_freesize rb < (RING_BUF_LEN + len) mod 2 ^ 32 then Some (RHINO_RINGBUF_FULL, rb)
      else do {
        let c_len = size_bytes len;
        let tail = (if rb_tail rb = rb_end rb then 0 else rb_tail rb);
        (mem, tail, freesize, len_bytes, split_len) \<leftarrow>
          (if tail \<ge> rb_head rb \<and> rb_end rb - tail < RING_BUF_LEN \<and> rb_end rb - tail > 0 then do {
             let split_len = rb_end rb - tail;
             mem \<leftarrow> memcpy_to (rb_buf rb) tail c_len split_len;
             Some (mem, 0, rb_freesize rb - split_len, RING_BUF_LEN - split_len, split_len)
           } else Some (rb_buf rb, tail, rb_freesize rb, RING_BUF_LEN, 0));
        (mem, tail, freesize) \<leftarrow>
          (if len_bytes > 0 then do {
             mem \<leftarrow> memcpy_to mem tail (drop split_len c_len) len_bytes;
             Some (mem, tail + len_bytes, freesize - len_bytes)
           } else Some (mem, tail, freesize));
        let tail = (if tail = rb_end rb then 0 else tail);
        (mem, tail, freesize, data, len) \<leftarrow>
          (if tail \<ge> rb_head rb \<and> rb_end rb - tail < len \<and> rb_end rb - tail > 0 then do {
             let split_len = rb_end rb - tail;
             mem \<leftarrow> memcpy_to mem tail data split_len;
             Some (mem, 0, freesize - split_len, drop split_len data, len - split_len)
           } else Some (mem, tail, freesize, data, len));
        mem \<leftarrow> memcpy_to mem tail data len;
        Some (RHINO_SUCCESS,
          rb\<lparr>rb_buf := mem, rb_tail := tail + len, rb_freesize := freesize - len\<rparr>)
      })"

definition ringbuf_push :: "k_ringbuf \<Rightarrow> byte list \<Rightarrow> nat \<Rightarrow> (kstat \<times> k_ringbuf) option" where
  "ringbuf_push rb data len =
     (if rb_type rb = RINGBUF_TYPE_FIX then ringbuf_push_fix rb data
      else ringbuf_push_dyn rb data len)"

text \<open>
  Pop returns the status, the bytes written to \<^verbatim>\<open>pdata\<close> and the length stored through
  \<^verbatim>\<open>plen\<close>.  \<open>want_len\<close> is false when \<^verbatim>\<open>plen\<close> is a null pointer, which a buffer of the dynamic
  type dereferences.
\<close>

definition ringbuf_pop_fix :: "k_ringbuf \<Rightarrow> (kstat \<times> byte list \<times> nat \<times> k_ringbuf) option" where
  "ringbuf_pop_fix rb = do {
     let head = (if rb_head rb = rb_end rb then 0 else rb_head rb);
     pdata \<leftarrow> memcpy_from (rb_buf rb) head (rb_blk_size rb);
     Some (RHINO_SUCCESS, pdata, rb_blk_size rb,
       rb\<lparr>rb_head := head + rb_blk_size rb, rb_freesize := rb_freesize rb + rb_blk_size rb\<rparr>)
   }"

definition ringbuf_pop_dyn :: "k_ringbuf \<Rightarrow> (kstat \<times> byte list \<times> nat \<times> k_ringbuf) option" where
  "ringbuf_pop_dyn rb = do {
     let head = (if rb_head rb = rb_end rb then 0 else rb_head rb);
     (c_len, head, freesize, split_len) \<leftarrow>
       (if rb_end rb - head < RING_BUF_LEN \<and> rb_end rb - head > 0 then do {
          let split_len = rb_end rb - head;
          c \<leftarrow> memcpy_from (rb_buf rb) head split_len;
          Some (c, 0, rb_freesize rb + split_len, split_len)
        } else Some ([], head, rb_freesize rb, 0));
     (c_len, head, freesize) \<leftarrow>
       (if RING_BUF_LEN - split_len > 0 then do {
          c \<leftarrow> memcpy_from (rb_buf rb) head (RING_BUF_LEN - split_len);
          Some (c_len @ c, head + (RING_BUF_LEN - split_len), freesize + (RING_BUF_LEN - split_len))
        } else Some (c_len, head, freesize));
     let plen = bytes_size c_len;
     let head = (if head = rb_end rb then 0 else head);
     (pdata, head, freesize, len) \<leftarrow>
       (if head > rb_tail rb \<and> rb_end rb - head < plen then do {
          let split_len = rb_end rb - head;
          d \<leftarrow> memcpy_from (rb_buf rb) head split_len;
          Some (d, 0, freesize + split_len, plen - split_len)
        } else Some ([], head, freesize, plen));
     d \<leftarrow> memcpy_from (rb_buf rb) head len;
     Some (RHINO_SUCCESS, pdata @ d, plen,
       rb\<lparr>rb_head := head + len, rb_freesize := freesize + len\<rparr>)
   }"

definition ringbuf_pop :: "k_ringbuf \<Rightarrow> bool \<Rightarrow> (kstat \<times> byte list \<times> nat \<times> k_ringbuf) option" where
  "ringbuf_pop rb want_len =
     (if ringbuf_is_empty rb then Some (RHINO_RINGBUF_EMPTY, [], 0, rb)
      else if rb_type rb = RINGBUF_TYPE_FIX then ringbuf_pop_fix rb
      else if want_len then ringbuf_pop_dyn rb
      else None)"

text \<open>The checks of the exported variants (\<^verbatim>\<open>krhino_ringbuf_*\<close>).\<close>

definition krhino_ringbuf_init :: "byte list \<Rightarrow> nat \<Rightarrow> nat \<Rightarrow> kstat + k_ringbuf" where
  "krhino_ringbuf_init buf type block_size =
     (if length buf = 0 \<or> (type \<noteq> RINGBUF_TYPE_DYN \<and> type \<noteq> RINGBUF_TYPE_FIX) then Inl RHINO_INV_PARAM
      else if type = RINGBUF_TYPE_FIX \<and>
        (length buf = 0 \<or> block_size = 0 \<or> length buf mod block_size \<noteq> 0) then Inl RHINO_INV_PARAM
      else Inr (ringbuf_init buf type block_size))"

definition krhino_ringbuf_push :: "k_ringbuf \<Rightarrow> byte list \<Rightarrow> nat \<Rightarrow> (kstat \<times> k_ringbuf) option" where
  "krhino_ringbuf_push rb data len =
     (if len \<le> 0 \<or> len > RINGBUF_LEN_3BYTES_MAXVALUE \<or>
         (rb_type rb = RINGBUF_TYPE_FIX \<and> len \<noteq> rb_blk_size rb)
      then Some (RHINO_INV_PARAM, rb)
      else ringbuf_push rb data len)"

definition krhino_ringbuf_pop :: "k_ringbuf \<Rightarrow> bool \<Rightarrow> (kstat \<times> byte list \<times> nat \<times> k_ringbuf) option" where
  "krhino_ringbuf_pop rb want_len =
     (if rb_type rb = RINGBUF_TYPE_DYN \<and> \<not> want_len then Some (RHINO_INV_PARAM, [], 0, rb)
      else ringbuf_pop rb want_len)"

section \<open>Circular reads and writes\<close>

definition cread :: "'a list \<Rightarrow> nat \<Rightarrow> nat \<Rightarrow> 'a list" where
  "cread mem off n = map (\<lambda>i. mem ! ((off + i) mod length mem)) [0..<n]"

definition cwrite :: "'a list \<Rightarrow> nat \<Rightarrow> 'a list \<Rightarrow> 'a list" where
  "cwrite mem off bs =
     map (\<lambda>j. let i = (j + (length mem - off mod length mem)) mod length mem
              in if i < length bs then bs ! i else mem ! j) [0..<length mem]"

lemma length_cread [simp]: "length (cread mem off n) = n"
  by (simp add: cread_def)

lemma length_cwrite [simp]: "length (cwrite mem off bs) = length mem"
  by (simp add: cwrite_def)

lemma cread_0 [simp]: "cread mem off 0 = []"
  by (simp add: cread_def)

lemma cread_add: "cread mem off (m + n) = cread mem off m @ cread mem (off + m) n"
  by (rule nth_equalityI) (auto simp: cread_def nth_append add.assoc)

lemma cread_mod: "cread mem (off mod length mem) n = cread mem off n"
  by (simp add: cread_def mod_add_left_eq)

lemma cread_cong: "off mod length mem = off' mod length mem \<Longrightarrow> cread mem off n = cread mem off' n"
  by (metis cread_mod)

text \<open>The distance of index \<open>j\<close> from \<open>off\<close>, going up and wrapping at the end.\<close>

lemma ring_dist:
  assumes "0 < (N::nat)" "i < N"
  shows "((off + i) mod N + (N - off mod N)) mod N = i"
proof -
  have "((off + i) mod N + (N - off mod N)) mod N = (off mod N + i + (N - off mod N)) mod N"
    by (metis mod_add_left_eq)
  also have "off mod N + i + (N - off mod N) = i + N"
    using mod_less_divisor [OF assms(1), of off] by linarith
  finally show ?thesis using assms by simp
qed

lemma nth_cwrite:
  assumes "i < length mem"
  shows "cwrite mem off bs ! ((off + i) mod length mem) =
    (if i < length bs then bs ! i else mem ! ((off + i) mod length mem))"
proof -
  have N: "0 < length mem" using assms by (rule le_less_trans [OF le0])
  then have "(off + i) mod length mem < length mem" by simp
  then show ?thesis
    using ring_dist [OF N assms, of off] by (simp add: cwrite_def Let_def)
qed

lemma ring_index: "0 < (N::nat) \<Longrightarrow> j < N \<Longrightarrow> \<exists>i<N. j = (off + i) mod N"
proof -
  assume N: "0 < N" and j: "j < N"
  let ?i = "(j + (N - off mod N)) mod N"
  have "(off + ?i) mod N = (off mod N + (j + (N - off mod N))) mod N"
    by (simp add: mod_add_left_eq mod_add_right_eq)
  also have "off mod N + (j + (N - off mod N)) = j + N"
    using mod_less_divisor [OF N, of off] by linarith
  finally have "(off + ?i) mod N = j" using j by simp
  with N show ?thesis by (intro exI [of _ ?i]) simp
qed

lemma list_eq_ringI:
  assumes "length xs = length ys" "\<And>i. i < length ys \<Longrightarrow>
    xs ! ((off + i) mod length ys) = ys ! ((off + i) mod length ys)"
  shows "xs = ys"
proof (rule nth_equalityI)
  fix j assume "j < length xs"
  then have "0 < length ys" "j < length ys" using assms(1) by auto
  from ring_index [OF this, of off] assms show "xs ! j = ys ! j" by auto
qed (rule assms(1))

lemma cwrite_Nil [simp]: "cwrite mem off [] = mem"
  by (rule list_eq_ringI [of _ _ off]) (auto simp: nth_cwrite)

lemma cwrite_append:
  assumes "length xs + length ys \<le> length mem"
  shows "cwrite (cwrite mem off xs) (off + length xs) ys = cwrite mem off (xs @ ys)"
proof (rule list_eq_ringI [of _ _ "off + length xs"])
  fix i assume "i < length (cwrite mem off (xs @ ys))"
  then have i: "i < length mem" by simp
  let ?N = "length mem"
  define k where "k = (length xs + i) mod ?N"
  have N: "0 < ?N" using i by (rule le_less_trans [OF le0])
  then have k: "k < ?N" unfolding k_def by (rule mod_less_divisor)
  have ix: "(off + length xs + i) mod ?N = (off + k) mod ?N"
    by (simp add: k_def mod_add_right_eq add.assoc)
  have l: "cwrite (cwrite mem off xs) (off + length xs) ys ! ((off + length xs + i) mod ?N) =
      (if i < length ys then ys ! i else cwrite mem off xs ! ((off + k) mod ?N))"
    using nth_cwrite [of i "cwrite mem off xs" "off + length xs" ys] i ix by simp
  have r: "cwrite mem off (xs @ ys) ! ((off + length xs + i) mod ?N) =
      (if k < length (xs @ ys) then (xs @ ys) ! k else mem ! ((off + k) mod ?N))"
    unfolding ix by (rule nth_cwrite [OF k])
  have m: "cwrite mem off xs ! ((off + k) mod ?N) =
      (if k < length xs then xs ! k else mem ! ((off + k) mod ?N))"
    by (rule nth_cwrite [OF k])
  show "cwrite (cwrite mem off xs) (off + length xs) ys ! ((off + length xs + i) mod length (cwrite mem off (xs @ ys)))
      = cwrite mem off (xs @ ys) ! ((off + length xs + i) mod length (cwrite mem off (xs @ ys)))"
  proof (cases "i < length ys")
    case True
    then have "k = length xs + i" using assms by (simp add: k_def)
    with True l r assms show ?thesis by (simp add: nth_append)
  next
    case False
    have "k < length xs \<or> length xs + length ys \<le> k"
      using False i assms unfolding k_def
      by (cases "length xs + i < ?N") (auto simp: mod_if)
    with False l r m show ?thesis by (auto simp: nth_append)
  qed
qed simp

lemma cwrite_mod: "cwrite mem (off mod length mem) bs = cwrite mem off bs"
  by (simp add: cwrite_def)

lemma cread_cwrite:
  assumes "t mod length mem = (h + u) mod length mem" "u + length bs \<le> length mem"
  shows "cread (cwrite mem t bs) h (u + length bs) = cread mem h u @ bs"
proof -
  let ?N = "length mem"
  have eq: "cwrite mem t bs = cwrite mem (h + u) bs"
    using assms(1) cwrite_mod by metis
  have "cread (cwrite mem t bs) h u = cread mem h u"
  proof (rule nth_equalityI)
    fix i assume "i < length (cread (cwrite mem t bs) h u)"
    then have i: "i < u" by simp
    with assms(2) have iN: "i < ?N" "u \<le> ?N" by auto
    define k where "k = ?N - u + i"
    have k: "k < ?N" using i iN by (simp add: k_def)
    have "h + u + k = h + i + ?N"
      using iN by (simp add: k_def)
    then have "(h + u + k) mod ?N = (h + i) mod ?N"
      by (simp only: mod_add_self2)
    moreover have "\<not> k < length bs" using assms(2) i by (simp add: k_def)
    ultimately have "cwrite mem (h + u) bs ! ((h + i) mod ?N) = mem ! ((h + i) mod ?N)"
      using nth_cwrite [OF k, of "h + u" bs] by simp
    then show "cread (cwrite mem t bs) h u ! i = cread mem h u ! i"
      using i by (simp add: cread_def eq)
  qed simp
  moreover have "cread (cwrite mem t bs) (h + u) (length bs) = bs"
  proof (rule nth_equalityI)
    fix i assume "i < length (cread (cwrite mem t bs) (h + u) (length bs))"
    then have i: "i < length bs" by simp
    with assms(2) have "i < ?N" by simp
    then show "cread (cwrite mem t bs) (h + u) (length bs) ! i = bs ! i"
      using nth_cwrite [of i mem "h + u" bs] i by (simp add: cread_def eq)
  qed simp
  ultimately show ?thesis by (simp add: cread_add)
qed

lemma cread_plain: "off + n \<le> length mem \<Longrightarrow> cread mem off n = take n (drop off mem)"
  by (rule nth_equalityI) (auto simp: cread_def)

lemma memcpy_from_cread: "off + n \<le> length mem \<Longrightarrow> memcpy_from mem off n = Some (cread mem off n)"
  by (simp add: memcpy_from_def cread_plain)

lemma cwrite_plain:
  assumes "off + length bs \<le> length mem"
  shows "cwrite mem off bs = take off mem @ bs @ drop (off + length bs) mem"
proof (cases "off < length mem")
  case True
  show ?thesis
  proof (rule list_eq_ringI [of _ _ off])
    show len: "length (cwrite mem off bs) = length (take off mem @ bs @ drop (off + length bs) mem)"
      using assms by simp
    fix i assume "i < length (take off mem @ bs @ drop (off + length bs) mem)"
    then have i: "i < length mem" using assms by simp
    let ?j = "(off + i) mod length mem"
    have "?j = (if off + i < length mem then off + i else off + i - length mem)"
      using True i by (simp add: mod_if)
    then have "(take off mem @ bs @ drop (off + length bs) mem) ! ?j
        = (if i < length bs then bs ! i else mem ! ?j)"
      using True i assms by (auto simp: nth_append min_def)
    then show "cwrite mem off bs ! ((off + i) mod length (take off mem @ bs @ drop (off + length bs) mem))
        = (take off mem @ bs @ drop (off + length bs) mem)
            ! ((off + i) mod length (take off mem @ bs @ drop (off + length bs) mem))"
      using nth_cwrite [OF i, of off bs] len by simp
  qed
next
  case False
  with assms have "length bs = 0" by linarith
  with assms show ?thesis by simp
qed

lemma memcpy_to_cwrite:
  "off + n \<le> length mem \<Longrightarrow> n \<le> length src \<Longrightarrow>
     memcpy_to mem off src n = Some (cwrite mem off (take n src))"
  by (simp add: memcpy_to_def cwrite_plain min_absorb2)

section \<open>Well-formed buffers and their content\<close>

definition rb_wf :: "k_ringbuf \<Rightarrow> bool" where
  "rb_wf rb \<longleftrightarrow> 0 < rb_end rb \<and> rb_end rb < 2 ^ 32 \<and> rb_head rb \<le> rb_end rb \<and> rb_tail rb \<le> rb_end rb
     \<and> rb_freesize rb \<le> rb_end rb
     \<and> rb_tail rb mod rb_end rb = (rb_head rb + (rb_end rb - rb_freesize rb)) mod rb_end rb"

definition rb_content :: "k_ringbuf \<Rightarrow> byte list" where
  "rb_content rb = cread (rb_buf rb) (rb_head rb) (rb_end rb - rb_freesize rb)"

lemma length_rb_content: "length (rb_content rb) = rb_end rb - rb_freesize rb"
  by (simp add: rb_content_def)

text \<open>Appending bytes at the tail and removing bytes at the head, in terms of the content.\<close>

lemma rb_append:
  assumes "rb_wf rb" "length bs \<le> rb_freesize rb" "t' \<le> rb_end rb"
    and "t' mod rb_end rb = (rb_tail rb + length bs) mod rb_end rb"
  defines "rb' \<equiv> rb\<lparr>rb_buf := cwrite (rb_buf rb) (rb_tail rb) bs, rb_tail := t',
      rb_freesize := rb_freesize rb - length bs\<rparr>"
  shows "rb_wf rb'" and "rb_content rb' = rb_content rb @ bs"
proof -
  let ?N = "rb_end rb" and ?u = "rb_end rb - rb_freesize rb"
  have u: "?N - (rb_freesize rb - length bs) = ?u + length bs"
    using assms(1,2) by (simp add: rb_wf_def)
  have "t' mod ?N = ((rb_head rb + ?u) mod ?N + length bs) mod ?N"
    using assms(1,4) by (metis rb_wf_def mod_add_left_eq)
  then have "t' mod ?N = (rb_head rb + (?u + length bs)) mod ?N"
    by (simp add: mod_add_left_eq add.assoc)
  moreover have "rb_freesize rb - length bs \<le> ?N"
    using assms(1) by (simp add: rb_wf_def le_diff_conv trans_le_add1)
  ultimately show "rb_wf rb'"
    using assms(1-3) u by (simp add: rb'_def rb_wf_def)
  show "rb_content rb' = rb_content rb @ bs"
    using assms(1,2) u cread_cwrite [of "rb_tail rb" "rb_buf rb" "rb_head rb" ?u bs]
    by (simp add: rb'_def rb_content_def rb_wf_def)
qed

lemma rb_remove:
  assumes "rb_wf rb" "rb_content rb = bs @ rest" "h' \<le> rb_end rb"
    and "h' mod rb_end rb = (rb_head rb + length bs) mod rb_end rb"
  defines "rb' \<equiv> rb\<lparr>rb_head := h', rb_freesize := rb_freesize rb + length bs\<rparr>"
  shows "rb_wf rb'" and "rb_content rb' = rest" and "cread (rb_buf rb) (rb_head rb) (length bs) = bs"
proof -
  let ?N = "rb_end rb" and ?u = "rb_end rb - rb_freesize rb"
  have u: "?u = length bs + length rest"
    using assms(2) length_rb_content [of rb] by simp
  have split: "cread (rb_buf rb) (rb_head rb) (length bs) @ cread (rb_buf rb) (rb_head rb + length bs) (length rest)
      = bs @ rest"
    using assms(2) u by (simp add: rb_content_def cread_add)
  then show "cread (rb_buf rb) (rb_head rb) (length bs) = bs"
    by simp
  have "(h' + length rest) mod ?N = ((rb_head rb + length bs) mod ?N + length rest) mod ?N"
    using assms(4) by (metis mod_add_left_eq)
  also have "\<dots> = (rb_head rb + ?u) mod ?N"
    by (simp add: u mod_add_left_eq add.assoc)
  finally have "(h' + length rest) mod ?N = (rb_head rb + ?u) mod ?N" .
  moreover have "?N - (rb_freesize rb + length bs) = length rest"
    using u assms(1) by (simp add: rb_wf_def)
  ultimately show "rb_wf rb'"
    using assms(1,3) u by (auto simp: rb'_def rb_wf_def)
  show "rb_content rb' = rest"
    using split \<open>?N - (rb_freesize rb + length bs) = length rest\<close>
      cread_cong [OF assms(4), of "length rest"] by (simp add: rb'_def rb_content_def)
qed

lemma rb_norm: "x \<le> N \<Longrightarrow> 0 < N \<Longrightarrow> (if x = N then 0 else x) = x mod (N::nat)"
  by auto

lemma free_gap:
  assumes "(t::nat) < N" "h \<le> N" "f \<le> N" "t = (h + (N - f)) mod N" "t < h"
  shows "t + f \<le> h"
proof (cases "f \<le> h")
  case True
  then have "h + (N - f) = (h - f) + N" using assms by simp
  then have "t = (h - f) mod N" using assms(4) by simp
  also have "\<dots> \<le> h - f" by simp
  finally show ?thesis using True by simp
next
  case False
  then have "t = h + (N - f)" using assms by simp
  with assms False show ?thesis by simp
qed

lemma wrap_mod:
  assumes "(t::nat) < N" "N - t < n"
  shows "(n - (N - t)) mod N = (t + n) mod N"
proof -
  have "t + n = n - (N - t) + N" using assms by linarith
  then show ?thesis by (metis mod_add_self2)
qed

text \<open>
  A push of the dynamic type copies twice, first the length and then the payload, each time
  in two parts when the buffer end cuts the bytes.  \<open>put_split\<close> is one such copy, and gives the
  memory and the tail after it.
\<close>

definition put_split :: "nat \<Rightarrow> nat \<Rightarrow> byte list \<Rightarrow> nat \<Rightarrow> byte list \<Rightarrow> nat \<Rightarrow> (byte list \<times> nat) option" where
  "put_split N head mem tail src n =
     (if head \<le> tail \<and> N - tail < n \<and> 0 < N - tail then do {
        mem \<leftarrow> memcpy_to mem tail src (N - tail);
        mem \<leftarrow> memcpy_to mem 0 (drop (N - tail) src) (n - (N - tail));
        Some (mem, n - (N - tail))
      } else do {
        mem \<leftarrow> memcpy_to mem tail src n;
        Some (mem, tail + n)
      })"

lemma put_split_length:
  assumes "0 < L"
  shows "((if h \<le> t \<and> N - t < L \<and> 0 < N - t then
       memcpy_to m t c (N - t) \<bind> (\<lambda>mem. Some (mem, 0, f - (N - t), L - (N - t), N - t))
     else Some (m, t, f, L, 0)) \<bind>
    (\<lambda>(mem, tail, freesize, len_bytes, split_len).
       (if 0 < len_bytes then
          memcpy_to mem tail (drop split_len c) len_bytes \<bind>
            (\<lambda>mem. Some (mem, tail + len_bytes, freesize - len_bytes))
        else Some (mem, tail, freesize)) \<bind> k))
   = put_split N h m t c L \<bind> (\<lambda>(mem, tail). k (mem, tail, f - L))"
proof -
  define j where "j = N - t"
  have "f - j - (L - j) = f - L" if "j < L" using that by simp
  with assms show ?thesis
    unfolding put_split_def j_def [symmetric] by (simp del: diff_diff_left)
qed

lemma put_split_payload:
  "(if h \<le> t \<and> N - t < n \<and> 0 < N - t then
      memcpy_to m t d (N - t) \<bind> (\<lambda>mem. Some (mem, 0, f - (N - t), drop (N - t) d, n - (N - t)))
    else Some (m, t, f, d, n)) \<bind>
   (\<lambda>(mem, tail, freesize, data, len). memcpy_to mem tail data len \<bind>
      (\<lambda>mem. k mem (tail + len) (freesize - len)))
   = put_split N h m t d n \<bind> (\<lambda>(mem, tail). k mem tail (f - n))"
proof -
  define j where "j = N - t"
  have "f - j - (n - j) = f - n" if "j < n" using that by simp
  then show ?thesis
    unfolding put_split_def j_def [symmetric] by (simp del: diff_diff_left)
qed

lemma ringbuf_push_dyn_put_split:
  assumes "0 < len" "len < 2 ^ 32 - 1" "\<not> rb_freesize rb < (RING_BUF_LEN + len) mod 2 ^ 32"
  shows "ringbuf_push_dyn rb data len =
     put_split (rb_end rb) (rb_head rb) (rb_buf rb)
        (if rb_tail rb = rb_end rb then 0 else rb_tail rb) (size_bytes len) RING_BUF_LEN \<bind>
     (\<lambda>(mem, tail). put_split (rb_end rb) (rb_head rb) mem
        (if tail = rb_end rb then 0 else tail) data len \<bind>
     (\<lambda>(mem, tail). Some (RHINO_SUCCESS, rb\<lparr>rb_buf := mem, rb_tail := tail,
        rb_freesize := rb_freesize rb - RING_BUF_LEN - len\<rparr>)))"
proof -
  have "0 < RING_BUF_LEN" by (simp add: RING_BUF_LEN_def)
  moreover have "\<not> (len = 0 \<or> len \<ge> 2 ^ 32 - 1)" using assms by simp
  ultimately show ?thesis
    using assms(3)
    by (simp only: ringbuf_push_dyn_def Let_def put_split_length if_False prod.case
      put_split_payload [where k = "\<lambda>mem tail freesize. Some (RHINO_SUCCESS,
        rb\<lparr>rb_buf := mem, rb_tail := tail, rb_freesize := freesize\<rparr>)"])
qed

lemma put_split:
  assumes "t < length mem" "h \<le> length mem" "f \<le> length mem"
    and "t = (h + (length mem - f)) mod length mem" "n \<le> f" "n \<le> length src"
  shows "\<exists>t' \<le> length mem. t' mod length mem = (t + n) mod length mem \<and>
    put_split (length mem) h mem t src n = Some (cwrite mem t (take n src), t')"
proof (cases "h \<le> t \<and> length mem - t < n")
  case True
  let ?N = "length mem" and ?k = "length mem - t"
  have k: "?k < n" "0 < ?k" using True assms(1) by auto
  have 1: "memcpy_to mem t src ?k = Some (cwrite mem t (take ?k src))"
    using assms k by (intro memcpy_to_cwrite) auto
  have "memcpy_to (cwrite mem t (take ?k src)) 0 (drop ?k src) (n - ?k)
      = Some (cwrite (cwrite mem t (take ?k src)) 0 (take (n - ?k) (drop ?k src)))"
    using assms k by (intro memcpy_to_cwrite) auto
  also have "cwrite (cwrite mem t (take ?k src)) 0 (take (n - ?k) (drop ?k src))
      = cwrite (cwrite mem t (take ?k src)) (t + length (take ?k src)) (take (n - ?k) (drop ?k src))"
    using assms k cwrite_mod [of "cwrite mem t (take ?k src)" ?N] by (simp add: min_absorb2)
  also have "\<dots> = cwrite mem t (take ?k src @ take (n - ?k) (drop ?k src))"
    using assms k by (intro cwrite_append) (simp add: min_absorb2)
  also have "take ?k src @ take (n - ?k) (drop ?k src) = take n src"
    using k by (simp add: take_add [symmetric])
  finally have "put_split ?N h mem t src n = Some (cwrite mem t (take n src), n - ?k)"
    using 1 True k by (simp add: put_split_def)
  moreover have "n - ?k \<le> ?N" using assms(3,5) by linarith
  ultimately show ?thesis using wrap_mod [OF assms(1) k(1)] by blast
next
  case False
  have "t + n \<le> length mem"
    using False free_gap [OF assms(1-4)] assms(1,2,5) by (cases "h \<le> t") auto
  then have "put_split (length mem) h mem t src n = Some (cwrite mem t (take n src), t + n)"
    using assms(6) False by (auto simp: put_split_def memcpy_to_cwrite)
  with \<open>t + n \<le> length mem\<close> show ?thesis by blast
qed

lemma length_size_bytes [simp]: "length (size_bytes n) = RING_BUF_LEN"
  by (simp add: size_bytes_def RING_BUF_LEN_def)

lemma bytes_size_size_bytes:
  assumes "n < 2 ^ 32"
  shows "bytes_size (size_bytes n) = n"
proof -
  have "n div 2 ^ 24 < 256" using assms by (simp add: div_less_iff_less_mult)
  then have "bytes_size (size_bytes n) =
      n mod 256 + 256 * (n div 256 mod 256 + 256 * (n div 256 div 256 mod 256 + 256 * (n div 256 div 256 div 256)))"
    by (simp add: size_bytes_def unat_of_nat div_mult2_eq [symmetric])
  then show ?thesis by simp
qed

lemma ringbuf_push_dyn_success:
  assumes wf: "rb_wf rb" and len: "0 < len" "len < 2 ^ 32 - 1" "len \<le> length data"
    and free: "RING_BUF_LEN + len \<le> rb_freesize rb"
  shows "\<exists>t' \<le> rb_end rb. t' mod rb_end rb = (rb_tail rb + (RING_BUF_LEN + len)) mod rb_end rb \<and>
    ringbuf_push_dyn rb data len = Some (RHINO_SUCCESS,
      rb\<lparr>rb_buf := cwrite (rb_buf rb) (rb_tail rb) (size_bytes len @ take len data),
         rb_tail := t', rb_freesize := rb_freesize rb - (RING_BUF_LEN + len)\<rparr>)"
proof -
  let ?N = "rb_end rb" and ?h = "rb_head rb" and ?f = "rb_freesize rb"
  let ?t = "rb_tail rb mod ?N"
  have N: "0 < ?N" "?N < 2 ^ 32" "?h \<le> ?N" "?f \<le> ?N" "rb_tail rb \<le> ?N" "?t = (?h + (?N - ?f)) mod ?N"
    using wf by (simp_all add: rb_wf_def)
  define m1 where "m1 = cwrite (rb_buf rb) ?t (take RING_BUF_LEN (size_bytes len))"
  obtain t1 where t1: "t1 \<le> ?N" "t1 mod ?N = (?t + RING_BUF_LEN) mod ?N"
    "put_split ?N ?h (rb_buf rb) ?t (size_bytes len) RING_BUF_LEN = Some (m1, t1)"
    using put_split [of ?t "rb_buf rb" ?h ?f RING_BUF_LEN "size_bytes len"] N free
    by (auto simp: m1_def)
  have f1: "?N - (?f - RING_BUF_LEN) = ?N - ?f + RING_BUF_LEN" "?f - RING_BUF_LEN \<le> ?N"
    "len \<le> ?f - RING_BUF_LEN"
    using N(4) free by simp_all
  have "t1 mod ?N = (?h + (?N - (?f - RING_BUF_LEN))) mod ?N"
    using t1(2) unfolding f1(1) N(6) by (simp add: mod_add_left_eq add.assoc)
  then obtain t2 where t2: "t2 \<le> ?N" "t2 mod ?N = (t1 mod ?N + len) mod ?N"
    "put_split ?N ?h m1 (t1 mod ?N) data len = Some (cwrite m1 (t1 mod ?N) (take len data), t2)"
    using put_split [of "t1 mod ?N" m1 ?h "?f - RING_BUF_LEN" len data] N(1,3) f1(2,3) len(3)
    by (auto simp: m1_def)
  have "cwrite m1 (t1 mod ?N) (take len data) = cwrite m1 (?t + length (size_bytes len)) (take len data)"
    using cwrite_mod [of m1 "?t + RING_BUF_LEN"] t1(2) by (simp add: m1_def)
  also have "\<dots> = cwrite (rb_buf rb) ?t (size_bytes len @ take len data)"
    using free N(4) len(3) by (simp add: m1_def cwrite_append [symmetric] min_absorb2)
  finally have mem: "cwrite m1 (t1 mod ?N) (take len data)
      = cwrite (rb_buf rb) (rb_tail rb) (size_bytes len @ take len data)"
    using cwrite_mod [of "rb_buf rb" "rb_tail rb"] by simp
  have "t2 mod ?N = (rb_tail rb + (RING_BUF_LEN + len)) mod ?N"
    using t2(2) t1(2) by (simp add: mod_add_left_eq add.assoc)
  moreover have "\<not> ?f < (RING_BUF_LEN + len) mod 2 ^ 32"
    using free N by simp
  ultimately show ?thesis
    using t2 t1(1,3) N(1,5) mem len
    by (intro exI [of _ t2]) (simp add: ringbuf_push_dyn_put_split rb_norm)
qed

text \<open>The same for a pop: \<open>get_split\<close> is one of its two copies, with the head after it.\<close>

definition get_split :: "nat \<Rightarrow> bool \<Rightarrow> byte list \<Rightarrow> nat \<Rightarrow> nat \<Rightarrow> (byte list \<times> nat) option" where
  "get_split N split mem head n =
     (if split \<and> N - head < n then do {
        a \<leftarrow> memcpy_from mem head (N - head);
        b \<leftarrow> memcpy_from mem 0 (n - (N - head));
        Some (a @ b, n - (N - head))
      } else do {
        b \<leftarrow> memcpy_from mem head n;
        Some (b, head + n)
      })"

lemma get_split_length:
  assumes "0 < L"
  shows "((if N - h < L \<and> N - h > 0 then
       memcpy_from m h (N - h) \<bind> (\<lambda>c. Some (c, 0, f + (N - h), N - h))
     else Some ([], h, f, 0)) \<bind>
    (\<lambda>(c_len, head, freesize, split_len).
       (if L - split_len > 0 then
          memcpy_from m head (L - split_len) \<bind>
            (\<lambda>c. Some (c_len @ c, head + (L - split_len), freesize + (L - split_len)))
        else Some (c_len, head, freesize)) \<bind> k))
   = get_split N (0 < N - h) m h L \<bind> (\<lambda>(c, head). k (c, head, f + L))"
proof -
  define j where "j = N - h"
  have sum: "f + j + (L - j) = f + L" if "j < L" using that by simp
  with assms show ?thesis
    unfolding get_split_def j_def [symmetric] by (auto simp: sum simp del: add_diff_assoc add_diff_assoc2)
qed

lemma get_split_payload:
  "(if t < h \<and> N - h < n then
      memcpy_from m h (N - h) \<bind> (\<lambda>d. Some (d, 0, f + (N - h), n - (N - h)))
    else Some ([], h, f, n)) \<bind>
   (\<lambda>(pdata, head, freesize, len). memcpy_from m head len \<bind>
      (\<lambda>d. k (pdata @ d) (head + len) (freesize + len)))
   = get_split N (t < h) m h n \<bind> (\<lambda>(d, head). k d head (f + n))"
proof -
  define j where "j = N - h"
  have sum: "f + j + (n - j) = f + n" if "j < n" using that by simp
  then show ?thesis
    unfolding get_split_def j_def [symmetric] by (auto simp: sum simp del: add_diff_assoc add_diff_assoc2)
qed

lemma ringbuf_pop_dyn_get_split:
  "ringbuf_pop_dyn rb = do {
     let head = (if rb_head rb = rb_end rb then 0 else rb_head rb);
     (c_len, head) \<leftarrow> get_split (rb_end rb) (0 < rb_end rb - head) (rb_buf rb) head RING_BUF_LEN;
     let plen = bytes_size c_len;
     let head = (if head = rb_end rb then 0 else head);
     (d, head) \<leftarrow> get_split (rb_end rb) (rb_tail rb < head) (rb_buf rb) head plen;
     Some (RHINO_SUCCESS, d, plen,
       rb\<lparr>rb_head := head, rb_freesize := rb_freesize rb + RING_BUF_LEN + plen\<rparr>)
   }"
proof -
  have "0 < RING_BUF_LEN" by (simp add: RING_BUF_LEN_def)
  then show ?thesis
    by (simp only: ringbuf_pop_dyn_def Let_def get_split_length prod.case
      get_split_payload [where k = "\<lambda>d head freesize. Some (RHINO_SUCCESS, d, plen,
        rb\<lparr>rb_head := head, rb_freesize := freesize\<rparr>)" for plen])
qed

lemma get_split:
  assumes "h < length mem" "n \<le> length mem" "\<not> c \<Longrightarrow> h + n \<le> length mem"
  shows "\<exists>h' \<le> length mem. h' mod length mem = (h + n) mod length mem \<and>
    get_split (length mem) c mem h n = Some (cread mem h n, h')"
proof (cases "c \<and> length mem - h < n")
  case True
  let ?N = "length mem" and ?k = "length mem - h"
  have k: "?k < n" "0 < ?k" "n - ?k \<le> ?N" using True assms by auto
  have "cread mem h n = cread mem h ?k @ cread mem (h + ?k) (n - ?k)"
    using cread_add [of mem h ?k "n - ?k"] k by simp
  also have "cread mem (h + ?k) (n - ?k) = cread mem 0 (n - ?k)"
    using assms(1) by (intro cread_cong) simp
  finally have "get_split ?N c mem h n = Some (cread mem h n, n - ?k)"
    using True k assms(1) by (simp add: get_split_def memcpy_from_cread)
  with k wrap_mod [OF assms(1) k(1)] show ?thesis by blast
next
  case False
  then have "h + n \<le> length mem" using assms(1,3) by (cases c) auto
  then have "get_split (length mem) c mem h n = Some (cread mem h n, h + n)"
    using False by (auto simp: get_split_def memcpy_from_cread)
  with \<open>h + n \<le> length mem\<close> show ?thesis by blast
qed

text \<open>
  The payload of a pop lies in one piece unless the head is past the tail, because the length
  that was just read leaves less than a full buffer in use.
\<close>

lemma used_gap:
  assumes "(h::nat) < N" "t \<le> N" "t mod N = (h + u) mod N" "u < N" "\<not> t < h"
  shows "h + u \<le> N"
proof (rule ccontr)
  assume n: "\<not> h + u \<le> N"
  then have "(h + u) mod N = h + u - N"
    using assms(1,4) by (simp add: mod_if)
  with assms(3) have e: "t mod N = h + u - N" by simp
  show False
  proof (cases "t = N")
    case True
    with e n show False by simp
  next
    case False
    with e assms(2,4,5) n show False by simp
  qed
qed

lemma ringbuf_pop_dyn_success:
  assumes wf: "rb_wf rb" and con: "rb_content rb = (size_bytes (length m) @ m) @ rest" and len: "length m < 2 ^ 32"
  shows "\<exists>h' \<le> rb_end rb. h' mod rb_end rb = (rb_head rb + (RING_BUF_LEN + length m)) mod rb_end rb \<and>
    ringbuf_pop_dyn rb = Some (RHINO_SUCCESS, m, length m,
      rb\<lparr>rb_head := h', rb_freesize := rb_freesize rb + (RING_BUF_LEN + length m)\<rparr>)"
proof -
  let ?N = "rb_end rb" and ?u = "rb_end rb - rb_freesize rb"
  let ?h = "rb_head rb mod ?N"
  have N: "0 < ?N" "rb_head rb \<le> ?N" "rb_tail rb \<le> ?N" "rb_tail rb mod ?N = (rb_head rb + ?u) mod ?N"
    using wf by (simp_all add: rb_wf_def)
  have u: "?u = RING_BUF_LEN + length m + length rest"
    using con length_rb_content [of rb] by simp
  then have le: "RING_BUF_LEN \<le> ?N" "length m \<le> ?N" "length m + length rest < ?N"
    using N(1) by (auto simp: RING_BUF_LEN_def)
  have cr: "cread (rb_buf rb) (rb_head rb) (RING_BUF_LEN + length m) = size_bytes (length m) @ m"
    using rb_remove(3) [OF wf con, of "(rb_head rb + (RING_BUF_LEN + length m)) mod ?N"] N(1) by simp
  then have c1: "cread (rb_buf rb) ?h RING_BUF_LEN = size_bytes (length m)"
    and c2: "cread (rb_buf rb) (rb_head rb + RING_BUF_LEN) (length m) = m"
    by (simp_all add: cread_add cread_mod append_eq_append_conv)
  obtain h1 where h1: "h1 \<le> ?N" "h1 mod ?N = (?h + RING_BUF_LEN) mod ?N"
    "get_split ?N (0 < ?N - ?h) (rb_buf rb) ?h RING_BUF_LEN = Some (size_bytes (length m), h1)"
    using get_split [of ?h "rb_buf rb" RING_BUF_LEN "0 < ?N - ?h"] N(1) le c1 by auto
  have m1: "h1 mod ?N = (rb_head rb + RING_BUF_LEN) mod ?N"
    using h1(2) by (simp add: mod_add_left_eq)
  have "rb_tail rb mod ?N = (h1 mod ?N + (length m + length rest)) mod ?N"
    using N(4) m1 by (simp add: u mod_add_left_eq add.assoc)
  then have "\<not> rb_tail rb < h1 mod ?N \<Longrightarrow> h1 mod ?N + length m \<le> ?N"
    using used_gap [of "h1 mod ?N" ?N "rb_tail rb" "length m + length rest"] N le
    by simp
  then obtain h2 where h2: "h2 \<le> ?N" "h2 mod ?N = (h1 mod ?N + length m) mod ?N"
    "get_split ?N (rb_tail rb < h1 mod ?N) (rb_buf rb) (h1 mod ?N) (length m) = Some (m, h2)"
    using get_split [of "h1 mod ?N" "rb_buf rb" "length m" "rb_tail rb < h1 mod ?N"] N(1) le
      c2 cread_cong [OF m1, of "length m"]
    by (auto simp: cread_mod)
  have "h2 mod ?N = (rb_head rb + (RING_BUF_LEN + length m)) mod ?N"
    using h2(2) m1 by (simp add: mod_add_left_eq add.assoc)
  with h1 h2 N(1,2) len show ?thesis
    by (intro exI [of _ h2])
      (simp add: ringbuf_pop_dyn_get_split rb_norm bytes_size_size_bytes add.assoc Let_def)
qed

section \<open>Buffers that hold messages\<close>

text \<open>
  A fixed buffer holds blocks of \<open>blk_size\<close> bytes and its length is a multiple of that; a
  dynamic buffer holds messages of any positive length, each with its length before it.
\<close>

definition rb_msg_ok :: "k_ringbuf \<Rightarrow> byte list \<Rightarrow> bool" where
  "rb_msg_ok rb m \<longleftrightarrow>
     (if rb_type rb = RINGBUF_TYPE_FIX then length m = rb_blk_size rb
      else 0 < length m \<and> length m < 2 ^ 32 - 1)"

definition rb_encode :: "k_ringbuf \<Rightarrow> byte list \<Rightarrow> byte list" where
  "rb_encode rb m = (if rb_type rb = RINGBUF_TYPE_FIX then m else size_bytes (length m) @ m)"

definition rb_holds :: "k_ringbuf \<Rightarrow> byte list list \<Rightarrow> bool" where
  "rb_holds rb ms \<longleftrightarrow> rb_wf rb
     \<and> (rb_type rb = RINGBUF_TYPE_FIX \<longrightarrow>
          0 < rb_blk_size rb \<and> rb_blk_size rb dvd rb_end rb \<and> rb_blk_size rb dvd rb_head rb)
     \<and> (\<forall>m \<in> set ms. rb_msg_ok rb m)
     \<and> rb_content rb = concat (map (rb_encode rb) ms)"

lemma rb_encode_cong [simp]:
  "rb_encode (rb\<lparr>rb_head := h\<rparr>) = rb_encode rb"
  "rb_encode (rb\<lparr>rb_tail := t\<rparr>) = rb_encode rb"
  "rb_encode (rb\<lparr>rb_buf := b\<rparr>) = rb_encode rb"
  "rb_encode (rb\<lparr>rb_freesize := f\<rparr>) = rb_encode rb"
  "rb_msg_ok (rb\<lparr>rb_head := h\<rparr>) = rb_msg_ok rb"
  "rb_msg_ok (rb\<lparr>rb_tail := t\<rparr>) = rb_msg_ok rb"
  "rb_msg_ok (rb\<lparr>rb_buf := b\<rparr>) = rb_msg_ok rb"
  "rb_msg_ok (rb\<lparr>rb_freesize := f\<rparr>) = rb_msg_ok rb"
  by (auto simp: rb_encode_def rb_msg_ok_def fun_eq_iff)

lemma dvd_fits:
  assumes "(b::nat) dvd x" "b dvd N" "x < N"
  shows "x + b \<le> N"
proof -
  obtain i j where "x = b * i" "N = b * j" using assms(1,2) unfolding dvd_def by blast
  moreover from this have "i < j" using assms(3) by auto
  then have "b * (i + 1) \<le> b * j" by (intro mult_le_mono2) simp
  ultimately show ?thesis by simp
qed

lemma rb_holds_used: "rb_holds rb ms \<Longrightarrow> rb_end rb - rb_freesize rb = (\<Sum>m\<leftarrow>ms. length (rb_encode rb m))"
  using length_rb_content [of rb] by (simp add: rb_holds_def length_concat comp_def)

lemma rb_holds_blk_dvd:
  assumes "rb_holds rb ms" "rb_type rb = RINGBUF_TYPE_FIX"
  shows "rb_blk_size rb dvd rb_tail rb mod rb_end rb" "rb_blk_size rb dvd rb_end rb - rb_freesize rb"
    "rb_blk_size rb dvd rb_head rb mod rb_end rb"
proof -
  have "\<forall>m \<in> set ms. length (rb_encode rb m) = rb_blk_size rb"
    using assms by (simp add: rb_holds_def rb_encode_def rb_msg_ok_def)
  then have "(\<Sum>m\<leftarrow>ms. length (rb_encode rb m)) = length ms * rb_blk_size rb"
    by (induction ms) auto
  then show u: "rb_blk_size rb dvd rb_end rb - rb_freesize rb"
    using rb_holds_used [OF assms(1)] by simp
  show "rb_blk_size rb dvd rb_head rb mod rb_end rb"
    using assms by (simp add: rb_holds_def dvd_mod)
  have "rb_tail rb mod rb_end rb = (rb_head rb + (rb_end rb - rb_freesize rb)) mod rb_end rb"
    using assms(1) by (simp add: rb_holds_def rb_wf_def)
  then show "rb_blk_size rb dvd rb_tail rb mod rb_end rb"
    using assms u by (simp add: rb_holds_def dvd_mod)
qed

text \<open>A push that has the space appends the message, one that has not leaves the buffer alone.\<close>

lemma rb_holds_push:
  assumes holds: "rb_holds rb ms" and ok: "rb_msg_ok rb m"
    and free: "length (rb_encode rb m) \<le> rb_freesize rb"
  shows "\<exists>rb'. ringbuf_push rb m (length m) = Some (RHINO_SUCCESS, rb') \<and> rb_holds rb' (ms @ [m])
    \<and> rb_type rb' = rb_type rb \<and> rb_blk_size rb' = rb_blk_size rb \<and> rb_end rb' = rb_end rb
    \<and> rb_freesize rb' = rb_freesize rb - length (rb_encode rb m)"
proof -
  let ?N = "rb_end rb" and ?bs = "rb_encode rb m"
  have wf: "rb_wf rb" using holds by (simp add: rb_holds_def)
  have "\<exists>t' \<le> ?N. t' mod ?N = (rb_tail rb + length ?bs) mod ?N \<and>
      ringbuf_push rb m (length m) = Some (RHINO_SUCCESS,
        rb\<lparr>rb_buf := cwrite (rb_buf rb) (rb_tail rb) ?bs, rb_tail := t',
           rb_freesize := rb_freesize rb - length ?bs\<rparr>)"
  proof (cases "rb_type rb = RINGBUF_TYPE_FIX")
    case True
    have "rb_tail rb mod ?N + rb_blk_size rb \<le> ?N"
      using rb_holds_blk_dvd(1) [OF holds True] holds True wf
      by (intro dvd_fits) (auto simp: rb_holds_def rb_wf_def)
    then have "memcpy_to (rb_buf rb) (rb_tail rb mod ?N) m (rb_blk_size rb)
        = Some (cwrite (rb_buf rb) (rb_tail rb) m)"
      using ok True by (simp add: memcpy_to_cwrite rb_msg_ok_def cwrite_mod)
    moreover have "0 < ?N" "rb_tail rb \<le> ?N" using wf by (simp_all add: rb_wf_def)
    ultimately show ?thesis
      using True ok free \<open>rb_tail rb mod ?N + rb_blk_size rb \<le> ?N\<close>
      by (intro exI [of _ "rb_tail rb mod ?N + rb_blk_size rb"])
        (simp add: ringbuf_push_def ringbuf_push_fix_def rb_encode_def rb_msg_ok_def
          rb_norm mod_add_left_eq)
  next
    case False
    then show ?thesis
      using ringbuf_push_dyn_success [OF wf, of "length m" m] ok free
      by (simp add: ringbuf_push_def rb_encode_def rb_msg_ok_def)
  qed
  then obtain t' where t': "t' \<le> ?N" "t' mod ?N = (rb_tail rb + length ?bs) mod ?N"
    and push: "ringbuf_push rb m (length m) = Some (RHINO_SUCCESS,
        rb\<lparr>rb_buf := cwrite (rb_buf rb) (rb_tail rb) ?bs, rb_tail := t',
           rb_freesize := rb_freesize rb - length ?bs\<rparr>)"
    by blast
  show ?thesis
    using holds ok rb_append [OF wf free t'] unfolding push
    by (simp add: rb_holds_def)
qed

lemma ringbuf_push_full:
  assumes "rb_holds rb ms" "rb_msg_ok rb m" "rb_freesize rb < length (rb_encode rb m)"
    and "length (rb_encode rb m) < 2 ^ 32"
  shows "ringbuf_push rb m (length m) = Some (RHINO_RINGBUF_FULL, rb)"
  using assms
  by (cases "rb_type rb = RINGBUF_TYPE_FIX")
    (simp_all add: ringbuf_push_def ringbuf_push_fix_def ringbuf_push_dyn_def rb_encode_def rb_msg_ok_def)

lemma rb_holds_pop:
  assumes holds: "rb_holds rb (m # ms)"
  shows "\<exists>rb'. ringbuf_pop rb True = Some (RHINO_SUCCESS, m, length m, rb') \<and> rb_holds rb' ms
    \<and> rb_type rb' = rb_type rb \<and> rb_blk_size rb' = rb_blk_size rb \<and> rb_end rb' = rb_end rb
    \<and> rb_freesize rb' = rb_freesize rb + length (rb_encode rb m)"
proof -
  let ?N = "rb_end rb" and ?bs = "rb_encode rb m"
  have wf: "rb_wf rb" and ok: "rb_msg_ok rb m"
    and con: "rb_content rb = ?bs @ concat (map (rb_encode rb) ms)"
    using holds by (simp_all add: rb_holds_def)
  have "0 < length ?bs"
    using holds ok by (auto simp: rb_encode_def rb_msg_ok_def rb_holds_def RING_BUF_LEN_def)
  then have ne: "\<not> ringbuf_is_empty rb"
    using con length_rb_content [of rb] by (auto simp: ringbuf_is_empty_def)
  have "\<exists>h' \<le> ?N. h' mod ?N = (rb_head rb + length ?bs) mod ?N
      \<and> (rb_type rb = RINGBUF_TYPE_FIX \<longrightarrow> rb_blk_size rb dvd h') \<and>
      ringbuf_pop rb True = Some (RHINO_SUCCESS, m, length m,
        rb\<lparr>rb_head := h', rb_freesize := rb_freesize rb + length ?bs\<rparr>)"
  proof (cases "rb_type rb = RINGBUF_TYPE_FIX")
    case True
    have le: "rb_head rb mod ?N + rb_blk_size rb \<le> ?N"
      using rb_holds_blk_dvd(3) [OF holds True] holds True wf
      by (intro dvd_fits) (auto simp: rb_holds_def rb_wf_def)
    have len: "length m = rb_blk_size rb" using ok True by (simp add: rb_msg_ok_def)
    have "memcpy_from (rb_buf rb) (rb_head rb mod ?N) (rb_blk_size rb) = Some m"
      using rb_remove(3) [OF wf con, of "(rb_head rb + length ?bs) mod ?N"] wf le len True
      by (simp add: memcpy_from_cread cread_mod rb_encode_def rb_wf_def)
    moreover have "0 < ?N" "rb_head rb \<le> ?N" using wf by (simp_all add: rb_wf_def)
    ultimately show ?thesis
      using True ne le len rb_holds_blk_dvd(3) [OF holds True]
      by (intro exI [of _ "rb_head rb mod ?N + rb_blk_size rb"])
        (simp add: ringbuf_pop_def ringbuf_pop_fix_def rb_encode_def
          rb_norm mod_add_left_eq)
  next
    case False
    then show ?thesis
      using ringbuf_pop_dyn_success [OF wf, of m "concat (map (rb_encode rb) ms)"] ok con ne
      by (simp add: ringbuf_pop_def rb_encode_def rb_msg_ok_def)
  qed
  then obtain h' where h': "h' \<le> ?N" "h' mod ?N = (rb_head rb + length ?bs) mod ?N"
    and dvd: "rb_type rb = RINGBUF_TYPE_FIX \<longrightarrow> rb_blk_size rb dvd h'"
    and pop: "ringbuf_pop rb True = Some (RHINO_SUCCESS, m, length m,
        rb\<lparr>rb_head := h', rb_freesize := rb_freesize rb + length ?bs\<rparr>)"
    by blast
  show ?thesis
    using holds dvd rb_remove(1,2) [OF wf con h'] unfolding pop
    by (simp add: rb_holds_def)
qed

lemma rb_holds_empty:
  assumes "rb_holds rb ms"
  shows "ringbuf_is_empty rb \<longleftrightarrow> ms = []"
proof (cases ms)
  case Nil
  have "rb_freesize rb = rb_end rb"
    using rb_holds_used [OF assms] assms Nil by (auto simp: rb_holds_def rb_wf_def)
  with Nil show ?thesis by (simp add: ringbuf_is_empty_def)
next
  case (Cons m ns)
  then have "0 < length (rb_encode rb m)"
    using assms by (auto simp: rb_holds_def rb_encode_def rb_msg_ok_def RING_BUF_LEN_def)
  with Cons show ?thesis
    using rb_holds_used [OF assms] by (auto simp: ringbuf_is_empty_def)
qed

lemma rb_holds_init:
  assumes "0 < length buf" "length buf < 2 ^ 32"
    and "type = RINGBUF_TYPE_FIX \<Longrightarrow> 0 < blk \<and> blk dvd length buf"
  shows "rb_holds (ringbuf_init buf type blk) []"
  using assms by (auto simp: rb_holds_def rb_wf_def ringbuf_init_def ringbuf_reset_def rb_content_def)

section \<open>The message ring as an interface\<close>

text \<open>Pushing a list of messages, and popping a number of them, until one fails.\<close>

fun push_all :: "('m \<Rightarrow> 'b \<Rightarrow> 'b option) \<Rightarrow> 'm list \<Rightarrow> 'b \<Rightarrow> 'b option" where
  "push_all push [] b = Some b"
| "push_all push (m # ms) b = (case push m b of None \<Rightarrow> None | Some b' \<Rightarrow> push_all push ms b')"

fun pop_n :: "('b \<Rightarrow> ('m \<times> 'b) option) \<Rightarrow> nat \<Rightarrow> 'b \<Rightarrow> ('m list \<times> 'b) option" where
  "pop_n pop 0 b = Some ([], b)"
| "pop_n pop (Suc n) b = (case pop b of None \<Rightarrow> None | Some (m, b') \<Rightarrow>
     (case pop_n pop n b' of None \<Rightarrow> None | Some (ms, b'') \<Rightarrow> Some (m # ms, b'')))"

text \<open>
  What a client of the buffer relies on: \<open>holds\<close> relates a buffer to its messages, a push of an
  acceptable message appends it or reports that it does not fit, and a pop gives the oldest
  message back.
\<close>

locale message_ring =
  fixes holds :: "'b \<Rightarrow> 'm list \<Rightarrow> bool"
    and acceptable :: "'b \<Rightarrow> 'm \<Rightarrow> bool"
    and fits :: "'b \<Rightarrow> 'm \<Rightarrow> bool"
    and push :: "'m \<Rightarrow> 'b \<Rightarrow> 'b option"
    and pop :: "'b \<Rightarrow> ('m \<times> 'b) option"
  assumes push_fits: "\<lbrakk>holds b ms; acceptable b m; fits b m\<rbrakk> \<Longrightarrow>
      \<exists>b'. push m b = Some b' \<and> holds b' (ms @ [m]) \<and> acceptable b' = acceptable b"
    and push_no_fit: "\<lbrakk>holds b ms; acceptable b m; \<not> fits b m\<rbrakk> \<Longrightarrow> push m b = None"
    and pop_Nil: "holds b [] \<Longrightarrow> pop b = None"
    and pop_Cons: "holds b (m # ms) \<Longrightarrow> \<exists>b'. pop b = Some (m, b') \<and> holds b' ms \<and> acceptable b' = acceptable b"
begin

lemma push_all_holds:
  "\<lbrakk>holds b ms; \<forall>m \<in> set ns. acceptable b m; push_all push ns b = Some b'\<rbrakk> \<Longrightarrow> holds b' (ms @ ns)"
proof (induction ns arbitrary: b ms)
  case (Cons n ns)
  from Cons.prems obtain b1 where b1: "push n b = Some b1" "push_all push ns b1 = Some b'"
    by (auto split: option.splits)
  have n: "acceptable b n" using Cons.prems by simp
  then have "fits b n" using push_no_fit [OF Cons.prems(1) n] b1 by auto
  with push_fits [OF Cons.prems(1) n] b1 have "holds b1 (ms @ [n])" "acceptable b1 = acceptable b"
    by auto
  with Cons.IH [of b1 "ms @ [n]"] Cons.prems b1 show ?case by simp
qed simp

lemma pop_n_holds: "holds b (ms @ ns) \<Longrightarrow> \<exists>b'. pop_n pop (length ms) b = Some (ms, b') \<and> holds b' ns"
proof (induction ms arbitrary: b)
  case (Cons m ms)
  then obtain b1 where "pop b = Some (m, b1)" "holds b1 (ms @ ns)"
    using pop_Cons [of b m "ms @ ns"] by auto
  with Cons.IH [of b1] show ?case by auto
qed simp

theorem fifo:
  assumes "holds b []" "\<forall>m \<in> set ms. acceptable b m" "push_all push ms b = Some b'"
  shows "\<exists>b''. pop_n pop (length ms) b' = Some (ms, b'') \<and> holds b'' []"
  using push_all_holds [OF assms] pop_n_holds [of b' ms "[]"] by simp

end

text \<open>The interface on \<^verbatim>\<open>ringbuf_push\<close> and \<^verbatim>\<open>ringbuf_pop\<close>: success is a value, an error is none.\<close>

definition rb_put :: "byte list \<Rightarrow> k_ringbuf \<Rightarrow> k_ringbuf option" where
  "rb_put m rb = (case ringbuf_push rb m (length m) of
     None \<Rightarrow> None | Some (st, rb') \<Rightarrow> if st = RHINO_SUCCESS then Some rb' else None)"

definition rb_take :: "k_ringbuf \<Rightarrow> (byte list \<times> k_ringbuf) option" where
  "rb_take rb = (case ringbuf_pop rb True of
     None \<Rightarrow> None | Some (st, m, n, rb') \<Rightarrow> if st = RHINO_SUCCESS then Some (m, rb') else None)"

definition rb_fits :: "k_ringbuf \<Rightarrow> byte list \<Rightarrow> bool" where
  "rb_fits rb m \<longleftrightarrow> length (rb_encode rb m) \<le> rb_freesize rb"

definition rb_acceptable :: "k_ringbuf \<Rightarrow> byte list \<Rightarrow> bool" where
  "rb_acceptable rb m \<longleftrightarrow> rb_msg_ok rb m \<and> length (rb_encode rb m) < 2 ^ 32"

lemma rb_acceptable_cong:
  "\<lbrakk>rb_type rb' = rb_type rb; rb_blk_size rb' = rb_blk_size rb\<rbrakk> \<Longrightarrow> rb_acceptable rb' = rb_acceptable rb"
  by (simp add: rb_acceptable_def rb_msg_ok_def rb_encode_def fun_eq_iff)

interpretation rbm: message_ring rb_holds rb_acceptable rb_fits rb_put rb_take
proof (unfold_locales, goal_cases)
  case (1 rb ms m)
  then obtain rb' where "ringbuf_push rb m (length m) = Some (RHINO_SUCCESS, rb')" "rb_holds rb' (ms @ [m])"
    "rb_type rb' = rb_type rb" "rb_blk_size rb' = rb_blk_size rb"
    using rb_holds_push [of rb ms m] unfolding rb_fits_def rb_acceptable_def by blast
  then show ?case
    by (intro exI [of _ rb']) (simp add: rb_put_def rb_acceptable_cong [of rb' rb])
next
  case (2 rb ms m)
  then have "ringbuf_push rb m (length m) = Some (RHINO_RINGBUF_FULL, rb)"
    by (intro ringbuf_push_full [of rb ms]) (simp_all add: rb_fits_def rb_acceptable_def)
  then show ?case
    by (simp add: rb_put_def)
next
  case (3 rb)
  then have "ringbuf_is_empty rb" using rb_holds_empty by blast
  then show ?case
    by (simp add: rb_take_def ringbuf_pop_def)
next
  case (4 rb m ms)
  then obtain rb' where "ringbuf_pop rb True = Some (RHINO_SUCCESS, m, length m, rb')" "rb_holds rb' ms"
    "rb_type rb' = rb_type rb" "rb_blk_size rb' = rb_blk_size rb"
    using rb_holds_pop by blast
  then show ?case
    by (intro exI [of _ rb']) (simp add: rb_take_def rb_acceptable_cong [of rb' rb])
qed

section \<open>Properties\<close>

text \<open>
  (C40) A ring buffer is a queue of messages.  On a buffer that holds \<open>ms\<close>, of either type and with
  head and tail anywhere, pushing a message of an admissible length either appends it, when the
  message with its length prefix fits in the free space, or reports \<^verbatim>\<open>RHINO_RINGBUF_FULL\<close> and
  leaves the buffer unchanged; no copy leaves the buffer, across the wrap-around included.
\<close>

theorem ringbuf_push_appends:
  assumes "rb_holds rb ms" "rb_msg_ok rb m" "length (rb_encode rb m) < 2 ^ 32"
  shows "if length (rb_encode rb m) \<le> rb_freesize rb
    then \<exists>rb'. ringbuf_push rb m (length m) = Some (RHINO_SUCCESS, rb') \<and> rb_holds rb' (ms @ [m])
      \<and> rb_freesize rb' = rb_freesize rb - length (rb_encode rb m)
    else ringbuf_push rb m (length m) = Some (RHINO_RINGBUF_FULL, rb)"
proof (cases "length (rb_encode rb m) \<le> rb_freesize rb")
  case True
  with rb_holds_push [OF assms(1,2) True] show ?thesis by auto
next
  case False
  with ringbuf_push_full [OF assms(1,2) _ assms(3)] show ?thesis by simp
qed

text \<open>Evaluation of \<open>rb_holds\<close> on concrete buffers.\<close>

lemmas rb_eval = rb_holds_def rb_wf_def rb_content_def cread_def rb_msg_ok_def rb_encode_def
  RINGBUF_TYPE_FIX_def RINGBUF_TYPE_DYN_def RING_BUF_LEN_def size_bytes_def upt_rec

definition demo_ring :: k_ringbuf where
  "demo_ring = \<lparr>rb_buf = [0, 8, 0, 0, 0, 0, 0, 0, 0, 1, 0, 0], rb_head = 9, rb_tail = 2, rb_freesize = 7,
     rb_type = RINGBUF_TYPE_DYN, rb_blk_size = 0\<rparr>"

lemma demo_ring_holds: "rb_holds demo_ring [[8]]"
  by (simp add: demo_ring_def rb_eval)

theorem ringbuf_push_appends_witness:
  "\<exists>rb'. ringbuf_push demo_ring [7, 9] (length [7, 9 :: byte]) = Some (RHINO_SUCCESS, rb') \<and> rb_holds rb' [[8], [7, 9]]
    \<and> rb_freesize rb' = 1"
proof -
  have "rb_msg_ok demo_ring [7, 9]" "length (rb_encode demo_ring [7, 9]) = 6" "rb_freesize demo_ring = 7"
    by (simp_all add: demo_ring_def rb_eval)
  with ringbuf_push_appends [OF demo_ring_holds, of "[7, 9]"] show ?thesis by simp
qed

text \<open>
  A pop takes the oldest message: on a buffer that holds \<open>m # ms\<close> it returns \<open>m\<close> and its length
  and leaves a buffer that holds \<open>ms\<close>, with the space of \<open>m\<close> free again; on an empty buffer it
  returns \<^verbatim>\<open>RHINO_RINGBUF_EMPTY\<close> and changes nothing.
\<close>

theorem ringbuf_pop_oldest:
  assumes "rb_holds rb ms"
  shows "case ms of
      [] \<Rightarrow> ringbuf_pop rb True = Some (RHINO_RINGBUF_EMPTY, [], 0, rb)
    | m # ns \<Rightarrow> \<exists>rb'. ringbuf_pop rb True = Some (RHINO_SUCCESS, m, length m, rb') \<and> rb_holds rb' ns
        \<and> rb_freesize rb' = rb_freesize rb + length (rb_encode rb m)"
proof (cases ms)
  case Nil
  with rb_holds_empty [OF assms] show ?thesis by (simp add: ringbuf_pop_def)
next
  case (Cons m ns)
  with rb_holds_pop [of rb m ns] assms show ?thesis by auto
qed

theorem ringbuf_pop_oldest_witness:
  "\<exists>rb'. ringbuf_pop demo_ring True = Some (RHINO_SUCCESS, [8], 1, rb') \<and> rb_holds rb' []
    \<and> rb_freesize rb' = 12"
proof -
  have "length (rb_encode demo_ring [8]) = 5" "rb_freesize demo_ring = 7"
    by (simp_all add: demo_ring_def rb_eval)
  with ringbuf_pop_oldest [OF demo_ring_holds] show ?thesis by simp
qed


lemma demo_push_all:
  "push_all rb_put [[1, 2], [3]] (ringbuf_init (replicate 12 0) RINGBUF_TYPE_DYN 0)
    = Some \<lparr>rb_buf = [2, 0, 0, 0, 1, 2, 1, 0, 0, 0, 3, 0], rb_head = 0, rb_tail = 11, rb_freesize = 1,
        rb_type = RINGBUF_TYPE_DYN, rb_blk_size = 0\<rparr>"
  by (simp add: rb_put_def ringbuf_push_def ringbuf_push_dyn_def ringbuf_init_def ringbuf_reset_def
    memcpy_to_def rb_eval)


end
