(* ===== verification/Rhino_Fifo.thy ===== *)
theory Rhino_Fifo
  imports Rhino_Ringbuf
begin

text \<open>
  The byte queue of \<^verbatim>\<open>kernel/rhino/common/k_fifo.c\<close>.

  The read and write positions run through all 32-bit numbers and are masked when the buffer is
  accessed, which is why its size must be a power of two.  The field \<open>f_data\<close> is the memory the
  pointer \<^verbatim>\<open>data\<close> points to; \<open>None\<close> stands for an access outside of it.
\<close>

record k_fifo =
  f_in :: u32
  f_out :: u32
  f_mask :: u32
  f_data :: "byte list"
  free_bytes :: u32
  f_size :: u32

definition fifo_min :: "u32 \<Rightarrow> u32 \<Rightarrow> u32" where
  "fifo_min x y = (if x > y then y else x)"

definition fifo_unused :: "k_fifo \<Rightarrow> u32" where
  "fifo_unused fifo = (f_mask fifo + 1) - (f_in fifo - f_out fifo)"

definition is_power_of_2 :: "u32 \<Rightarrow> bool" where
  "is_power_of_2 n \<longleftrightarrow> n \<noteq> 0 \<and> n AND (n - 1) = 0"

text \<open>The result is 0 when the queue is ready.\<close>

definition fifo_init :: "k_fifo \<Rightarrow> byte list \<Rightarrow> u32 \<Rightarrow> nat \<times> k_fifo" where
  "fifo_init fifo buffer sz =
     (if \<not> is_power_of_2 sz then (1, fifo)
      else let fifo = fifo\<lparr>f_in := 0, f_out := 0, f_data := buffer\<rparr>
           in if sz < 2 then (1, fifo\<lparr>f_mask := 0\<rparr>)
              else (0, fifo\<lparr>f_mask := sz - 1, free_bytes := sz, f_size := sz\<rparr>))"

definition fifo_copy_in :: "k_fifo \<Rightarrow> byte list \<Rightarrow> u32 \<Rightarrow> u32 \<Rightarrow> k_fifo option" where
  "fifo_copy_in fifo src len off =
     (let sz = f_mask fifo + 1;
          off = off AND f_mask fifo;
          l = fifo_min len (sz - off)
      in do {
        mem \<leftarrow> memcpy_to (f_data fifo) (unat off) src (unat l);
        mem \<leftarrow> memcpy_to mem 0 (drop (unat l) src) (unat (len - l));
        Some (fifo\<lparr>f_data := mem\<rparr>)
      })"

definition fifo_in :: "k_fifo \<Rightarrow> byte list \<Rightarrow> u32 \<Rightarrow> (u32 \<times> k_fifo) option" where
  "fifo_in fifo buf len =
     (let l = fifo_unused fifo;
          len = (if len > l then l else len)
      in do {
        fifo \<leftarrow> fifo_copy_in fifo buf len (f_in fifo);
        Some (len, fifo\<lparr>f_in := f_in fifo + len, free_bytes := free_bytes fifo - len\<rparr>)
      })"

definition kfifo_copy_out :: "k_fifo \<Rightarrow> u32 \<Rightarrow> u32 \<Rightarrow> byte list option" where
  "kfifo_copy_out fifo len off =
     (let sz = f_mask fifo + 1;
          off = off AND f_mask fifo;
          l = fifo_min len (sz - off)
      in do {
        d1 \<leftarrow> memcpy_from (f_data fifo) (unat off) (unat l);
        d2 \<leftarrow> memcpy_from (f_data fifo) 0 (unat (len - l));
        Some (d1 @ d2)
      })"

definition internal_fifo_out_peek :: "k_fifo \<Rightarrow> u32 \<Rightarrow> (u32 \<times> byte list) option" where
  "internal_fifo_out_peek fifo len =
     (let l = f_in fifo - f_out fifo;
          len = (if len > l then l else len)
      in map_option (Pair len) (kfifo_copy_out fifo len (f_out fifo)))"

definition fifo_out_peek :: "k_fifo \<Rightarrow> u32 \<Rightarrow> (u32 \<times> byte list) option" where
  "fifo_out_peek fifo len = internal_fifo_out_peek fifo len"

definition fifo_out :: "k_fifo \<Rightarrow> u32 \<Rightarrow> (u32 \<times> byte list \<times> k_fifo) option" where
  "fifo_out fifo len =
     do {
       (len, d) \<leftarrow> internal_fifo_out_peek fifo len;
       Some (len, d, fifo\<lparr>f_out := f_out fifo + len, free_bytes := free_bytes fifo + len\<rparr>)
     }"

definition fifo_out_all :: "k_fifo \<Rightarrow> (u32 \<times> byte list \<times> k_fifo) option" where
  "fifo_out_all fifo =
     (let len = f_size fifo - free_bytes fifo
      in if len = 0 then Some (0, [], fifo)
         else do {
           (len, d) \<leftarrow> internal_fifo_out_peek fifo len;
           Some (len, d, fifo\<lparr>f_out := f_out fifo + len, free_bytes := free_bytes fifo + len\<rparr>)
         })"

section \<open>The content of the queue\<close>

definition fifo_used :: "k_fifo \<Rightarrow> nat" where
  "fifo_used f = unat (f_in f - f_out f)"

definition fifo_content :: "k_fifo \<Rightarrow> byte list" where
  "fifo_content f = cread (f_data f) (unat (f_out f)) (fifo_used f)"

definition fifo_ok :: "k_fifo \<Rightarrow> bool" where
  "fifo_ok f \<longleftrightarrow> is_power_of_2 (f_size f) \<and> 2 \<le> f_size f \<and> f_mask f = f_size f - 1 \<and> length (f_data f) = unat (f_size f)
     \<and> fifo_used f \<le> unat (f_size f) \<and> free_bytes f = f_size f - (f_in f - f_out f)"

lemma and_pred_eq_0: "n \<noteq> 0 \<Longrightarrow> n AND (n - 1) = 0 \<Longrightarrow> \<exists>k. n = 2 ^ k" for n :: nat
proof (induction n rule: less_induct)
  case (less n)
  show ?case
  proof (cases "even n")
    case True
    then obtain m where m: "n = 2 * m" by blast
    with less.prems have "(n - 1) div 2 = m - 1" "odd (n - 1)" by auto
    moreover have "n AND (n - 1) = of_bool (odd n \<and> odd (n - 1)) + 2 * ((n div 2) AND ((n - 1) div 2))" by (rule and_rec)
    ultimately have "m AND (m - 1) = 0" using less.prems(2) m by simp
    then obtain k where "m = 2 ^ k" using less.IH [of m] less.prems(1) m by auto
    then have "n = 2 ^ Suc k" using m by simp
    then show ?thesis by blast
  next
    case False
    then obtain m where m: "n = 2 * m + 1" by (auto elim: oddE)
    moreover have "n AND (n - 1) = of_bool (odd n \<and> odd (n - 1)) + 2 * ((n div 2) AND ((n - 1) div 2))" by (rule and_rec)
    ultimately have "2 * m = 0" using less.prems(2) by simp
    then have "n = 2 ^ 0" using m by simp
    then show ?thesis by blast
  qed
qed

lemma is_power_of_2_iff: "is_power_of_2 n \<longleftrightarrow> (\<exists>k<32. unat n = 2 ^ k)"
proof
  assume n: "is_power_of_2 n"
  then have "n \<noteq> 0" "unat n AND unat (n - 1) = unat (0 :: u32)"
    by (auto simp: is_power_of_2_def unsigned_and_eq [symmetric])
  then obtain k where k: "unat n = 2 ^ k"
    using and_pred_eq_0 [of "unat n"] by (auto simp: unat_minus_one unat_eq_0)
  then have "(2 :: nat) ^ k < 2 ^ 32" using unsigned_less [of n, where 'a = nat] by simp
  then have "k < 32" using power_less_imp_less_exp [of 2 k 32] by simp
  with k show "\<exists>k<32. unat n = 2 ^ k" by blast
next
  assume "\<exists>k<32. unat n = 2 ^ k"
  then obtain k where k: "unat n = 2 ^ k" by blast
  then have n: "n \<noteq> 0" by (metis power_not_zero unsigned_0 zero_neq_numeral)
  have "unat (n AND (n - 1)) = 2 ^ k AND mask k"
    by (simp add: unsigned_and_eq unat_minus_one [OF n] k mask_eq_exp_minus_1)
  then have "unat (n AND (n - 1)) = 0" by (simp add: take_bit_eq_mask [symmetric])
  with n show "is_power_of_2 n" by (simp add: is_power_of_2_def unat_eq_0)
qed

text \<open>Masking a position takes it modulo the size.\<close>

lemma fifo_mask:
  assumes "fifo_ok f"
  shows "unat (off AND f_mask f) = unat off mod length (f_data f)" "unat (f_mask f + 1) = length (f_data f)"
    "length (f_data f) dvd 2 ^ 32" "0 < length (f_data f)"
proof -
  obtain k where k: "unat (f_size f) = 2 ^ k" "k < 32"
    using assms by (auto simp: fifo_ok_def is_power_of_2_iff)
  have m: "f_mask f = f_size f - 1" "length (f_data f) = 2 ^ k" "f_size f \<noteq> 0"
    using assms k by (auto simp: fifo_ok_def is_power_of_2_def)
  have "unat (off AND f_mask f) = unat off AND mask k"
    by (simp add: unsigned_and_eq m(1) unat_minus_one [OF m(3)] k mask_eq_exp_minus_1)
  then show "unat (off AND f_mask f) = unat off mod length (f_data f)"
    by (simp add: take_bit_eq_mask [symmetric] take_bit_eq_mod m)
  show "unat (f_mask f + 1) = length (f_data f)" using k m by simp
  show "length (f_data f) dvd 2 ^ 32" "0 < length (f_data f)"
    using le_imp_power_dvd [of k 32 "2 :: nat"] k m by simp_all
qed

lemma fifo_positions:
  assumes "fifo_ok f"
  shows "unat (f_in f) mod length (f_data f) = (unat (f_out f) + fifo_used f) mod length (f_data f)"
    "(unat (f_out f + l)) mod length (f_data f) = (unat (f_out f) + unat l) mod length (f_data f)"
proof -
  have *: "unat (a + b) mod length (f_data f) = (unat a + unat b) mod length (f_data f)" for a b :: u32
    using fifo_mask(3) [OF assms] by (simp add: unat_word_ariths mod_mod_cancel)
  show "(unat (f_out f + l)) mod length (f_data f) = (unat (f_out f) + unat l) mod length (f_data f)" by (rule *)
  show "unat (f_in f) mod length (f_data f) = (unat (f_out f) + fifo_used f) mod length (f_data f)"
    using * [of "f_out f" "f_in f - f_out f"] by (simp add: fifo_used_def)
qed

lemma fifo_min_split:
  fixes off len :: u32
  assumes "fifo_ok f" "unat len \<le> length (f_data f)"
  defines "o' \<equiv> unat off mod length (f_data f)" and "l \<equiv> fifo_min len (f_mask f + 1 - (off AND f_mask f))"
  shows "unat l = min (unat len) (length (f_data f) - o')" "unat (len - l) = unat len - unat l" "o' < length (f_data f)"
proof -
  note m = fifo_mask [OF assms(1)]
  show o: "o' < length (f_data f)" using m(4) by (simp add: o'_def)
  then have "off AND f_mask f \<le> f_mask f + 1" by (simp add: word_le_nat_alt m o'_def)
  then have "unat (f_mask f + 1 - (off AND f_mask f)) = length (f_data f) - o'" by (simp add: unat_sub m o'_def)
  then show l: "unat l = min (unat len) (length (f_data f) - o')"
    by (auto simp: l_def fifo_min_def word_less_nat_alt)
  then have "l \<le> len" by (simp add: word_le_nat_alt)
  then show "unat (len - l) = unat len - unat l" by (rule unat_sub)
qed

lemma fifo_copy_in_eq:
  assumes "fifo_ok f" "unat len \<le> length (f_data f)" "unat len \<le> length src"
  shows "fifo_copy_in f src len off = Some (f\<lparr>f_data := cwrite (f_data f) (unat off) (take (unat len) src)\<rparr>)"
proof -
  let ?N = "length (f_data f)" and ?o = "unat off mod length (f_data f)"
  define l where "l = fifo_min len (f_mask f + 1 - (off AND f_mask f))"
  note l = fifo_min_split [OF assms(1,2), of off, folded l_def]
  define m where "m = cwrite (f_data f) ?o (take (unat l) src)"
  have "memcpy_to (f_data f) ?o src (unat l) = Some m"
    unfolding m_def using l assms(3) by (intro memcpy_to_cwrite) auto
  moreover have "memcpy_to m 0 (drop (unat l) src) (unat len - unat l)
      = Some (cwrite m 0 (take (unat len - unat l) (drop (unat l) src)))"
    using l assms(2,3) by (intro memcpy_to_cwrite) (simp_all add: m_def diff_le_mono)
  moreover have "cwrite m 0 (take (unat len - unat l) (drop (unat l) src)) = cwrite (f_data f) (unat off) (take (unat len) src)"
  proof -
    have t: "take (unat l) src @ take (unat len - unat l) (drop (unat l) src) = take (unat len) src"
      using l(1) by (simp add: take_add [symmetric])
    have "cwrite m 0 (take (unat len - unat l) (drop (unat l) src))
        = cwrite m (?o + unat l) (take (unat len - unat l) (drop (unat l) src))"
    proof (cases "unat l = unat len")
      case False
      then have "?o + unat l = ?N" using l by auto
      then show ?thesis using cwrite_mod [of m ?N] by (simp add: m_def)
    qed simp
    also have "\<dots> = cwrite (f_data f) ?o (take (unat len) src)"
    proof -
      have n: "length (take (unat l) src) = unat l" "unat l \<le> unat len" using l(1) assms(3) by simp_all
      then have "length (take (unat l) src) + length (take (unat len - unat l) (drop (unat l) src)) \<le> ?N"
        using assms(2,3) by simp
      from cwrite_append [OF this, of ?o] show ?thesis by (simp only: n(1) t m_def)
    qed
    finally show ?thesis by (simp add: cwrite_mod)
  qed
  ultimately show ?thesis
    by (simp add: fifo_copy_in_def Let_def l_def [symmetric] fifo_mask [OF assms(1)] l(2))
qed

lemma kfifo_copy_out_eq:
  assumes "fifo_ok f" "unat len \<le> length (f_data f)"
  shows "kfifo_copy_out f len off = Some (cread (f_data f) (unat off) (unat len))"
proof -
  let ?N = "length (f_data f)" and ?o = "unat off mod length (f_data f)"
  define l where "l = fifo_min len (f_mask f + 1 - (off AND f_mask f))"
  note l = fifo_min_split [OF assms(1,2), of off, folded l_def]
  have "memcpy_from (f_data f) ?o (unat l) = Some (cread (f_data f) ?o (unat l))"
    using l by (intro memcpy_from_cread) auto
  moreover have "memcpy_from (f_data f) 0 (unat len - unat l) = Some (cread (f_data f) 0 (unat len - unat l))"
    using assms(2) by (intro memcpy_from_cread) auto
  moreover have "cread (f_data f) 0 (unat len - unat l) = cread (f_data f) (?o + unat l) (unat len - unat l)"
  proof (cases "unat l = unat len")
    case False
    then have "?o + unat l = ?N" using l by auto
    then show ?thesis by (intro cread_cong) simp
  qed simp
  moreover have "cread (f_data f) ?o (unat l) @ cread (f_data f) (?o + unat l) (unat len - unat l) = cread (f_data f) (unat off) (unat len)"
  proof -
    have "cread (f_data f) ?o (unat l + (unat len - unat l)) = cread (f_data f) ?o (unat l) @ cread (f_data f) (?o + unat l) (unat len - unat l)"
      by (rule cread_add)
    then show ?thesis using l(1) by (simp add: cread_mod)
  qed
  ultimately show ?thesis
    by (simp add: kfifo_copy_out_def Let_def l_def [symmetric] fifo_mask [OF assms(1)] l(2))
qed


section \<open>The operations append and remove\<close>

lemma fifo_unused_eq:
  assumes "fifo_ok f"
  shows "unat (fifo_unused f) = length (f_data f) - fifo_used f" "fifo_used f \<le> length (f_data f)"
proof -
  show u: "fifo_used f \<le> length (f_data f)" using assms by (simp add: fifo_ok_def)
  then have "f_in f - f_out f \<le> f_mask f + 1" by (simp add: word_le_nat_alt fifo_used_def fifo_mask [OF assms])
  then show "unat (fifo_unused f) = length (f_data f) - fifo_used f"
    by (simp add: fifo_unused_def unat_sub fifo_mask [OF assms] fifo_used_def)
qed

lemma fifo_init_ok:
  assumes "is_power_of_2 n" "2 \<le> n" "length buf = unat n"
  obtains f' where "fifo_init f buf n = (0, f')" "fifo_ok f'" "fifo_content f' = []" "f_size f' = n"
proof -
  have "\<not> n < 2" using assms(2) by simp
  then show ?thesis
    using that assms by (simp add: fifo_init_def fifo_ok_def fifo_content_def fifo_used_def)
qed

lemma fifo_in_ok:
  assumes "fifo_ok f" "unat len \<le> length buf"
  defines "n \<equiv> min (unat len) (unat (f_size f) - length (fifo_content f))"
  obtains f' where "fifo_in f buf len = Some (of_nat n, f')" "fifo_ok f'" "fifo_content f' = fifo_content f @ take n buf" "f_size f' = f_size f"
proof -
  let ?N = "length (f_data f)"
  note u = fifo_unused_eq [OF assms(1)]
  have N: "unat (f_size f) = ?N" using assms(1) by (simp add: fifo_ok_def)
  define l where "l = (if len > fifo_unused f then fifo_unused f else len)"
  have n: "unat l = n" using u by (auto simp: l_def n_def N fifo_content_def word_less_nat_alt min_def)
  have le: "unat l \<le> ?N - fifo_used f" "unat l \<le> length buf" "unat l \<le> ?N"
    using n assms(2) by (auto simp: n_def N fifo_content_def)
  define f' where "f' = f\<lparr>f_data := cwrite (f_data f) (unat (f_in f)) (take (unat l) buf), f_in := f_in f + l, free_bytes := free_bytes f - l\<rparr>"
  have "fifo_in f buf len = Some (l, f')"
    using fifo_copy_in_eq [OF assms(1) le(3,2)] by (simp add: fifo_in_def l_def [symmetric] Let_def f'_def)
  moreover have used: "fifo_used f' = fifo_used f + unat l"
  proof -
    have "unat (f_in f - f_out f) + unat l < 2 ^ 32"
      using le(1) u(2) unsigned_less [of "f_size f", where 'a = nat] N by (simp add: fifo_used_def)
    then have "unat (f_in f - f_out f + l) = unat (f_in f - f_out f) + unat l"
      by (simp add: unat_word_ariths)
    then show ?thesis by (simp add: fifo_used_def f'_def algebra_simps)
  qed
  moreover have "fifo_ok f'"
  proof -
    have "fifo_used f' \<le> unat (f_size f)" using used le(1) u(2) N by simp
    moreover have "f_size f' = f_size f" "f_mask f' = f_mask f" "length (f_data f') = length (f_data f)"
      "free_bytes f' = f_size f - (f_in f' - f_out f')"
      using assms(1) by (simp_all add: f'_def fifo_ok_def algebra_simps)
    ultimately show ?thesis using assms(1) by (simp add: fifo_ok_def)
  qed
  moreover have "fifo_content f' = fifo_content f @ take n buf"
    using cread_cwrite [of "unat (f_in f)" "f_data f" "unat (f_out f)" "fifo_used f" "take (unat l) buf"] fifo_positions(1) [OF assms(1)] le u(2)
    by (simp add: fifo_content_def used n [symmetric]) (simp add: f'_def)
  moreover have "l = of_nat n" "f_size f' = f_size f" by (simp_all add: n [symmetric] f'_def)
  ultimately show ?thesis using that [of f'] by blast
qed

lemma peek_ok:
  fixes len :: u32
  assumes "fifo_ok f"
  defines "n \<equiv> min (unat len) (length (fifo_content f))"
  shows "internal_fifo_out_peek f len = Some (of_nat n, take n (fifo_content f))"
proof -
  define l where "l = (if len > f_in f - f_out f then f_in f - f_out f else len)"
  have n: "unat l = n" by (auto simp: l_def n_def fifo_content_def fifo_used_def word_less_nat_alt min_def)
  then have "unat l \<le> fifo_used f" "unat l \<le> length (f_data f)"
    using fifo_unused_eq(2) [OF assms(1)] by (auto simp: n_def fifo_content_def)
  then have "cread (f_data f) (unat (f_out f)) (unat l) = take (unat l) (fifo_content f)"
    using cread_add [of "f_data f" "unat (f_out f)" "unat l" "fifo_used f - unat l"] by (simp add: fifo_content_def)
  then show ?thesis
    using kfifo_copy_out_eq [OF assms(1) \<open>unat l \<le> length (f_data f)\<close>] n
    by (simp add: internal_fifo_out_peek_def l_def [symmetric] Let_def) (metis of_nat_unat ucast_id)
qed

lemma fifo_out_ok:
  fixes len :: u32
  assumes "fifo_ok f"
  defines "n \<equiv> min (unat len) (length (fifo_content f))"
  obtains f' where "fifo_out f len = Some (of_nat n, take n (fifo_content f), f')" "fifo_ok f'"
    "fifo_content f' = drop n (fifo_content f)" "f_size f' = f_size f"
proof -
  define l :: u32 where "l = of_nat n"
  have n: "n \<le> fifo_used f" "n < 2 ^ 32"
    using unsigned_less [of len, where 'a = nat] by (simp_all add: n_def fifo_content_def)
  then have l: "unat l = n" by (simp add: l_def unat_of_nat)
  define f' where "f' = f\<lparr>f_out := f_out f + l, free_bytes := free_bytes f + l\<rparr>"
  have "fifo_out f len = Some (of_nat n, take n (fifo_content f), f')"
    by (simp add: fifo_out_def peek_ok [OF assms(1), of len, folded n_def] f'_def l_def)
  moreover have used: "fifo_used f' = fifo_used f - n"
  proof -
    have "l \<le> f_in f - f_out f" using n(1) l by (simp add: word_le_nat_alt fifo_used_def)
    then have "unat (f_in f - f_out f - l) = fifo_used f - n" by (simp add: unat_sub fifo_used_def l)
    then show ?thesis by (simp add: fifo_used_def f'_def algebra_simps)
  qed
  moreover have "fifo_ok f'"
  proof -
    have "fifo_used f' \<le> unat (f_size f)" using used assms(1) by (simp add: fifo_ok_def le_diff_conv trans_le_add1)
    moreover have "f_size f' = f_size f" "f_mask f' = f_mask f" "length (f_data f') = length (f_data f)"
      "free_bytes f' = f_size f - (f_in f' - f_out f')"
      using assms(1) by (simp_all add: f'_def fifo_ok_def algebra_simps)
    ultimately show ?thesis using assms(1) by (simp add: fifo_ok_def)
  qed
  moreover have "fifo_content f' = drop n (fifo_content f)"
  proof -
    have "fifo_content f = cread (f_data f) (unat (f_out f)) n @ cread (f_data f) (unat (f_out f) + n) (fifo_used f - n)"
      using cread_add [of "f_data f" "unat (f_out f)" n "fifo_used f - n"] n(1) by (simp add: fifo_content_def)
    moreover have "cread (f_data f) (unat (f_out f + l)) (fifo_used f - n) = cread (f_data f) (unat (f_out f) + n) (fifo_used f - n)"
      using fifo_positions(2) [OF assms(1), of l] l by (intro cread_cong) simp
    ultimately show ?thesis using used by (simp add: fifo_content_def) (simp add: f'_def)
  qed
  ultimately show ?thesis using that [of f'] by (simp add: f'_def)
qed

lemma fifo_out_all_ok:
  assumes "fifo_ok f"
  obtains f' where "fifo_out_all f = Some (of_nat (length (fifo_content f)), fifo_content f, f')" "fifo_ok f'"
    "fifo_content f' = []" "f_size f' = f_size f"
proof -
  have len: "f_size f - free_bytes f = f_in f - f_out f" using assms by (simp add: fifo_ok_def)
  have c: "length (fifo_content f) = unat (f_in f - f_out f)" by (simp add: fifo_content_def fifo_used_def)
  show ?thesis
  proof (cases "f_in f - f_out f = 0")
    case True
    then show ?thesis using that [of f] assms c len by (simp add: fifo_out_all_def)
  next
    case False
    then have "fifo_out_all f = fifo_out f (f_in f - f_out f)"
      by (simp add: fifo_out_all_def fifo_out_def len Let_def)
    with fifo_out_ok [OF assms, of "f_in f - f_out f"] c show ?thesis
      using that by (metis drop_all le_refl min.idem take_all)
  qed
qed

section \<open>Properties\<close>

text \<open>
  (C38) The byte queue is a stream: writing stores as many bytes as there is room for behind those it holds and says how many, reading delivers and
  removes the oldest bytes, as many as were asked for or are there, and nothing is read or written outside of the buffer, for all positions of the two
  32-bit counters, also when they wrap around.
\<close>

theorem fifo_stream:
  assumes "fifo_ok f" "unat len \<le> length buf"
  defines "c \<equiv> fifo_content f"
  defines "n \<equiv> min (unat len) (unat (f_size f) - length c)" and "m \<equiv> min (unat len) (length c)"
  shows "(\<exists>f'. fifo_in f buf len = Some (of_nat n, f') \<and> fifo_ok f' \<and> fifo_content f' = c @ take n buf)
    \<and> (\<exists>f'. fifo_out f len = Some (of_nat m, take m c, f') \<and> fifo_ok f' \<and> fifo_content f' = drop m c)
    \<and> (\<exists>f'. fifo_out_all f = Some (of_nat (length c), c, f') \<and> fifo_ok f' \<and> fifo_content f' = [])
    \<and> fifo_out_peek f len = Some (of_nat m, take m c)"
proof -
  have "\<exists>f'. fifo_in f buf len = Some (of_nat n, f') \<and> fifo_ok f' \<and> fifo_content f' = c @ take n buf"
    using fifo_in_ok [OF assms(1,2)] unfolding n_def c_def by blast
  moreover have "\<exists>f'. fifo_out f len = Some (of_nat m, take m c, f') \<and> fifo_ok f' \<and> fifo_content f' = drop m c"
    using fifo_out_ok [OF assms(1), of len] unfolding m_def c_def by blast
  moreover have "\<exists>f'. fifo_out_all f = Some (of_nat (length c), c, f') \<and> fifo_ok f' \<and> fifo_content f' = []"
    using fifo_out_all_ok [OF assms(1)] unfolding c_def by blast
  moreover have "fifo_out_peek f len = Some (of_nat m, take m c)"
    using peek_ok [OF assms(1), of len] by (simp add: fifo_out_peek_def m_def c_def)
  ultimately show ?thesis by blast
qed

text \<open>A queue of four bytes whose counters are about to wrap around.\<close>

definition demo_fifo :: k_fifo where
  "demo_fifo = \<lparr>f_in = 0, f_out = 0xFFFFFFFE, f_mask = 3, f_data = [0, 0, 7, 8], free_bytes = 2, f_size = 4\<rparr>"

theorem fifo_stream_witness:
  "\<exists>f'. fifo_in demo_fifo [1, 2, 3] 3 = Some (2, f') \<and> fifo_content f' = [7, 8, 1, 2]"
proof -
  have "is_power_of_2 4" by (simp add: is_power_of_2_def)
  then have "fifo_ok demo_fifo" by (simp add: fifo_ok_def demo_fifo_def fifo_used_def)
  moreover have "fifo_content demo_fifo = [7, 8]" by (simp add: fifo_content_def fifo_used_def demo_fifo_def cread_def upt_rec)
  ultimately show ?thesis using fifo_stream [of demo_fifo 3 "[1, 2, 3]"] by (auto simp: demo_fifo_def)
qed

end
