(* ===== verification/Rhino_MmBlk.thy ===== *)
theory Rhino_MmBlk
  imports Rhino_Prelude "HOL-Library.Monad_Syntax"
begin

text \<open>
  Pools of memory blocks: \<^verbatim>\<open>kernel/rhino/core/k_mm_blk.c\<close>.

  The free blocks of a pool form a list; the first word of a free block is the address of the
  next one.  The state has the pools, the words of the memory and the list of pools that the
  statistics keep.  The loop of the initialisation ends only for some sizes, so it is a partial
  function; \<open>None\<close> is a call that does not return.
\<close>

record mblk_pool_t =
  pool_name :: ptr
  pool_end :: ptr
  pool_start :: ptr
  blk_size :: size_t
  blk_avail :: size_t
  blk_whole :: size_t
  avail_list :: ptr

record mblk_sys =
  pools :: "ptr \<Rightarrow> mblk_pool_t"
  mem_word :: "ptr \<Rightarrow> ptr"
  mblkpool_head :: "ptr list"

partial_function (option) mblk_link ::
    "size_t \<Rightarrow> ptr \<Rightarrow> u32 \<Rightarrow> ptr \<Rightarrow> ptr \<Rightarrow> (ptr \<Rightarrow> ptr) \<Rightarrow> (u32 \<times> ptr \<times> ptr \<times> (ptr \<Rightarrow> ptr)) option" where
  "mblk_link bsize p_end blks blk_cur blk_next mem =
     (if blk_next < p_end
      then mblk_link bsize p_end (blks + 1) blk_next (blk_next + bsize) (mem(blk_cur := blk_next))
      else Some (blks, blk_cur, blk_next, mem))"

definition krhino_mblk_pool_init :: "ptr \<Rightarrow> ptr \<Rightarrow> ptr \<Rightarrow> size_t \<Rightarrow> size_t \<Rightarrow> mblk_sys \<Rightarrow> (kstat \<times> mblk_sys) option" where
  "krhino_mblk_pool_init pool name start bsize psize s =
     (if pool = NULL then Some (RHINO_NULL_PTR, s)
      else if name = NULL then Some (RHINO_NULL_PTR, s)
      else if start = NULL then Some (RHINO_NULL_PTR, s)
      else if psize < push_bit 1 bsize then Some (RHINO_BLK_POOL_SIZE_ERR, s)
      else let addr_align_mask = 3
      in if start AND addr_align_mask > 0 then Some (RHINO_INV_ALIGN, s)
         else if bsize AND addr_align_mask > 0 then Some (RHINO_INV_ALIGN, s)
         else if psize AND addr_align_mask > 0 then Some (RHINO_INV_ALIGN, s)
         else let p_end = start + psize
         in do {
           (blks, blk_cur, blk_next, mem) \<leftarrow> mblk_link bsize p_end 0 start (start + bsize) (mem_word s);
           let blks = (if blk_next = p_end then blks + 1 else blks);
           let mem = mem(blk_cur := NULL);
           Some (RHINO_SUCCESS, s\<lparr>mem_word := mem,
             pools := (pools s)(pool := \<lparr>pool_name = name, pool_end = p_end, pool_start = start, blk_size = bsize,
               blk_avail = blks, blk_whole = blks, avail_list = start\<rparr>),
             mblkpool_head := mblkpool_head s @ [pool]\<rparr>)
         })"

text \<open>\<open>blk\<close> is the address of a pointer; the second component of the result is the value stored there.\<close>

definition krhino_mblk_alloc :: "ptr \<Rightarrow> ptr \<Rightarrow> mblk_sys \<Rightarrow> kstat \<times> ptr option \<times> mblk_sys" where
  "krhino_mblk_alloc pool blk s =
     (if pool = NULL then (RHINO_NULL_PTR, None, s)
      else if blk = NULL then (RHINO_NULL_PTR, None, s)
      else let p = pools s pool
      in if blk_avail p > 0 then
           let avail_blk = avail_list p
           in (RHINO_SUCCESS, Some avail_blk,
               s\<lparr>pools := (pools s)(pool := p\<lparr>avail_list := mem_word s avail_blk, blk_avail := blk_avail p - 1\<rparr>)\<rparr>)
         else (RHINO_NO_MEM, Some NULL, s))"

definition krhino_mblk_free :: "ptr \<Rightarrow> ptr \<Rightarrow> mblk_sys \<Rightarrow> kstat \<times> mblk_sys" where
  "krhino_mblk_free pool blk s =
     (if pool = NULL then (RHINO_NULL_PTR, s)
      else if blk = NULL then (RHINO_NULL_PTR, s)
      else let p = pools s pool
      in (RHINO_SUCCESS, s\<lparr>mem_word := (mem_word s)(blk := avail_list p),
           pools := (pools s)(pool := p\<lparr>avail_list := blk, blk_avail := blk_avail p + 1\<rparr>)\<rparr>))"

section \<open>The list of free blocks\<close>

fun linked :: "(ptr \<Rightarrow> ptr) \<Rightarrow> ptr \<Rightarrow> ptr list \<Rightarrow> bool" where
  "linked mem a [] \<longleftrightarrow> True"
| "linked mem a (b # bs) \<longleftrightarrow> a = b \<and> linked mem (mem b) bs"

definition pool_blocks :: "mblk_pool_t \<Rightarrow> ptr list" where
  "pool_blocks p = map (\<lambda>i. pool_start p + of_nat i * blk_size p) [0..<unat (blk_whole p)]"

text \<open>\<open>fs\<close> are the free blocks.  What the last of them links to is never used.\<close>

definition pool_ok :: "mblk_sys \<Rightarrow> ptr \<Rightarrow> ptr list \<Rightarrow> bool" where
  "pool_ok s pool fs \<longleftrightarrow> (let p = pools s pool
     in linked (mem_word s) (avail_list p) fs \<and> unat (blk_avail p) = length fs \<and> distinct fs \<and> set fs \<subseteq> set (pool_blocks p))"

lemma linked_frame: "linked mem a fs \<Longrightarrow> (\<And>x. x \<in> set fs \<Longrightarrow> mem' x = mem x) \<Longrightarrow> linked mem' a fs"
  by (induction fs arbitrary: a) auto

lemma krhino_mblk_alloc_ok:
  assumes "pool_ok s pool fs" "pool \<noteq> NULL" "blk \<noteq> NULL"
  shows "fs = [] \<Longrightarrow> krhino_mblk_alloc pool blk s = (RHINO_NO_MEM, Some NULL, s)"
    "fs = b # bs \<Longrightarrow> \<exists>s'. krhino_mblk_alloc pool blk s = (RHINO_SUCCESS, Some b, s') \<and> pool_ok s' pool bs
       \<and> pool_blocks (pools s' pool) = pool_blocks (pools s pool) \<and> mem_word s' = mem_word s"
proof -
  let ?p = "pools s pool"
  have p: "linked (mem_word s) (avail_list ?p) fs" "unat (blk_avail ?p) = length fs" "distinct fs" "set fs \<subseteq> set (pool_blocks ?p)"
    using assms(1) by (simp_all add: pool_ok_def Let_def)
  show "krhino_mblk_alloc pool blk s = (RHINO_NO_MEM, Some NULL, s)" if "fs = []"
    using assms(2,3) p(2) that by (simp add: krhino_mblk_alloc_def Let_def word_gt_0 unat_eq_0)
  show "\<exists>s'. krhino_mblk_alloc pool blk s = (RHINO_SUCCESS, Some b, s') \<and> pool_ok s' pool bs
       \<and> pool_blocks (pools s' pool) = pool_blocks (pools s pool) \<and> mem_word s' = mem_word s" if "fs = b # bs"
  proof -
    have "blk_avail ?p \<noteq> 0" using p(2) that by auto
    moreover from this have "unat (blk_avail ?p - 1) = length bs" using p(2) that by (simp add: unat_minus_one)
    ultimately show ?thesis
      using assms(2,3) p that by (simp add: krhino_mblk_alloc_def Let_def word_gt_0 pool_ok_def pool_blocks_def)
  qed
qed

lemma krhino_mblk_free_ok:
  assumes "pool_ok s pool fs" "pool \<noteq> NULL" "b \<noteq> NULL" "b \<in> set (pool_blocks (pools s pool))" "b \<notin> set fs"
  shows "\<exists>s'. krhino_mblk_free pool b s = (RHINO_SUCCESS, s') \<and> pool_ok s' pool (b # fs)
    \<and> pool_blocks (pools s' pool) = pool_blocks (pools s pool)"
proof -
  let ?p = "pools s pool"
  have p: "linked (mem_word s) (avail_list ?p) fs" "unat (blk_avail ?p) = length fs" "distinct fs" "set fs \<subseteq> set (pool_blocks ?p)"
    using assms(1) by (simp_all add: pool_ok_def Let_def)
  have "linked ((mem_word s)(b := avail_list ?p)) (avail_list ?p) fs"
    using p(1) by (rule linked_frame) (use assms(5) in auto)
  moreover have "unat (blk_avail ?p + 1) = length fs + 1"
  proof -
    have "set fs \<subset> set (pool_blocks ?p)" using p(4) assms(4,5) by blast
    then have "card (set fs) < card (set (pool_blocks ?p))" by (intro psubset_card_mono) auto
    also have "\<dots> \<le> unat (blk_whole ?p)" using card_length [of "pool_blocks ?p"] by (simp add: pool_blocks_def)
    finally have "length fs < unat (blk_whole ?p)" using p(3) by (simp add: distinct_card)
    then have "length fs + 1 < 2 ^ 32" using unsigned_less [of "blk_whole ?p", where 'a = nat] by simp
    then show ?thesis using p(2) by (simp add: unat_word_ariths)
  qed
  ultimately show ?thesis
    using assms(2-5) p by (simp add: krhino_mblk_free_def Let_def pool_ok_def pool_blocks_def)
qed

section \<open>The initialisation\<close>

text \<open>With blocks of size 0 the loop does not end.\<close>

lemma mblk_link_endless: "blk_next < p_end \<Longrightarrow> mblk_link 0 p_end blks blk_cur blk_next mem = None"
proof -
  have "mblk_link b e k c n m = Some r \<Longrightarrow> b = 0 \<longrightarrow> \<not> n < e" for b e k c n m r
    by (erule mblk_link.raw_induct [where P = "\<lambda>b e k c n m r. b = 0 \<longrightarrow> \<not> n < e", rotated]) (auto split: if_splits)
  then show "blk_next < p_end \<Longrightarrow> ?thesis" by (cases "mblk_link 0 p_end blks blk_cur blk_next mem") auto
qed


text \<open>
  Otherwise it links the blocks one after the other, up to the one that reaches the end of the
  pool, as long as no address exceeds 32 bits.
\<close>

definition steps :: "ptr \<Rightarrow> size_t \<Rightarrow> nat \<Rightarrow> ptr list" where
  "steps a b n = map (\<lambda>i. a + of_nat i * b) [0..<n]"

lemma steps_Suc: "steps a b (Suc n) = a # steps (a + b) b n"
  by (rule nth_equalityI) (auto simp: steps_def nth_Cons' algebra_simps of_nat_diff simp del: upt_Suc)

lemma unat_step:
  fixes a b :: u32
  assumes "unat a + n * unat b < 2 ^ 32" "i \<le> n"
  shows "unat (a + of_nat i * b) = unat a + i * unat b"
proof -
  have "i * unat b \<le> n * unat b" using assms(2) by simp
  then have "unat a + i * unat b < 2 ^ 32" using assms(1) by linarith
  then show ?thesis by (simp add: unat_word_ariths unat_of_nat mod_simps)
qed

lemma mblk_link_run:
  assumes "0 < unat bsize" "unat blk_cur < unat blk_next" "unat blk_next + m * unat bsize < 2 ^ 32"
    and "unat p_end \<le> unat blk_next + m * unat bsize" "\<And>j. j < m \<Longrightarrow> unat blk_next + j * unat bsize < unat p_end"
  shows "\<exists>mem'. mblk_link bsize p_end k blk_cur blk_next mem
      = Some (k + of_nat m, last (blk_cur # steps blk_next bsize m), blk_next + of_nat m * bsize, mem')
    \<and> linked mem' blk_cur (blk_cur # steps blk_next bsize m) \<and> (\<forall>x. unat x < unat blk_cur \<longrightarrow> mem' x = mem x)"
  using assms(2-)
proof (induction m arbitrary: k blk_cur blk_next mem)
  case 0
  then have "\<not> blk_next < p_end" by (simp add: word_less_nat_alt)
  then show ?case by (subst mblk_link.simps) (simp add: steps_def)
next
  case (Suc m)
  have lt: "blk_next < p_end" using Suc.prems(4) [of 0] by (simp add: word_less_nat_alt)
  have u: "unat (blk_next + bsize) = unat blk_next + unat bsize"
    using unat_step [OF Suc.prems(2), of 1] by simp
  have 1: "unat blk_next < unat (blk_next + bsize)" "unat (blk_next + bsize) + m * unat bsize < 2 ^ 32"
    "unat p_end \<le> unat (blk_next + bsize) + m * unat bsize"
    using assms(1) Suc.prems(2,3) by (simp_all add: u)
  have 2: "unat (blk_next + bsize) + j * unat bsize < unat p_end" if "j < m" for j
    using Suc.prems(4) [of "Suc j"] that by (simp add: u)
  obtain mem' where r: "mblk_link bsize p_end (k + 1) blk_next (blk_next + bsize) (mem(blk_cur := blk_next))
      = Some (k + 1 + of_nat m, last (blk_next # steps (blk_next + bsize) bsize m), blk_next + bsize + of_nat m * bsize, mem')"
    and l: "linked mem' blk_next (blk_next # steps (blk_next + bsize) bsize m)"
    and f: "\<forall>x. unat x < unat blk_next \<longrightarrow> mem' x = (mem(blk_cur := blk_next)) x"
    using Suc.IH [OF 1 2] by blast
  have "mblk_link bsize p_end k blk_cur blk_next mem
      = mblk_link bsize p_end (k + 1) blk_next (blk_next + bsize) (mem(blk_cur := blk_next))"
    using lt by (subst mblk_link.simps) simp
  with r l f Suc.prems(1) show ?case
    by (auto simp: steps_Suc algebra_simps)
qed

lemma linked_prefix: "linked mem a (xs @ ys) \<Longrightarrow> linked mem a xs"
  by (induction xs arbitrary: a) auto

lemma linked_last: "linked mem a xs \<Longrightarrow> c \<notin> set (butlast xs) \<Longrightarrow> linked (mem(c := v)) a xs"
  by (induction xs arbitrary: a) (auto split: if_splits)

lemma distinct_last_butlast: "distinct xs \<Longrightarrow> xs \<noteq> [] \<Longrightarrow> last xs \<notin> set (butlast xs)"
  by (metis append_butlast_last_id distinct_append disjoint_iff list.set_intros(1))

lemma steps_append: "m \<le> n \<Longrightarrow> \<exists>ys. steps a b n = steps a b m @ ys"
  using upt_add_eq_append [of 0 m "n - m"] by (auto simp: steps_def)

lemma distinct_steps: "0 < unat b \<Longrightarrow> unat a + n * unat b < 2 ^ 32 \<Longrightarrow> distinct (steps a b n)"
proof -
  assume b: "0 < unat b" and n: "unat a + n * unat b < 2 ^ 32"
  have "inj_on (\<lambda>i. a + of_nat i * b) {0..<n}"
  proof (rule inj_onI)
    fix i j assume "i \<in> {0..<n}" "j \<in> {0..<n}" "a + of_nat i * b = a + of_nat j * b"
    then have "unat a + i * unat b = unat a + j * unat b"
      using unat_step [OF n, of i] unat_step [OF n, of j] by (metis atLeastLessThan_iff less_imp_le)
    with b show "i = j" by simp
  qed
  then show "distinct (steps a b n)" by (simp add: steps_def distinct_map)
qed

lemma krhino_mblk_pool_init_ok:
  assumes "pool \<noteq> NULL" "name \<noteq> NULL" "start \<noteq> NULL" "start AND 3 = 0" "bsize AND 3 = 0" "psize AND 3 = 0"
    and "0 < bsize" "2 * unat bsize \<le> unat psize" "unat start + unat psize + unat bsize < 2 ^ 32"
  obtains s' where "krhino_mblk_pool_init pool name start bsize psize s = Some (RHINO_SUCCESS, s')"
    "pool_ok s' pool (pool_blocks (pools s' pool))" "pool_start (pools s' pool) = start" "blk_size (pools s' pool) = bsize"
    "unat (blk_whole (pools s' pool)) = unat psize div unat bsize"
proof -
  let ?B = "unat bsize" and ?P = "unat psize"
  define m where "m = (?P - 1) div ?B"
  have B: "0 < ?B" using assms(7) by (simp add: word_less_nat_alt)
  have u: "unat (start + bsize) = unat start + ?B" "unat (start + psize) = unat start + ?P"
    using assms(8,9) by (simp_all add: unat_word_ariths)
  have mB: "m * ?B < ?P" "?P \<le> m * ?B + ?B"
  proof -
    have "m * ?B \<le> ?P - 1" unfolding m_def by (rule div_times_less_eq_dividend)
    then show "m * ?B < ?P" using B assms(8) by linarith
    have "?P - 1 < m * ?B + ?B" using dividend_less_div_times [OF B, of "?P - 1"] by (simp add: m_def add.commute)
    then show "?P \<le> m * ?B + ?B" by linarith
  qed
  have n1: "unat start < unat (start + bsize)" "unat (start + bsize) + m * ?B < 2 ^ 32" "unat (start + psize) \<le> unat (start + bsize) + m * ?B"
    using B mB assms(9) by (simp_all add: u)
  have n2: "unat (start + bsize) + j * ?B < unat (start + psize)" if "j < m" for j
  proof -
    have "Suc j * ?B \<le> m * ?B" using that by (intro mult_le_mono1) simp
    then show ?thesis using mB(1) by (simp add: u)
  qed
  obtain mem' where r: "mblk_link bsize (start + psize) 0 start (start + bsize) (mem_word s)
      = Some (of_nat m, last (start # steps (start + bsize) bsize m), start + bsize + of_nat m * bsize, mem')"
    and l: "linked mem' start (steps start bsize (Suc m))"
    using mblk_link_run [OF B n1 n2, where k = 0 and mem = "mem_word s"] by (auto simp: steps_Suc)
  define cur where "cur = last (start # steps (start + bsize) bsize m)"
  define w where "w = (if start + bsize + of_nat m * bsize = start + psize then of_nat m + 1 else of_nat m :: u32)"
  have nxt: "start + bsize + of_nat m * bsize = start + psize \<longleftrightarrow> m * ?B + ?B = ?P"
    using unat_step [OF n1(2), of m] by (auto simp: word_unat_eq_iff u)
  have m32: "m + 1 < 2 ^ 32"
  proof -
    have "m \<le> m * ?B" using B by simp
    then show ?thesis using mB(1) assms(8,9) B by linarith
  qed
  then have uw: "unat w = (if m * ?B + ?B = ?P then m + 1 else m)"
    by (simp add: w_def nxt unat_word_ariths unat_of_nat)
  have "?P div ?B = m + 1" if "m * ?B + ?B = ?P"
  proof -
    have "?P = Suc m * ?B" using that by simp
    then show ?thesis using B by simp
  qed
  moreover have "?P div ?B = m" if "m * ?B + ?B \<noteq> ?P"
    using that mB by (intro div_nat_eqI) (simp_all add: mult.commute)
  ultimately have w: "unat w = ?P div ?B" by (simp add: uw)
  have d: "distinct (steps start bsize (Suc m))"
    using B mB assms(9) by (intro distinct_steps) simp_all
  define s' where "s' = s\<lparr>mem_word := mem'(cur := NULL), pools := (pools s)(pool := \<lparr>pool_name = name, pool_end = start + psize,
    pool_start = start, blk_size = bsize, blk_avail = w, blk_whole = w, avail_list = start\<rparr>), mblkpool_head := mblkpool_head s @ [pool]\<rparr>"
  have "\<not> psize < push_bit 1 bsize"
    using assms(8,9) by (simp add: push_bit_eq_mult word_less_nat_alt unat_word_ariths not_less)
  then have "krhino_mblk_pool_init pool name start bsize psize s = Some (RHINO_SUCCESS, s')"
    using assms(1-6) r [folded cur_def] by (simp add: krhino_mblk_pool_init_def Let_def s'_def w_def)
  moreover have "pool_ok s' pool (pool_blocks (pools s' pool))"
  proof -
    have "cur = last (steps start bsize (Suc m))" by (simp add: steps_Suc cur_def)
    then have "linked (mem'(cur := NULL)) start (steps start bsize (Suc m))"
      using linked_last [OF l] distinct_last_butlast [OF d] by (metis steps_Suc list.distinct(1))
    moreover obtain ys where ys: "steps start bsize (Suc m) = steps start bsize (unat w) @ ys"
      using steps_append [of "unat w" "Suc m"] uw by (auto split: if_splits)
    ultimately have "linked (mem'(cur := NULL)) start (steps start bsize (unat w))"
      using linked_prefix by metis
    moreover have "distinct (steps start bsize (unat w))" using d ys by simp
    moreover have "pool_blocks (pools s' pool) = steps start bsize (unat w)" by (simp add: pool_blocks_def steps_def s'_def)
    ultimately show ?thesis by (simp add: pool_ok_def Let_def) (simp add: s'_def steps_def)
  qed
  ultimately show ?thesis using that [of s'] w by (simp add: s'_def)
qed

section \<open>Properties\<close>

text \<open>Allocation of a number of blocks one after the other; \<open>blk\<close> is where the caller wants the address.\<close>

fun mblk_alloc_n :: "ptr \<Rightarrow> ptr \<Rightarrow> nat \<Rightarrow> mblk_sys \<Rightarrow> ptr list \<times> mblk_sys" where
  "mblk_alloc_n pool blk 0 s = ([], s)"
| "mblk_alloc_n pool blk (Suc n) s =
     (case krhino_mblk_alloc pool blk s of
        (st, Some b, s') \<Rightarrow> if st = RHINO_SUCCESS then let (bs, s'') = mblk_alloc_n pool blk n s' in (b # bs, s'') else ([], s')
      | (st, None, s') \<Rightarrow> ([], s'))"

lemma mblk_alloc_all:
  assumes "pool_ok s pool fs" "pool \<noteq> NULL" "blk \<noteq> NULL"
  shows "\<exists>s'. mblk_alloc_n pool blk (length fs) s = (fs, s') \<and> pool_ok s' pool []"
  using assms(1)
proof (induction fs arbitrary: s)
  case (Cons b fs)
  then obtain s1 where "krhino_mblk_alloc pool blk s = (RHINO_SUCCESS, Some b, s1)" "pool_ok s1 pool fs"
    using krhino_mblk_alloc_ok(2) [OF Cons.prems assms(2,3)] by blast
  with Cons.IH [of s1] show ?case by auto
qed (simp add: pool_ok_def)

text \<open>
  (C39) A pool gives out all of its blocks and no byte twice: the initialisation returns, then as many allocations succeed as whole
  blocks fit into the pool, the blocks lie in the pool and do not overlap, and the next allocation reports \<^verbatim>\<open>RHINO_NO_MEM\<close>.
\<close>

theorem mblk_pool_gives_all:
  assumes "pool \<noteq> NULL" "name \<noteq> NULL" "start \<noteq> NULL" "start AND 3 = 0" "bsize AND 3 = 0" "psize AND 3 = 0"
    and "0 < bsize" "2 * unat bsize \<le> unat psize" "unat start + unat psize + unat bsize < 2 ^ 32" "blk \<noteq> NULL"
  defines "n \<equiv> unat psize div unat bsize"
  shows "\<exists>s1 bs s2. krhino_mblk_pool_init pool name start bsize psize s = Some (RHINO_SUCCESS, s1) \<and> mblk_alloc_n pool blk n s1 = (bs, s2)
    \<and> map unat bs = map (\<lambda>i. unat start + i * unat bsize) [0..<n]
    \<and> (\<forall>b \<in> set bs. unat start \<le> unat b \<and> unat b + unat bsize \<le> unat start + unat psize)
    \<and> krhino_mblk_alloc pool blk s2 = (RHINO_NO_MEM, Some NULL, s2)"
proof -
  obtain s1 where s1: "krhino_mblk_pool_init pool name start bsize psize s = Some (RHINO_SUCCESS, s1)"
    "pool_ok s1 pool (pool_blocks (pools s1 pool))" "pool_start (pools s1 pool) = start" "blk_size (pools s1 pool) = bsize"
    "unat (blk_whole (pools s1 pool)) = n"
    using krhino_mblk_pool_init_ok [OF assms(1-9)] unfolding n_def by blast
  define bs where "bs = pool_blocks (pools s1 pool)"
  have bs: "bs = map (\<lambda>i. start + of_nat i * bsize) [0..<n]" by (simp add: bs_def pool_blocks_def s1)
  obtain s2 where s2: "mblk_alloc_n pool blk n s1 = (bs, s2)" "pool_ok s2 pool []"
    using mblk_alloc_all [OF s1(2) assms(1,10)] by (auto simp: bs_def [symmetric] bs)
  have nB: "n * unat bsize \<le> unat psize" by (simp add: n_def)
  have u: "unat (start + of_nat i * bsize) = unat start + i * unat bsize" if "i \<le> n" for i
    using nB assms(9) that by (intro unat_step [of start n]) simp_all
  have "unat start + i * unat bsize + unat bsize \<le> unat start + unat psize" if "i < n" for i
  proof -
    have "Suc i * unat bsize \<le> n * unat bsize" using that by (intro mult_le_mono1) simp
    then show ?thesis using nB by simp
  qed
  then have "\<forall>b \<in> set bs. unat start \<le> unat b \<and> unat b + unat bsize \<le> unat start + unat psize" by (auto simp: bs u)
  moreover have "map unat bs = map (\<lambda>i. unat start + i * unat bsize) [0..<n]" by (simp add: bs u)
  moreover have "krhino_mblk_alloc pool blk s2 = (RHINO_NO_MEM, Some NULL, s2)" using krhino_mblk_alloc_ok(1) [OF s2(2) assms(1,10)] by simp
  ultimately show ?thesis using s1(1) s2(1) by blast
qed

definition demo_mblk :: mblk_sys where
  "demo_mblk = \<lparr>pools = (\<lambda>_. \<lparr>pool_name = 0, pool_end = 0, pool_start = 0, blk_size = 0, blk_avail = 0, blk_whole = 0, avail_list = 0\<rparr>),
     mem_word = (\<lambda>_. 0), mblkpool_head = []\<rparr>"

theorem mblk_pool_gives_all_witness:
  "\<exists>s1 bs s2. krhino_mblk_pool_init 0x1000 0x1100 0x2000 16 100 demo_mblk = Some (RHINO_SUCCESS, s1) \<and> mblk_alloc_n 0x1000 0x1200 6 s1 = (bs, s2)
    \<and> length bs = 6 \<and> krhino_mblk_alloc 0x1000 0x1200 s2 = (RHINO_NO_MEM, Some NULL, s2)"
proof -
  have n: "unat (100 :: u32) div unat (16 :: u32) = 6" by simp
  obtain s1 bs s2 where r: "krhino_mblk_pool_init 0x1000 0x1100 0x2000 16 100 demo_mblk = Some (RHINO_SUCCESS, s1)" "mblk_alloc_n 0x1000 0x1200 6 s1 = (bs, s2)"
    "map unat bs = map (\<lambda>i. unat (0x2000 :: u32) + i * unat (16 :: u32)) [0..<6]" "krhino_mblk_alloc 0x1000 0x1200 s2 = (RHINO_NO_MEM, Some NULL, s2)"
    using mblk_pool_gives_all [of "0x1000" "0x1100" "0x2000" 16 100 "0x1200" demo_mblk, unfolded n] by auto
  have "length bs = 6" using arg_cong [OF r(3), of length] by simp
  with r show ?thesis by blast
qed

text \<open>A block size of zero passes all checks of the initialisation, which then does not return.\<close>

theorem mblk_pool_init_endless:
  assumes "pool \<noteq> NULL" "name \<noteq> NULL" "start \<noteq> NULL" "start AND 3 = 0" "psize AND 3 = 0" "start < start + psize"
  shows "krhino_mblk_pool_init pool name start 0 psize s = None"
  using assms mblk_link_endless [of start "start + psize"] by (simp add: krhino_mblk_pool_init_def Let_def)

end
