(* ===== verification/Rhino_Bitmap.thy ===== *)
theory Rhino_Bitmap
  imports Rhino_Prelude
begin

text \<open>
  The priority bitmap of \<^verbatim>\<open>kernel/rhino/core/include/k_bitmap.h\<close>: an array of 32-bit words in
  which priority \<open>nr\<close> is bit \<open>31 - nr mod 32\<close> of word \<open>nr div 32\<close>, so that the most
  significant bit of the first word is the highest priority.  The bit searches are the
  software branches (\<^verbatim>\<open>RHINO_CONFIG_BITMAP_HW == 0\<close>), written as the C code's sequence of mask
  tests and shifts; the lemmas show that they count leading and trailing zeros, and that
  \<open>krhino_find_first_bit\<close> returns the least number in the set the bitmap stands for.

  The locale \<open>priority_bitmap\<close> is the interface the scheduler relies on; it is interpreted
  on these definitions at the end.
\<close>

section \<open>Operations\<close>

definition BITMAP_MASK :: "nat \<Rightarrow> u32" where
  "BITMAP_MASK nr = push_bit (31 - (nr AND 0x1F)) 1"

definition BITMAP_WORD :: "nat \<Rightarrow> nat" where
  "BITMAP_WORD nr = drop_bit 5 nr"

definition BITMAP_DECLARE :: "nat \<Rightarrow> u32 list" where
  "BITMAP_DECLARE bits = replicate (drop_bit 5 (bits + 31)) 0"

definition krhino_bitmap_set :: "u32 list \<Rightarrow> nat \<Rightarrow> u32 list" where
  "krhino_bitmap_set bitmap nr =
     bitmap[BITMAP_WORD nr := bitmap ! BITMAP_WORD nr OR BITMAP_MASK nr]"

definition krhino_bitmap_clear :: "u32 list \<Rightarrow> nat \<Rightarrow> u32 list" where
  "krhino_bitmap_clear bitmap nr =
     bitmap[BITMAP_WORD nr := bitmap ! BITMAP_WORD nr AND NOT (BITMAP_MASK nr)]"

definition krhino_clz32 :: "u32 \<Rightarrow> nat" where
  "krhino_clz32 x =
     (if x = 0 then 32 else
      let n = 0;
          (x, n) = (if x AND 0xFFFF0000 = 0 then (push_bit 16 x, n + 16) else (x, n));
          (x, n) = (if x AND 0xFF000000 = 0 then (push_bit 8 x, n + 8) else (x, n));
          (x, n) = (if x AND 0xF0000000 = 0 then (push_bit 4 x, n + 4) else (x, n));
          (x, n) = (if x AND 0xC0000000 = 0 then (push_bit 2 x, n + 2) else (x, n))
      in if x AND 0x80000000 = 0 then n + 1 else n)"

definition krhino_ctz32 :: "u32 \<Rightarrow> nat" where
  "krhino_ctz32 x =
     (if x = 0 then 32 else
      let n = 0;
          (x, n) = (if x AND 0x0000FFFF = 0 then (drop_bit 16 x, n + 16) else (x, n));
          (x, n) = (if x AND 0x000000FF = 0 then (drop_bit 8 x, n + 8) else (x, n));
          (x, n) = (if x AND 0x0000000F = 0 then (drop_bit 4 x, n + 4) else (x, n));
          (x, n) = (if x AND 0x00000003 = 0 then (drop_bit 2 x, n + 2) else (x, n))
      in if x AND 0x00000001 = 0 then n + 1 else n)"

text \<open>
  The word loop of \<^verbatim>\<open>krhino_find_first_bit\<close> has no bound of its own: over an all-zero bitmap it
  reads past the array, which is the value \<open>None\<close> here.
\<close>

fun find_first_word :: "u32 list \<Rightarrow> nat \<Rightarrow> (u32 \<times> nat) option" where
  "find_first_word [] nr = None"
| "find_first_word (w # bitmap) nr =
     (if w = 0 then find_first_word bitmap (nr + 32) else Some (w, nr))"

definition krhino_find_first_bit :: "u32 list \<Rightarrow> nat option" where
  "krhino_find_first_bit bitmap =
     (case find_first_word bitmap 0 of
        None \<Rightarrow> None
      | Some (tmp, nr) \<Rightarrow>
          let (tmp, nr) = (if tmp AND 0xFFFF0000 = 0 then (push_bit 16 tmp, nr + 16) else (tmp, nr));
              (tmp, nr) = (if tmp AND 0xFF000000 = 0 then (push_bit 8 tmp, nr + 8) else (tmp, nr));
              (tmp, nr) = (if tmp AND 0xF0000000 = 0 then (push_bit 4 tmp, nr + 4) else (tmp, nr));
              (tmp, nr) = (if tmp AND 0xC0000000 = 0 then (push_bit 2 tmp, nr + 2) else (tmp, nr))
          in Some (if tmp AND 0x80000000 = 0 then nr + 1 else nr))"

section \<open>Counting leading zeros\<close>

text \<open>
  \<open>lead x0 x n m\<close>: \<open>n\<close> leading zeros of \<open>x0\<close> have been shifted out, giving \<open>x\<close>, and the top
  \<open>m\<close> bits of \<open>x\<close> hold a one.  Each test halves \<open>m\<close>.
\<close>

definition lead :: "u32 \<Rightarrow> u32 \<Rightarrow> nat \<Rightarrow> nat \<Rightarrow> bool" where
  "lead x0 x n m \<longleftrightarrow> x = push_bit n x0 \<and> n + m \<le> 32
     \<and> (\<forall>k. 32 - n \<le> k \<and> k < 32 \<longrightarrow> \<not> bit x0 k)
     \<and> (\<exists>k. 32 - m \<le> k \<and> k < 32 \<and> bit x k)"

definition top_mask :: "nat \<Rightarrow> u32" where
  "top_mask w = push_bit (32 - w) (mask w)"

lemma bit_top_mask: "w \<le> 32 \<Longrightarrow> bit (top_mask w) k \<longleftrightarrow> 32 - w \<le> k \<and> k < 32"
  by (auto simp: top_mask_def bit_simps)

lemma and_top_mask_eq_0:
  "w \<le> 32 \<Longrightarrow> x AND top_mask w = 0 \<longleftrightarrow> (\<forall>k. 32 - w \<le> k \<and> k < 32 \<longrightarrow> \<not> bit x k)"
  by (auto simp: bit_eq_iff bit_and_iff bit_top_mask)

lemma lead_start: "x \<noteq> 0 \<Longrightarrow> lead x x 0 32"
  by (auto simp: lead_def bit_eq_iff)

lemma lead_shift:
  assumes "lead x0 x n (2 * w)" "x AND top_mask w = 0"
  shows "lead x0 (push_bit w x) (n + w) w"
proof -
  have x: "x = push_bit n x0" and nw: "n + 2 * w \<le> 32"
    and hi: "\<And>k. 32 - n \<le> k \<Longrightarrow> k < 32 \<Longrightarrow> \<not> bit x0 k"
    using assms(1) by (auto simp: lead_def)
  obtain k where k: "32 - 2 * w \<le> k" "k < 32" "bit x k"
    using assms(1) by (auto simp: lead_def)
  have z: "\<And>j. 32 - w \<le> j \<Longrightarrow> j < 32 \<Longrightarrow> \<not> bit x j"
    using assms(2) nw by (simp add: and_top_mask_eq_0)
  have kw: "k < 32 - w"
    using k z by (metis not_le)
  have "push_bit w x = push_bit (n + w) x0"
    by (simp add: x add.commute)
  moreover have "\<not> bit x0 j" if "32 - (n + w) \<le> j" "j < 32" for j
  proof (cases "32 - n \<le> j")
    case True
    with that show ?thesis using hi by simp
  next
    case False
    then have "32 - w \<le> j + n" "j + n < 32" using that by auto
    then have "\<not> bit x (j + n)" by (rule z)
    then show ?thesis using \<open>j + n < 32\<close> by (simp add: x bit_simps)
  qed
  moreover have "bit (push_bit w x) (k + w)"
    using k kw by (simp add: bit_simps)
  ultimately show ?thesis
    using nw k kw by (auto simp: lead_def intro!: exI [of _ "k + w"])
qed

lemma lead_keep:
  assumes "lead x0 x n (2 * w)" "x AND top_mask w \<noteq> 0"
  shows "lead x0 x n w"
  using assms by (auto simp: lead_def and_top_mask_eq_0)

lemma lead_done:
  assumes "lead x0 x n 1"
  shows "n < 32" "bit x0 (31 - n)" "\<And>k. 31 - n < k \<Longrightarrow> k < 32 \<Longrightarrow> \<not> bit x0 k"
proof -
  obtain k where k: "31 \<le> k" "k < 32" "bit x k"
    using assms by (auto simp: lead_def)
  then have "k = 31" by simp
  with k assms have "n + 1 \<le> 32" "x = push_bit n x0" "bit x 31"
    by (auto simp: lead_def)
  then show "n < 32" "bit x0 (31 - n)"
    by (auto simp: bit_simps)
  show "\<not> bit x0 k" if "31 - n < k" "k < 32" for k
    using assms that by (auto simp: lead_def)
qed

lemma top_masks:
  "top_mask 16 = 0xFFFF0000" "top_mask 8 = 0xFF000000" "top_mask 4 = 0xF0000000"
  "top_mask 2 = 0xC0000000" "top_mask 1 = 0x80000000"
  by (simp_all add: top_mask_def mask_eq_exp_minus_1)

definition clz_step :: "nat \<Rightarrow> u32 \<times> nat \<Rightarrow> u32 \<times> nat" where
  "clz_step w = (\<lambda>(x, n). if x AND top_mask w = 0 then (push_bit w x, n + w) else (x, n))"

definition clz_steps :: "u32 \<Rightarrow> nat \<Rightarrow> nat" where
  "clz_steps x n = snd (clz_step 1 (clz_step 2 (clz_step 4 (clz_step 8 (clz_step 16 (x, n))))))"

lemma clz_step_lead:
  assumes "lead x0 (fst p) (snd p - c) (2 * w)" "c \<le> snd p"
  shows "lead x0 (fst (clz_step w p)) (snd (clz_step w p) - c) w \<and> c \<le> snd (clz_step w p)"
  using assms lead_shift [of x0 "fst p" "snd p - c" w] lead_keep [of x0 "fst p" "snd p - c" w]
  by (auto simp: clz_step_def split: prod.splits)

lemma clz_steps_lead:
  assumes "x \<noteq> 0"
  shows "\<exists>y. lead x y (clz_steps x c - c) 1" "c \<le> clz_steps x c"
proof -
  let ?p1 = "clz_step 16 (x, c)"
  let ?p2 = "clz_step 8 ?p1"
  let ?p3 = "clz_step 4 ?p2"
  let ?p4 = "clz_step 2 ?p3"
  have "lead x (fst ?p1) (snd ?p1 - c) 16 \<and> c \<le> snd ?p1"
    by (rule clz_step_lead) (simp_all add: lead_start assms)
  then have "lead x (fst ?p2) (snd ?p2 - c) 8 \<and> c \<le> snd ?p2"
    by (intro clz_step_lead) simp_all
  then have "lead x (fst ?p3) (snd ?p3 - c) 4 \<and> c \<le> snd ?p3"
    by (intro clz_step_lead) simp_all
  then have "lead x (fst ?p4) (snd ?p4 - c) 2 \<and> c \<le> snd ?p4"
    by (intro clz_step_lead) simp_all
  then have "lead x (fst (clz_step 1 ?p4)) (snd (clz_step 1 ?p4) - c) 1 \<and> c \<le> snd (clz_step 1 ?p4)"
    by (intro clz_step_lead) simp_all
  then show "\<exists>y. lead x y (clz_steps x c - c) 1" "c \<le> clz_steps x c"
    by (auto simp: clz_steps_def)
qed

text \<open>The C sequence of tests is the composition of the steps.\<close>

lemma clz_sequence:
  "(let (x, n) = (if x AND 0xFFFF0000 = 0 then (push_bit 16 x, n + 16) else (x, n));
        (x, n) = (if x AND 0xFF000000 = 0 then (push_bit 8 x, n + 8) else (x, n));
        (x, n) = (if x AND 0xF0000000 = 0 then (push_bit 4 x, n + 4) else (x, n));
        (x, n) = (if x AND 0xC0000000 = 0 then (push_bit 2 x, n + 2) else (x, n))
    in if x AND 0x80000000 = 0 then n + 1 else n) = clz_steps x n" (is "?l = _")
proof -
  have "?l = (case clz_step 16 (x, n) of (x, n) \<Rightarrow> case clz_step 8 (x, n) of (x, n) \<Rightarrow>
      case clz_step 4 (x, n) of (x, n) \<Rightarrow> case clz_step 2 (x, n) of (x, n) \<Rightarrow>
      if x AND 0x80000000 = 0 then n + 1 else n)"
    by (simp only: Let_def clz_step_def top_masks prod.case)
  also have "\<dots> = (case clz_step 16 (x, n) of (x, n) \<Rightarrow> case clz_step 8 (x, n) of (x, n) \<Rightarrow>
      case clz_step 4 (x, n) of (x, n) \<Rightarrow> case clz_step 2 (x, n) of (x, n) \<Rightarrow>
      snd (clz_step 1 (x, n)))"
    by (simp only: clz_step_def [of 1] top_masks prod.case if_distrib [of snd] prod.sel)
  finally show ?thesis
    by (simp only: clz_steps_def case_prod_unfold prod.collapse)
qed

lemma krhino_clz32_steps: "x \<noteq> 0 \<Longrightarrow> krhino_clz32 x = clz_steps x 0"
  unfolding krhino_clz32_def by (simp only: Let_def [of "0::nat"] clz_sequence if_False)

lemma krhino_find_first_bit_steps:
  "krhino_find_first_bit bm = map_option (\<lambda>(w, nr). clz_steps w nr) (find_first_word bm 0)"
proof (cases "find_first_word bm 0")
  case None
  then show ?thesis by (simp add: krhino_find_first_bit_def)
next
  case (Some p)
  obtain w nr where p: "p = (w, nr)" by fastforce
  show ?thesis
    unfolding krhino_find_first_bit_def Some p clz_sequence [symmetric]
    by (simp only: option.case prod.case option.map Let_def case_prod_unfold)
qed

lemma krhino_clz32_spec:
  assumes "x \<noteq> 0"
  shows "krhino_clz32 x < 32" "bit x (31 - krhino_clz32 x)"
    "\<And>k. 31 - krhino_clz32 x < k \<Longrightarrow> k < 32 \<Longrightarrow> \<not> bit x k"
  using clz_steps_lead [OF assms, of 0] lead_done by (auto simp: krhino_clz32_steps [OF assms])

section \<open>Counting trailing zeros\<close>

definition trail :: "u32 \<Rightarrow> u32 \<Rightarrow> nat \<Rightarrow> nat \<Rightarrow> bool" where
  "trail x0 x n m \<longleftrightarrow> x = drop_bit n x0 \<and> n + m \<le> 32
     \<and> (\<forall>k<n. \<not> bit x0 k) \<and> (\<exists>k<m. bit x k)"

definition ctz_step :: "nat \<Rightarrow> u32 \<times> nat \<Rightarrow> u32 \<times> nat" where
  "ctz_step w = (\<lambda>(x, n). if x AND mask w = 0 then (drop_bit w x, n + w) else (x, n))"

lemma and_mask_eq_0: "x AND mask w = 0 \<longleftrightarrow> (\<forall>k<w. \<not> bit (x :: u32) k)"
  using bit_imp_le_length [of x] by (fastforce simp: bit_eq_iff bit_and_iff bit_mask_iff)

lemma ctz_step_trail:
  assumes "trail x0 x n (2 * w)"
  shows "trail x0 (fst (ctz_step w (x, n))) (snd (ctz_step w (x, n))) w"
proof (cases "x AND mask w = 0")
  case True
  then have z: "\<And>k. k < w \<Longrightarrow> \<not> bit x k" by (simp add: and_mask_eq_0)
  have x: "x = drop_bit n x0" "n + 2 * w \<le> 32" "\<And>k. k < n \<Longrightarrow> \<not> bit x0 k"
    using assms by (auto simp: trail_def)
  obtain k where k: "k < 2 * w" "bit x k" using assms by (auto simp: trail_def)
  with z have kw: "w \<le> k" by (metis not_le)
  have "\<not> bit x0 j" if "j < n + w" for j
    using x(3) [of j] z [of "j - n"] that by (cases "j < n") (auto simp: x(1) bit_simps)
  moreover have "bit (drop_bit w x) (k - w)" "k - w < w"
    using k kw by (auto simp: bit_simps)
  ultimately show ?thesis
    using True x(1,2) by (auto simp: trail_def ctz_step_def add.commute)
next
  case False
  then show ?thesis
    using assms by (auto simp: trail_def ctz_step_def and_mask_eq_0)
qed

lemma low_masks:
  "mask 16 = (0x0000FFFF :: u32)" "mask 8 = (0x000000FF :: u32)" "mask 4 = (0x0000000F :: u32)"
  "mask 2 = (0x00000003 :: u32)" "mask 1 = (0x00000001 :: u32)"
  by (simp_all add: mask_eq_exp_minus_1)

lemma krhino_ctz32_steps:
  assumes "x \<noteq> 0"
  shows "krhino_ctz32 x =
     snd (ctz_step 1 (ctz_step 2 (ctz_step 4 (ctz_step 8 (ctz_step 16 (x, 0))))))"
proof -
  have "krhino_ctz32 x = (case ctz_step 16 (x, 0) of (x, n) \<Rightarrow> case ctz_step 8 (x, n) of (x, n) \<Rightarrow>
      case ctz_step 4 (x, n) of (x, n) \<Rightarrow> case ctz_step 2 (x, n) of (x, n) \<Rightarrow>
      if x AND 0x00000001 = 0 then n + 1 else n)"
    unfolding krhino_ctz32_def if_not_P [OF assms]
    by (simp only: Let_def ctz_step_def low_masks prod.case)
  also have "\<dots> = (case ctz_step 16 (x, 0) of (x, n) \<Rightarrow> case ctz_step 8 (x, n) of (x, n) \<Rightarrow>
      case ctz_step 4 (x, n) of (x, n) \<Rightarrow> case ctz_step 2 (x, n) of (x, n) \<Rightarrow>
      snd (ctz_step 1 (x, n)))"
    by (simp only: ctz_step_def [of 1] low_masks prod.case if_distrib [of snd] prod.sel)
  finally show ?thesis
    by (simp only: case_prod_unfold prod.collapse)
qed

lemma krhino_ctz32_spec:
  assumes "x \<noteq> 0"
  shows "krhino_ctz32 x < 32" "bit x (krhino_ctz32 x)"
    "\<And>k. k < krhino_ctz32 x \<Longrightarrow> \<not> bit x k"
proof -
  have st: "trail x (fst (ctz_step w p)) (snd (ctz_step w p)) w"
    if "trail x (fst p) (snd p) (2 * w)" for w p
    using ctz_step_trail [of x "fst p" "snd p" w] that by simp
  have "trail x x 0 (2 * 16)"
  proof -
    obtain k where k: "bit x k" using assms by (auto simp: bit_eq_iff)
    then have "k < 32" using bit_imp_le_length [OF k] by simp
    with k show ?thesis by (auto simp: trail_def)
  qed
  then have "trail x (fst (ctz_step 16 (x, 0))) (snd (ctz_step 16 (x, 0))) (2 * 8)"
    using st [of "(x, 0)" 16] by simp
  then have "trail x (fst (ctz_step 8 (ctz_step 16 (x, 0)))) (snd (ctz_step 8 (ctz_step 16 (x, 0)))) (2 * 4)"
    using st [of "ctz_step 16 (x, 0)" 8] by simp
  then have "\<exists>y. trail x y (krhino_ctz32 x) 1"
    using st [of "ctz_step 8 (ctz_step 16 (x, 0))" 4]
      st [of "ctz_step 4 (ctz_step 8 (ctz_step 16 (x, 0)))" 2]
      st [of "ctz_step 2 (ctz_step 4 (ctz_step 8 (ctz_step 16 (x, 0))))" 1]
    by (auto simp: krhino_ctz32_steps [OF assms])
  then show "krhino_ctz32 x < 32" "bit x (krhino_ctz32 x)"
    "\<And>k. k < krhino_ctz32 x \<Longrightarrow> \<not> bit x k"
    by (auto simp: trail_def bit_simps)
qed

section \<open>The set a bitmap stands for\<close>

definition bitmap_bit :: "u32 list \<Rightarrow> nat \<Rightarrow> bool" where
  "bitmap_bit bm nr \<longleftrightarrow> nr < 32 * length bm \<and> bit (bm ! (nr div 32)) (31 - nr mod 32)"

lemma BITMAP_WORD_div: "BITMAP_WORD nr = nr div 32"
  by (simp add: BITMAP_WORD_def drop_bit_eq_div)

lemma and_1F_mod: "nr AND 0x1F = nr mod (32 :: nat)"
  using take_bit_eq_mask [of 5 nr] by (simp add: take_bit_eq_mod mask_eq_exp_minus_1 and.commute)

lemma bit_BITMAP_MASK: "bit (BITMAP_MASK nr) k \<longleftrightarrow> k = 31 - nr mod 32"
  by (auto simp: BITMAP_MASK_def and_1F_mod bit_simps)

lemma length_krhino_bitmap_set [simp]: "length (krhino_bitmap_set bm nr) = length bm"
  by (simp add: krhino_bitmap_set_def)

lemma length_krhino_bitmap_clear [simp]: "length (krhino_bitmap_clear bm nr) = length bm"
  by (simp add: krhino_bitmap_clear_def)

lemma same_position: "k div 32 = nr div 32 \<Longrightarrow> 31 - k mod 32 = 31 - nr mod 32 \<longleftrightarrow> k = nr" for k nr :: nat
proof -
  assume d: "k div 32 = nr div 32"
  have "k mod 32 < 32" "nr mod 32 < 32" by simp_all
  then have "31 - k mod 32 = 31 - nr mod 32 \<longleftrightarrow> k mod 32 = nr mod 32" by arith
  then show ?thesis using d by (metis div_mult_mod_eq)
qed

lemma bitmap_bit_set:
  assumes "nr < 32 * length bm"
  shows "bitmap_bit (krhino_bitmap_set bm nr) k \<longleftrightarrow> k = nr \<or> bitmap_bit bm k"
proof -
  have w: "nr div 32 < length bm" using assms by auto
  show ?thesis
    using assms w same_position [of k nr]
    by (auto simp: bitmap_bit_def krhino_bitmap_set_def BITMAP_WORD_div nth_list_update
        bit_or_iff bit_BITMAP_MASK)
qed

lemma bitmap_bit_clear:
  assumes "nr < 32 * length bm"
  shows "bitmap_bit (krhino_bitmap_clear bm nr) k \<longleftrightarrow> k \<noteq> nr \<and> bitmap_bit bm k"
proof -
  have w: "nr div 32 < length bm" using assms by auto
  show ?thesis
    using assms w same_position [of k nr]
    by (auto simp: bitmap_bit_def krhino_bitmap_clear_def BITMAP_WORD_div nth_list_update
        bit_and_iff bit_not_iff bit_BITMAP_MASK)
qed

lemma bitmap_bit_DECLARE: "\<not> bitmap_bit (BITMAP_DECLARE bits) k"
  by (auto simp: bitmap_bit_def BITMAP_DECLARE_def)

lemma find_first_word_None: "find_first_word bm nr = None \<longleftrightarrow> (\<forall>w\<in>set bm. w = 0)"
  by (induction bm arbitrary: nr) auto

lemma find_first_word_Some:
  "find_first_word bm nr = Some (w, k) \<Longrightarrow>
     \<exists>i<length bm. bm ! i = w \<and> w \<noteq> 0 \<and> k = nr + 32 * i \<and> (\<forall>j<i. bm ! j = 0)"
proof (induction bm arbitrary: nr)
  case Nil
  then show ?case by simp
next
  case (Cons v bm)
  show ?case
  proof (cases "v = 0")
    case False
    with Cons.prems show ?thesis by (auto intro!: exI [of _ 0])
  next
    case True
    with Cons.prems obtain i where "i < length bm" "bm ! i = w" "w \<noteq> 0" "k = nr + 32 + 32 * i"
      "\<forall>j<i. bm ! j = 0"
      using Cons.IH [of "nr + 32"] by auto
    with True show ?thesis
      by (intro exI [of _ "Suc i"]) (auto simp: nth_Cons split: nat.splits)
  qed
qed

lemma bitmap_bit_word: "m < 32 \<Longrightarrow> i < length bm \<Longrightarrow> bitmap_bit bm (32 * i + m) \<longleftrightarrow> bit (bm ! i) (31 - m)"
  by (simp add: bitmap_bit_def)

lemma krhino_find_first_bit_None:
  "krhino_find_first_bit bm = None \<longleftrightarrow> (\<forall>nr. \<not> bitmap_bit bm nr)"
proof
  assume "krhino_find_first_bit bm = None"
  then have "\<forall>w\<in>set bm. w = 0"
    by (simp add: krhino_find_first_bit_steps find_first_word_None)
  then show "\<forall>nr. \<not> bitmap_bit bm nr"
    by (metis bitmap_bit_def bit_0_eq bot_fun_def bot_bool_def less_mult_imp_div_less mult.commute nth_mem)
next
  assume none: "\<forall>nr. \<not> bitmap_bit bm nr"
  have "w = 0" if w: "w \<in> set bm" for w
  proof (rule ccontr)
    assume "w \<noteq> 0"
    then obtain k where k: "bit w k" by (auto simp: bit_eq_iff)
    then have k32: "k < 32" using bit_imp_le_length by fastforce
    obtain i where "i < length bm" "bm ! i = w" using w by (auto simp: in_set_conv_nth)
    then have "bitmap_bit bm (32 * i + (31 - k))"
      using k k32 by (subst bitmap_bit_word) auto
    with none show False by blast
  qed
  then show "krhino_find_first_bit bm = None"
    by (simp add: krhino_find_first_bit_steps find_first_word_None)
qed

lemma krhino_find_first_bit_Some:
  assumes "krhino_find_first_bit bm = Some nr"
  shows "bitmap_bit bm nr" and "\<And>k. k < nr \<Longrightarrow> \<not> bitmap_bit bm k"
proof -
  obtain w c where w: "find_first_word bm 0 = Some (w, c)" and nr: "nr = clz_steps w c"
    using assms by (auto simp: krhino_find_first_bit_steps)
  obtain i where i: "i < length bm" "bm ! i = w" "w \<noteq> 0" "c = 32 * i" "\<forall>j<i. bm ! j = 0"
    using find_first_word_Some [OF w] by auto
  define n where "n = nr - c"
  obtain y where "lead w y n 1" and c: "nr = c + n"
    using clz_steps_lead [OF i(3), of c] by (auto simp: nr n_def)
  note n = lead_done [OF this(1)]
  show "bitmap_bit bm nr"
    using n i by (simp add: c bitmap_bit_word)
  fix k assume k: "k < nr"
  show "\<not> bitmap_bit bm k"
  proof (cases "k div 32 < i")
    case True
    with i show ?thesis by (auto simp: bitmap_bit_def)
  next
    case False
    with k c i n(1) have "k div 32 = i" by auto
    moreover have "k mod 32 < n"
      using k c i(4) \<open>k div 32 = i\<close> mult_div_mod_eq [of 32 k] by linarith
    then have "31 - n < 31 - k mod 32" "31 - k mod 32 < 32"
      using n(1) by auto
    ultimately show ?thesis
      using n(3) i by (auto simp: bitmap_bit_def)
  qed
qed

section \<open>The interface\<close>

locale priority_bitmap =
  fixes bset :: "'b \<Rightarrow> nat \<Rightarrow> 'b"
    and bclear :: "'b \<Rightarrow> nat \<Rightarrow> 'b"
    and first :: "'b \<Rightarrow> nat option"
    and has :: "'b \<Rightarrow> nat \<Rightarrow> bool"
    and bound :: "'b \<Rightarrow> nat"
  assumes has_bset: "nr < bound b \<Longrightarrow> has (bset b nr) k \<longleftrightarrow> k = nr \<or> has b k"
    and has_bclear: "nr < bound b \<Longrightarrow> has (bclear b nr) k \<longleftrightarrow> k \<noteq> nr \<and> has b k"
    and bound_bset: "bound (bset b nr) = bound b"
    and bound_bclear: "bound (bclear b nr) = bound b"
    and first_None: "first b = None \<longleftrightarrow> (\<forall>k. \<not> has b k)"
    and first_has: "first b = Some k \<Longrightarrow> has b k"
    and first_least: "first b = Some k \<Longrightarrow> j < k \<Longrightarrow> \<not> has b j"
begin

lemma first_eq_Least: "has b k \<Longrightarrow> first b = Some (LEAST j. has b j)"
proof -
  assume h: "has b k"
  then obtain n where n: "first b = Some n"
    using first_None by (cases "first b") auto
  have "(LEAST j. has b j) = n"
    using first_has [OF n] first_least [OF n] by (intro Least_equality) (auto simp: not_less [symmetric])
  with n show ?thesis by simp
qed

lemma first_eqI: "has b k \<Longrightarrow> (\<And>j. has b j \<Longrightarrow> k \<le> j) \<Longrightarrow> first b = Some k"
  using first_eq_Least [of b k] Least_equality [of "has b" k] by simp

end

interpretation rpb: priority_bitmap krhino_bitmap_set krhino_bitmap_clear krhino_find_first_bit
  bitmap_bit "\<lambda>bm. 32 * length bm"
  by unfold_locales
    (auto simp: bitmap_bit_set bitmap_bit_clear krhino_find_first_bit_None
      dest: krhino_find_first_bit_Some)

section \<open>Properties\<close>

lemma takeWhile_upt: "n \<le> m \<Longrightarrow> (\<And>k. k < n \<Longrightarrow> P k) \<Longrightarrow> n < m \<longrightarrow> \<not> P n \<Longrightarrow> length (takeWhile P [0..<m]) = n"
proof -
  assume a: "n \<le> m" "\<And>k. k < n \<Longrightarrow> P k" "n < m \<longrightarrow> \<not> P n"
  have "[0..<m] = [0..<n] @ [n..<m]" using a(1) upt_add_eq_append [of 0 n "m - n"] by simp
  moreover have "takeWhile P [n..<m] = []" using a(3) by (cases "n < m") (simp_all add: upt_conv_Cons)
  moreover have "takeWhile P ([0..<n] @ [n..<m]) = [0..<n] @ takeWhile P [n..<m]" using a(2) by (intro takeWhile_append2) simp
  ultimately show ?thesis by simp
qed

text \<open>
  (C36) The bit searches, which halve the word in five steps, agree with looking at one bit after the other: \<^verbatim>\<open>krhino_clz32\<close> counts the zeros before
  the highest set bit, \<^verbatim>\<open>krhino_ctz32\<close> those after the lowest one, 32 for the number zero, and \<^verbatim>\<open>krhino_find_first_bit\<close> finds the least
  number whose bit is set in a bitmap of any length, if there is one.
\<close>

theorem bit_searches:
  "krhino_clz32 x = length (takeWhile (\<lambda>k. \<not> bit x (31 - k)) [0..<32])
   \<and> krhino_ctz32 x = length (takeWhile (\<lambda>k. \<not> bit x k) [0..<32])
   \<and> krhino_find_first_bit bm = (if \<exists>k. bitmap_bit bm k then Some (LEAST k. bitmap_bit bm k) else None)"
proof -
  have t: "takeWhile (\<lambda>_. True) xs = xs" for xs :: "nat list" by (induction xs) simp_all
  have "length (takeWhile (\<lambda>k. \<not> bit x (31 - k)) [0..<32]) = krhino_clz32 x"
  proof (cases "x = 0")
    case False
    note c = krhino_clz32_spec [OF False]
    show ?thesis by (rule takeWhile_upt) (use c in auto)
  qed (simp add: krhino_clz32_def t)
  moreover have "length (takeWhile (\<lambda>k. \<not> bit x k) [0..<32]) = krhino_ctz32 x"
  proof (cases "x = 0")
    case False
    note c = krhino_ctz32_spec [OF False]
    show ?thesis by (rule takeWhile_upt) (use c in auto)
  qed (simp add: krhino_ctz32_def t)
  moreover have "krhino_find_first_bit bm = (if \<exists>k. bitmap_bit bm k then Some (LEAST k. bitmap_bit bm k) else None)"
    using rpb.first_None rpb.first_eq_Least by auto
  ultimately show ?thesis by simp
qed

end
