(* ===== verification/Rhino_Kernel.thy ===== *)
theory Rhino_Kernel
  imports Rhino_Bitmap Rhino_Ringbuf
begin

text \<open>
  The state of the Rhino kernel: the control blocks of \<^verbatim>\<open>k_task.h\<close>, \<^verbatim>\<open>k_obj.h\<close>, \<^verbatim>\<open>k_sem.h\<close>,
  \<^verbatim>\<open>k_mutex.h\<close>, \<^verbatim>\<open>k_event.h\<close>, \<^verbatim>\<open>k_queue.h\<close>, \<^verbatim>\<open>k_buf_queue.h\<close>, and the globals of \<^verbatim>\<open>k_obj.c\<close>, for
  the single-core configuration of \<^verbatim>\<open>board/developerkit/aos/k_config.h\<close>.

  Control blocks live at addresses: \<open>tasks\<close>, \<open>objs\<close>, \<open>sems\<close> and so on give the block at an address,
  and every pointer of the source is a 32-bit word with \<open>0\<close> for the null pointer.  The
  \<^verbatim>\<open>blk_obj_t\<close> that is the first member of each kernel object shares the object's address, which
  is what the casts \<^verbatim>\<open>(blk_obj_t *)sem\<close> and \<^verbatim>\<open>(kmutex_t *)(task->blk_obj)\<close> of the source use.

  The intrusive lists (\<^verbatim>\<open>klist_t\<close>) are HOL lists here; the theory \<open>Rhino_KList\<close> shows that the
  pointer operations implement the list operations used.  A block list is the list of its
  tasks; a ready list is the circular list read from its current item.

  \<open>k_fault\<close> records that an operation has dereferenced a null pointer, unlinked a node that is
  on no list, or entered an endless loop.  It is never reset, and the invariant of the
  later theories says that it stays false.  \<open>k_err_log\<close> is the sequence of errors given to
  \<^verbatim>\<open>k_err_proc\<close>.
\<close>

section \<open>Control blocks\<close>

type_synonym tid = ptr
type_synonym oid = ptr

datatype task_stat = K_SEED | K_RDY | K_PEND | K_SUSPENDED | K_PEND_SUSPENDED | K_SLEEP
  | K_SLEEP_SUSPENDED | K_DELETED

datatype blk_policy = BLK_POLICY_PRI | BLK_POLICY_FIFO

datatype blk_state_t = BLK_FINISH | BLK_ABORT | BLK_TIMEOUT | BLK_DEL | BLK_INVALID

datatype kobj_type = RHINO_OBJ_TYPE_NONE | RHINO_SEM_OBJ_TYPE | RHINO_MUTEX_OBJ_TYPE
  | RHINO_QUEUE_OBJ_TYPE | RHINO_BUF_QUEUE_OBJ_TYPE | RHINO_TIMER_OBJ_TYPE | RHINO_EVENT_OBJ_TYPE
  | RHINO_MM_OBJ_TYPE

text \<open>
  \<open>tick_head\<close> says whether the pointer of that name is set, that is whether the task is on the
  tick list.  \<open>mutex_list\<close> is the first mutex the task holds, the others follow through
  \<open>mutex_next\<close>.
\<close>

record ktask =
  task_stack :: ptr
  task_name :: ptr
  user_info :: "ptr list"
  task_stack_base :: ptr
  stack_size :: size_t
  suspend_count :: u8
  mutex_list :: oid
  tick_match :: tick_t
  tick_remain :: tick_t
  tick_head :: bool
  task_msg :: ptr
  bq_msg_size :: nat
  task_state :: task_stat
  blk_state :: blk_state_t
  blk_obj :: oid
  task_sem_obj :: oid
  time_slice :: u32
  time_total :: u32
  pend_flags :: u32
  pend_info :: ptr
  pend_option :: u8
  sched_policy :: u8
  cpu_num :: u8
  prio :: nat
  b_prio :: nat
  task_alloc_flag :: u8

record blk_obj_t =
  blk_list :: "tid list"
  obj_name :: ptr
  blk_policy :: blk_policy
  obj_type :: kobj_type

record ksem =
  sem_count :: u32
  peak_count :: u32
  sem_alloc_flag :: u8

record kmutex =
  mutex_task :: tid
  mutex_next :: oid
  owner_nested :: u32
  mutex_alloc_flag :: u8

record kevent =
  event_flags :: u32
  event_alloc_flag :: u8

record kqueue =
  q_ringbuf :: k_ringbuf
  queue_start :: ptr
  q_size :: nat
  q_cur_num :: nat
  q_peak_num :: nat
  queue_alloc_flag :: u8

record kbuf_queue =
  bq_buf :: ptr
  bq_ringbuf :: k_ringbuf
  max_msg_size :: nat
  bq_cur_num :: nat
  bq_peak_num :: nat
  min_free_buf_size :: nat
  bq_alloc_flag :: u8

text \<open>The ready queue: \<open>cur_list_item\<close> gives the ready list of a priority, from its current item on.\<close>

record runqueue =
  cur_list_item :: "nat \<Rightarrow> tid list"
  task_bit_map :: "u32 list"
  highest_pri :: nat

record kobj_list =
  task_head :: "tid list"
  mutex_head :: "oid list"
  sem_head :: "oid list"
  queue_head :: "oid list"
  event_head :: "oid list"
  buf_queue_head :: "oid list"

text \<open>
  \<open>user_words\<close> and \<open>user_bufs\<close> are the words and the buffers of the callers that the kernel
  writes to: \<^verbatim>\<open>*actl_flags\<close>, and the receive buffer of a task that waits on a buffer queue.
  \<open>stack_mem\<close> gives the words of the task stacks by their addresses.  An entry of \<open>g_res_list\<close> is
  the list of addresses to be freed for a deleted task, and \<open>deathbed_addr\<close> the address of the
  function \<^verbatim>\<open>krhino_task_deathbed\<close>, which the return address of every task points to.
\<close>

record kernel =
  g_sys_stat :: kstat
  g_idle_task_spawned :: u8
  g_ready_queue :: runqueue
  g_sched_lock :: u8
  g_intrpt_nested_level :: u8
  g_preferred_ready_task :: tid
  g_active_task :: tid
  g_tick_count :: tick_t
  g_tick_head :: "tid list"
  g_kobj_list :: kobj_list
  g_res_sem :: oid
  g_res_list :: "ptr list list"
  tasks :: "tid \<Rightarrow> ktask"
  objs :: "oid \<Rightarrow> blk_obj_t"
  sems :: "oid \<Rightarrow> ksem"
  mutexes :: "oid \<Rightarrow> kmutex"
  events :: "oid \<Rightarrow> kevent"
  queues :: "oid \<Rightarrow> kqueue"
  buf_queues :: "oid \<Rightarrow> kbuf_queue"
  user_words :: "ptr \<Rightarrow> u32"
  user_bufs :: "ptr \<Rightarrow> byte list"
  stack_mem :: "ptr \<Rightarrow> u32"
  deathbed_addr :: ptr
  k_err_log :: "kstat list"
  k_fault :: bool

section \<open>Access to the blocks\<close>

definition upd_task :: "tid \<Rightarrow> (ktask \<Rightarrow> ktask) \<Rightarrow> kernel \<Rightarrow> kernel" where
  "upd_task t f s = s\<lparr>tasks := (tasks s)(t := f (tasks s t))\<rparr>"

definition upd_obj :: "oid \<Rightarrow> (blk_obj_t \<Rightarrow> blk_obj_t) \<Rightarrow> kernel \<Rightarrow> kernel" where
  "upd_obj i f s = s\<lparr>objs := (objs s)(i := f (objs s i))\<rparr>"

definition upd_sem :: "oid \<Rightarrow> (ksem \<Rightarrow> ksem) \<Rightarrow> kernel \<Rightarrow> kernel" where
  "upd_sem i f s = s\<lparr>sems := (sems s)(i := f (sems s i))\<rparr>"

definition upd_mutex :: "oid \<Rightarrow> (kmutex \<Rightarrow> kmutex) \<Rightarrow> kernel \<Rightarrow> kernel" where
  "upd_mutex i f s = s\<lparr>mutexes := (mutexes s)(i := f (mutexes s i))\<rparr>"

definition upd_event :: "oid \<Rightarrow> (kevent \<Rightarrow> kevent) \<Rightarrow> kernel \<Rightarrow> kernel" where
  "upd_event i f s = s\<lparr>events := (events s)(i := f (events s i))\<rparr>"

definition upd_queue :: "oid \<Rightarrow> (kqueue \<Rightarrow> kqueue) \<Rightarrow> kernel \<Rightarrow> kernel" where
  "upd_queue i f s = s\<lparr>queues := (queues s)(i := f (queues s i))\<rparr>"

definition upd_buf_queue :: "oid \<Rightarrow> (kbuf_queue \<Rightarrow> kbuf_queue) \<Rightarrow> kernel \<Rightarrow> kernel" where
  "upd_buf_queue i f s = s\<lparr>buf_queues := (buf_queues s)(i := f (buf_queues s i))\<rparr>"

definition fault :: "kernel \<Rightarrow> kernel" where
  "fault s = s\<lparr>k_fault := True\<rparr>"

definition k_err_proc :: "kstat \<Rightarrow> kernel \<Rightarrow> kernel" where
  "k_err_proc err s = s\<lparr>k_err_log := k_err_log s @ [err]\<rparr>"

lemmas upd_defs = upd_task_def upd_obj_def upd_sem_def upd_mutex_def upd_event_def upd_queue_def
  upd_buf_queue_def fault_def k_err_proc_def

text \<open>
  A call that may block either returns a status, or leaves the calling task pending; then it
  returns after the task has been made ready and chosen again.
\<close>

datatype outcome = Ret kstat | Pending

section \<open>Task states\<close>

definition pended :: "ktask \<Rightarrow> bool" where
  "pended k \<longleftrightarrow> task_state k = K_PEND \<or> task_state k = K_PEND_SUSPENDED"

definition sleeping :: "ktask \<Rightarrow> bool" where
  "sleeping k \<longleftrightarrow> task_state k = K_SLEEP \<or> task_state k = K_SLEEP_SUSPENDED"

definition live :: "ktask \<Rightarrow> bool" where
  "live k \<longleftrightarrow> task_state k \<noteq> K_SEED \<and> task_state k \<noteq> K_DELETED"

definition ready :: "ktask \<Rightarrow> bool" where
  "ready k \<longleftrightarrow> task_state k = K_RDY"

lemmas state_defs = pended_def sleeping_def live_def ready_def

end
