(* ===== verification/Rhino_Sched.thy ===== *)
theory Rhino_Sched
  imports Rhino_Kernel
begin

text \<open>
  The ready queue and the scheduler of \<^verbatim>\<open>kernel/rhino/core/k_sched.c\<close> (single core): the ready
  lists with their bitmap and highest priority, the choice of the next task, the scheduler
  lock, and the round-robin time slice.

  \<open>rq_ok\<close> is the well-formedness of a ready queue, \<open>rdy_ok\<close> ties it to the task states.  The locale
  \<open>priority_lanes\<close> is the view of the ready queue its clients rely on, one list per priority
  and the first task of the most urgent non-empty list.
\<close>

section \<open>Ready queue operations\<close>

definition runqueue_init :: "runqueue \<Rightarrow> runqueue" where
  "runqueue_init rq = rq\<lparr>highest_pri := RHINO_CONFIG_PRI_MAX,
     cur_list_item := (\<lambda>p. if p < RHINO_CONFIG_PRI_MAX then [] else cur_list_item rq p)\<rparr>"

definition ready_list_init :: "runqueue \<Rightarrow> nat \<Rightarrow> tid \<Rightarrow> runqueue" where
  "ready_list_init rq p t =
     rq\<lparr>cur_list_item := (cur_list_item rq)(p := [t]),
        task_bit_map := krhino_bitmap_set (task_bit_map rq) p,
        highest_pri := (if p < highest_pri rq then p else highest_pri rq)\<rparr>"

definition is_ready_list_empty :: "runqueue \<Rightarrow> nat \<Rightarrow> bool" where
  "is_ready_list_empty rq p \<longleftrightarrow> cur_list_item rq p = []"

definition rq_add_tail :: "runqueue \<Rightarrow> nat \<Rightarrow> tid \<Rightarrow> runqueue" where
  "rq_add_tail rq p t =
     (if is_ready_list_empty rq p then ready_list_init rq p t
      else rq\<lparr>cur_list_item := (cur_list_item rq)(p := cur_list_item rq p @ [t])\<rparr>)"

definition rq_add_head :: "runqueue \<Rightarrow> nat \<Rightarrow> tid \<Rightarrow> runqueue" where
  "rq_add_head rq p t =
     (if is_ready_list_empty rq p then ready_list_init rq p t
      else rq\<lparr>cur_list_item := (cur_list_item rq)(p := t # cur_list_item rq p)\<rparr>)"

text \<open>
  A removal dereferences the current item (none on an empty list), and unlinks the node, which
  has to be on the list when that has more than one.  Of the all-zero bitmap
  \<^verbatim>\<open>krhino_find_first_bit\<close> reads past the end.
\<close>

definition rq_rm :: "runqueue \<Rightarrow> nat \<Rightarrow> tid \<Rightarrow> runqueue option" where
  "rq_rm rq p t =
     (case cur_list_item rq p of
        [] \<Rightarrow> None
      | x # y # xs \<Rightarrow>
          if t \<in> set (x # y # xs)
          then Some (rq\<lparr>cur_list_item := (cur_list_item rq)(p := remove1 t (x # y # xs))\<rparr>)
          else None
      | [x] \<Rightarrow>
          (let rq' = rq\<lparr>cur_list_item := (cur_list_item rq)(p := []),
                        task_bit_map := krhino_bitmap_clear (task_bit_map rq) p\<rparr>
           in if p \<noteq> highest_pri rq' then Some rq'
              else (case krhino_find_first_bit (task_bit_map rq') of
                      None \<Rightarrow> None
                    | Some i \<Rightarrow> Some (rq'\<lparr>highest_pri := i\<rparr>))))"

definition rq_head_to_tail :: "runqueue \<Rightarrow> nat \<Rightarrow> runqueue option" where
  "rq_head_to_tail rq p =
     (if cur_list_item rq p = [] then None
      else Some (rq\<lparr>cur_list_item := (cur_list_item rq)(p := rotate1 (cur_list_item rq p))\<rparr>))"

definition preferred_cpu_ready_task_get :: "runqueue \<Rightarrow> tid option" where
  "preferred_cpu_ready_task_get rq =
     (case cur_list_item rq (highest_pri rq) of [] \<Rightarrow> None | t # ts \<Rightarrow> Some t)"

section \<open>The operations on the kernel state\<close>

definition ready_list_add_head :: "tid \<Rightarrow> kernel \<Rightarrow> kernel" where
  "ready_list_add_head t s = s\<lparr>g_ready_queue := rq_add_head (g_ready_queue s) (prio (tasks s t)) t\<rparr>"

definition ready_list_add_tail :: "tid \<Rightarrow> kernel \<Rightarrow> kernel" where
  "ready_list_add_tail t s = s\<lparr>g_ready_queue := rq_add_tail (g_ready_queue s) (prio (tasks s t)) t\<rparr>"

definition ready_list_add :: "tid \<Rightarrow> kernel \<Rightarrow> kernel" where
  "ready_list_add t s =
     (if prio (tasks s t) = prio (tasks s (g_active_task s)) then ready_list_add_tail t s
      else ready_list_add_head t s)"

definition ready_list_rm :: "tid \<Rightarrow> kernel \<Rightarrow> kernel" where
  "ready_list_rm t s =
     (case rq_rm (g_ready_queue s) (prio (tasks s t)) t of
        None \<Rightarrow> fault s
      | Some rq \<Rightarrow> s\<lparr>g_ready_queue := rq\<rparr>)"

definition ready_list_head_to_tail :: "tid \<Rightarrow> kernel \<Rightarrow> kernel" where
  "ready_list_head_to_tail t s =
     (case rq_head_to_tail (g_ready_queue s) (prio (tasks s t)) of
        None \<Rightarrow> fault s
      | Some rq \<Rightarrow> s\<lparr>g_ready_queue := rq\<rparr>)"

text \<open>The switch itself (\<^verbatim>\<open>cpu_task_switch\<close>) makes the preferred task the active one.\<close>

definition core_sched :: "kernel \<Rightarrow> kernel" where
  "core_sched s =
     (if g_intrpt_nested_level s > 0 then s
      else if g_sched_lock s > 0 then s
      else case preferred_cpu_ready_task_get (g_ready_queue s) of
        None \<Rightarrow> fault s
      | Some preferred_task \<Rightarrow>
          if preferred_task = g_active_task s then s
          else s\<lparr>g_preferred_ready_task := preferred_task, g_active_task := preferred_task\<rparr>)"

definition SCHED_MAX_LOCK_COUNT :: u8 where
  "SCHED_MAX_LOCK_COUNT = 200"

definition krhino_sched_disable :: "kernel \<Rightarrow> kstat \<times> kernel" where
  "krhino_sched_disable s =
     (if g_intrpt_nested_level s > 0 then (RHINO_NOT_CALLED_BY_INTRPT, s)
      else if g_sched_lock s \<ge> SCHED_MAX_LOCK_COUNT then (RHINO_SCHED_LOCK_COUNT_OVF, s)
      else (RHINO_SUCCESS, s\<lparr>g_sched_lock := g_sched_lock s + 1\<rparr>))"

definition krhino_sched_enable :: "kernel \<Rightarrow> kstat \<times> kernel" where
  "krhino_sched_enable s =
     (if g_intrpt_nested_level s > 0 then (RHINO_NOT_CALLED_BY_INTRPT, s)
      else if g_sched_lock s = 0 then (RHINO_SCHED_ALREADY_ENABLED, s)
      else let s = s\<lparr>g_sched_lock := g_sched_lock s - 1\<rparr>
           in if g_sched_lock s > 0 then (RHINO_SCHED_DISABLE, s)
              else (RHINO_SUCCESS, core_sched s))"

definition KSCHED_FIFO :: u8 where
  "KSCHED_FIFO = 0"

definition KSCHED_RR :: u8 where
  "KSCHED_RR = 1"

definition time_slice_upd :: "kernel \<Rightarrow> kernel" where
  "time_slice_upd s =
     (let task_pri = prio (tasks s (g_active_task s));
          head = cur_list_item (g_ready_queue s) task_pri
      in case head of
           [] \<Rightarrow> s
         | task # rest \<Rightarrow>
             if sched_policy (tasks s task) = KSCHED_FIFO then s
             else if rest = [] then s
             else let s = (if time_slice (tasks s task) > 0
                           then upd_task task (\<lambda>k. k\<lparr>time_slice := time_slice k - 1\<rparr>) s else s)
                  in if time_slice (tasks s task) > 0 then s
                     else let s = ready_list_head_to_tail task s
                          in upd_task task (\<lambda>k. k\<lparr>time_slice := time_total k\<rparr>) s)"

section \<open>Well-formed ready queues\<close>

definition rq_ok :: "runqueue \<Rightarrow> bool" where
  "rq_ok rq \<longleftrightarrow>
     length (task_bit_map rq) = 2
     \<and> (\<forall>p. distinct (cur_list_item rq p))
     \<and> (\<forall>p. bitmap_bit (task_bit_map rq) p \<longleftrightarrow> cur_list_item rq p \<noteq> [])
     \<and> (\<forall>p. cur_list_item rq p \<noteq> [] \<longrightarrow> highest_pri rq \<le> p \<and> p < RHINO_CONFIG_PRI_MAX)
     \<and> (cur_list_item rq (highest_pri rq) \<noteq> [] \<or> highest_pri rq = RHINO_CONFIG_PRI_MAX)"

text \<open>Some task is ready besides \<open>t\<close>.\<close>

definition other_ready :: "runqueue \<Rightarrow> tid \<Rightarrow> bool" where
  "other_ready rq t \<longleftrightarrow> (\<exists>p. \<exists>u \<in> set (cur_list_item rq p). u \<noteq> t)"

lemma rq_ok_init:
  assumes "\<forall>p. cur_list_item rq p = []" "task_bit_map rq = BITMAP_DECLARE RHINO_CONFIG_PRI_MAX"
  shows "rq_ok (runqueue_init rq)"
proof -
  have "length (task_bit_map rq) = 2"
    unfolding assms(2) by (simp add: BITMAP_DECLARE_def RHINO_CONFIG_PRI_MAX_def)
  moreover have "\<not> bitmap_bit (task_bit_map rq) p" for p
    unfolding assms(2) by (rule bitmap_bit_DECLARE)
  ultimately show ?thesis
    using assms(1) by (simp add: rq_ok_def runqueue_init_def)
qed

lemma rq_ok_nonempty:
  assumes "rq_ok rq" "cur_list_item rq p \<noteq> []"
  shows "p < RHINO_CONFIG_PRI_MAX" "highest_pri rq \<le> p" "cur_list_item rq (highest_pri rq) \<noteq> []"
  using assms by (auto simp: rq_ok_def)

lemma rq_add:
  assumes "rq_ok rq" "t \<notin> set (cur_list_item rq p)" "p < RHINO_CONFIG_PRI_MAX"
  shows "rq_ok (rq_add_tail rq p t)" "rq_ok (rq_add_head rq p t)"
    and "cur_list_item (rq_add_tail rq p t) = (cur_list_item rq)(p := cur_list_item rq p @ [t])"
    and "cur_list_item (rq_add_head rq p t) = (cur_list_item rq)(p := t # cur_list_item rq p)"
proof -
  have b: "p < 32 * length (task_bit_map rq)"
    using assms by (simp add: rq_ok_def RHINO_CONFIG_PRI_MAX_def)
  have "rq_ok (ready_list_init rq p t)" if "cur_list_item rq p = []"
    using assms that rpb.has_bset [OF b]
    by (auto simp: rq_ok_def ready_list_init_def rpb.bound_bset)
  then show "rq_ok (rq_add_tail rq p t)" "rq_ok (rq_add_head rq p t)"
    using assms by (auto simp: rq_add_tail_def rq_add_head_def is_ready_list_empty_def rq_ok_def)
  show "cur_list_item (rq_add_tail rq p t) = (cur_list_item rq)(p := cur_list_item rq p @ [t])"
    "cur_list_item (rq_add_head rq p t) = (cur_list_item rq)(p := t # cur_list_item rq p)"
    by (simp_all add: rq_add_tail_def rq_add_head_def is_ready_list_empty_def ready_list_init_def)
qed

lemma rq_rm_single:
  assumes ok: "rq_ok rq" and x: "cur_list_item rq p = [t]" and other: "other_ready rq t"
  shows "\<exists>rq'. rq_rm rq p t = Some rq' \<and> rq_ok rq' \<and> cur_list_item rq' = (cur_list_item rq)(p := [])"
proof -
  let ?bm = "krhino_bitmap_clear (task_bit_map rq) p"
  have "p < RHINO_CONFIG_PRI_MAX" using rq_ok_nonempty(1) [OF ok, of p] x by simp
  moreover have "length (task_bit_map rq) = 2" using ok by (simp add: rq_ok_def)
  ultimately have b: "p < 32 * length (task_bit_map rq)" by (simp add: RHINO_CONFIG_PRI_MAX_def)
  have bits: "bitmap_bit ?bm q \<longleftrightarrow> q \<noteq> p \<and> cur_list_item rq q \<noteq> []" for q
    using ok rpb.has_bclear [OF b] by (simp add: rq_ok_def)
  obtain q u where "u \<in> set (cur_list_item rq q)" "u \<noteq> t"
    using other by (auto simp: other_ready_def)
  then have q: "q \<noteq> p" "cur_list_item rq q \<noteq> []" using x by auto
  show ?thesis
  proof (cases "p = highest_pri rq")
    case False
    then show ?thesis
      using ok x bits by (auto simp: rq_rm_def Let_def rq_ok_def rpb.bound_bclear)
  next
    case True
    obtain i where i: "krhino_find_first_bit ?bm = Some i"
      using rpb.first_None [of ?bm] bits q by (cases "krhino_find_first_bit ?bm") auto
    have "bitmap_bit ?bm i" "\<And>k. bitmap_bit ?bm k \<Longrightarrow> i \<le> k"
      using rpb.first_has [OF i] rpb.first_least [OF i] by (auto simp: not_less [symmetric])
    with True i show ?thesis
      using ok x bits by (auto simp: rq_rm_def Let_def rq_ok_def rpb.bound_bclear)
  qed
qed

lemma rq_rm:
  assumes ok: "rq_ok rq" and t: "t \<in> set (cur_list_item rq p)" and other: "other_ready rq t"
  shows "\<exists>rq'. rq_rm rq p t = Some rq' \<and> rq_ok rq'
    \<and> cur_list_item rq' = (cur_list_item rq)(p := remove1 t (cur_list_item rq p))"
proof (cases "cur_list_item rq p = [t]")
  case True
  with rq_rm_single [OF ok True other] show ?thesis by simp
next
  case False
  then obtain x y xs where l: "cur_list_item rq p = x # y # xs"
    using t by (cases "cur_list_item rq p" rule: list.exhaust; cases "tl (cur_list_item rq p)") auto
  have "rq_rm rq p t = Some (rq\<lparr>cur_list_item := (cur_list_item rq)(p := remove1 t (x # y # xs))\<rparr>)"
    using t l by (simp add: rq_rm_def)
  moreover have "remove1 t (x # y # xs) \<noteq> []" by auto
  moreover have "distinct (remove1 t (x # y # xs))"
    using ok l by (metis rq_ok_def distinct_remove1)
  ultimately show ?thesis
    using ok l by (auto simp: rq_ok_def simp del: remove1.simps)
qed

lemma rq_rotate:
  assumes "rq_ok rq" "cur_list_item rq p \<noteq> []"
  shows "\<exists>rq'. rq_head_to_tail rq p = Some rq' \<and> rq_ok rq'
    \<and> cur_list_item rq' = (cur_list_item rq)(p := rotate1 (cur_list_item rq p))"
  using assms by (auto simp: rq_head_to_tail_def rq_ok_def)

lemma rq_preferred:
  assumes "rq_ok rq" "cur_list_item rq p \<noteq> []"
  shows "preferred_cpu_ready_task_get rq = Some (hd (cur_list_item rq (highest_pri rq)))"
    and "cur_list_item rq (highest_pri rq) \<noteq> []" and "highest_pri rq \<le> p"
  using rq_ok_nonempty [OF assms]
  by (auto simp: preferred_cpu_ready_task_get_def split: list.split)

section \<open>Priority lanes\<close>

text \<open>
  The interface of a ready queue: a list of tasks per priority, additions at either end,
  removal, rotation, and the most urgent task.
\<close>

locale priority_lanes =
  fixes ok :: "'q \<Rightarrow> bool"
    and lane :: "'q \<Rightarrow> nat \<Rightarrow> 't list"
    and bound :: nat
    and add_tail :: "'q \<Rightarrow> nat \<Rightarrow> 't \<Rightarrow> 'q"
    and add_head :: "'q \<Rightarrow> nat \<Rightarrow> 't \<Rightarrow> 'q"
    and rm :: "'q \<Rightarrow> nat \<Rightarrow> 't \<Rightarrow> 'q option"
    and rotate :: "'q \<Rightarrow> nat \<Rightarrow> 'q option"
    and top :: "'q \<Rightarrow> 't option"
  assumes lane_distinct: "ok q \<Longrightarrow> distinct (lane q p)"
    and lane_bound: "ok q \<Longrightarrow> lane q p \<noteq> [] \<Longrightarrow> p < bound"
    and add_tail: "ok q \<Longrightarrow> t \<notin> set (lane q p) \<Longrightarrow> p < bound \<Longrightarrow>
      ok (add_tail q p t) \<and> lane (add_tail q p t) = (lane q)(p := lane q p @ [t])"
    and add_head: "ok q \<Longrightarrow> t \<notin> set (lane q p) \<Longrightarrow> p < bound \<Longrightarrow>
      ok (add_head q p t) \<and> lane (add_head q p t) = (lane q)(p := t # lane q p)"
    and rm: "ok q \<Longrightarrow> t \<in> set (lane q p) \<Longrightarrow> u \<in> set (lane q r) \<Longrightarrow> u \<noteq> t \<Longrightarrow>
      \<exists>q'. rm q p t = Some q' \<and> ok q' \<and> lane q' = (lane q)(p := remove1 t (lane q p))"
    and rotate: "ok q \<Longrightarrow> lane q p \<noteq> [] \<Longrightarrow>
      \<exists>q'. rotate q p = Some q' \<and> ok q' \<and> lane q' = (lane q)(p := rotate1 (lane q p))"
    and top: "ok q \<Longrightarrow> lane q p \<noteq> [] \<Longrightarrow>
      \<exists>r \<le> p. lane q r \<noteq> [] \<and> top q = Some (hd (lane q r)) \<and> (\<forall>r' < r. lane q r' = [])"
begin

lemma top_add_tail_other:
  assumes "ok q" "top q = Some u" "u \<in> set (lane q r)" "t \<notin> set (lane q p)" "r \<le> p" "p < bound"
    and "\<forall>r' < r. lane q r' = []"
  shows "top (add_tail q p t) = Some u"
proof -
  have q: "ok (add_tail q p t)" "lane (add_tail q p t) = (lane q)(p := lane q p @ [t])"
    using add_tail assms by auto
  have ne: "lane q r \<noteq> []" using assms(3) by auto
  obtain r1 where r1: "r1 \<le> r" "lane q r1 \<noteq> []" "top q = Some (hd (lane q r1))"
    using top [OF assms(1) ne] by blast
  then have "r1 = r" using assms(7) by (metis le_neq_implies_less)
  then have u: "u = hd (lane q r)" using r1(3) assms(2) by simp
  obtain r2 where r2: "r2 \<le> r" "lane (add_tail q p t) r2 \<noteq> []"
    "top (add_tail q p t) = Some (hd (lane (add_tail q p t) r2))"
    using top [OF q(1), of r] ne q(2) by (metis append_is_Nil_conv fun_upd_apply)
  then have "r2 = r" using q(2) assms(5,7) by (metis fun_upd_other le_neq_implies_less less_le_trans less_irrefl)
  then show ?thesis using r2 u q(2) ne by (cases "p = r") auto
qed

text \<open>An addition at the head of the most urgent list takes over.\<close>

lemma top_add_head:
  assumes "ok q" "t \<notin> set (lane q p)" "p < bound" "\<forall>r < p. lane q r = []"
  shows "top (add_head q p t) = Some t"
proof -
  have q: "ok (add_head q p t)" "lane (add_head q p t) = (lane q)(p := t # lane q p)"
    using add_head assms by auto
  obtain r where r: "r \<le> p" "lane (add_head q p t) r \<noteq> []"
    "top (add_head q p t) = Some (hd (lane (add_head q p t) r))"
    using top [OF q(1), of p] q(2) by auto
  then have "r = p" using q(2) assms(4) by (metis fun_upd_other le_neq_implies_less)
  with r q(2) show ?thesis by simp
qed

end

interpretation rql: priority_lanes rq_ok cur_list_item RHINO_CONFIG_PRI_MAX rq_add_tail rq_add_head
  rq_rm rq_head_to_tail preferred_cpu_ready_task_get
proof (unfold_locales, goal_cases)
  case (1 q p)
  then show ?case by (simp add: rq_ok_def)
next
  case (2 q p)
  then show ?case by (rule rq_ok_nonempty)
next
  case (3 q t p)
  then show ?case by (simp add: rq_add)
next
  case (4 q t p)
  then show ?case by (simp add: rq_add)
next
  case (5 q t p u r)
  then show ?case by (intro rq_rm) (auto simp: other_ready_def)
next
  case (6 q p)
  then show ?case by (rule rq_rotate)
next
  case (7 q p)
  have "cur_list_item q r' = []" if "r' < highest_pri q" for r'
    using rq_ok_nonempty(2) [OF 7(1), of r'] that by fastforce
  then show ?case using rq_preferred [OF 7] by blast
qed

section \<open>Ready queue and task states\<close>

text \<open>The tasks on the ready list of a priority are the ready tasks of that priority.\<close>

definition rdy_ok :: "runqueue \<Rightarrow> (tid \<Rightarrow> ktask) \<Rightarrow> bool" where
  "rdy_ok rq T \<longleftrightarrow> rq_ok rq
     \<and> (\<forall>p t. t \<in> set (cur_list_item rq p) \<longleftrightarrow> ready (T t) \<and> prio (T t) = p)"

named_theorems rdy_intros

lemma rdy_ok_same [rdy_intros]:
  "\<lbrakk>rdy_ok rq T; task_state k = task_state (T t); prio k = prio (T t)\<rbrakk> \<Longrightarrow> rdy_ok rq (T(t := k))"
  by (simp add: rdy_ok_def ready_def)

lemma rdy_ok_idle_change [rdy_intros]:
  "\<lbrakk>rdy_ok rq T; \<not> ready (T t); \<not> ready k\<rbrakk> \<Longrightarrow> rdy_ok rq (T(t := k))"
  by (simp add: rdy_ok_def)

lemma rdy_ok_mem: "rdy_ok rq T \<Longrightarrow> t \<in> set (cur_list_item rq p) \<longleftrightarrow> ready (T t) \<and> prio (T t) = p"
  by (simp add: rdy_ok_def)

lemma rdy_ok_add [rdy_intros]:
  assumes "rdy_ok rq T" "\<not> ready (T t)" "ready k" "prio k = p" "p < RHINO_CONFIG_PRI_MAX"
  shows "rdy_ok (rq_add_tail rq p t) (T(t := k))" "rdy_ok (rq_add_head rq p t) (T(t := k))"
proof -
  have n: "t \<notin> set (cur_list_item rq q)" for q
    using assms(1,2) by (simp add: rdy_ok_def)
  have "rq_ok rq" using assms(1) by (simp add: rdy_ok_def)
  note rq = rq_add [OF this n assms(5)]
  show "rdy_ok (rq_add_tail rq p t) (T(t := k))" "rdy_ok (rq_add_head rq p t) (T(t := k))"
    using assms n rq by (auto simp: rdy_ok_def)
qed

definition some_other_ready :: "(tid \<Rightarrow> ktask) \<Rightarrow> tid \<Rightarrow> bool" where
  "some_other_ready T t \<longleftrightarrow> (\<exists>u. u \<noteq> t \<and> ready (T u))"

lemma rdy_ok_rm:
  assumes "rdy_ok rq T" "ready (T t)" "some_other_ready T t"
  shows "\<exists>rq'. rq_rm rq (prio (T t)) t = Some rq' \<and> (\<forall>k. \<not> ready k \<longrightarrow> rdy_ok rq' (T(t := k)))
    \<and> cur_list_item rq' = (cur_list_item rq)(prio (T t) := remove1 t (cur_list_item rq (prio (T t))))"
proof -
  have ok: "rq_ok rq" and mem: "t \<in> set (cur_list_item rq (prio (T t)))"
    using assms by (auto simp: rdy_ok_def)
  have "other_ready rq t"
    using assms(1,3) by (auto simp: rdy_ok_def other_ready_def some_other_ready_def)
  then obtain rq' where rq': "rq_rm rq (prio (T t)) t = Some rq'" "rq_ok rq'"
    "cur_list_item rq' = (cur_list_item rq)(prio (T t) := remove1 t (cur_list_item rq (prio (T t))))"
    using rq_rm [OF ok mem] by blast
  have "distinct (cur_list_item rq (prio (T t)))" using ok by (simp add: rq_ok_def)
  then have "rdy_ok rq' (T(t := k))" if "\<not> ready k" for k
    using assms(1) that rq'(2,3) by (auto simp: rdy_ok_def)
  with rq' show ?thesis by blast
qed

lemma rdy_ok_rotate:
  assumes "rdy_ok rq T" "cur_list_item rq p \<noteq> []"
  shows "\<exists>rq'. rq_head_to_tail rq p = Some rq' \<and> rdy_ok rq' T
    \<and> cur_list_item rq' = (cur_list_item rq)(p := rotate1 (cur_list_item rq p))"
proof -
  have "rq_ok rq" using assms by (simp add: rdy_ok_def)
  from rq_rotate [OF this assms(2)] obtain rq' where
    "rq_head_to_tail rq p = Some rq'" "rq_ok rq'"
    "cur_list_item rq' = (cur_list_item rq)(p := rotate1 (cur_list_item rq p))" by blast
  with assms(1) show ?thesis by (auto simp: rdy_ok_def)
qed

text \<open>\<^verbatim>\<open>ready_list_add\<close> as one update: at the tail when \<open>b\<close> holds, else at the head.\<close>

definition rq_add :: "bool \<Rightarrow> runqueue \<Rightarrow> nat \<Rightarrow> tid \<Rightarrow> runqueue" where
  "rq_add b rq p t = (if b then rq_add_tail rq p t else rq_add_head rq p t)"

lemma ready_list_add_eq:
  "ready_list_add t s = s\<lparr>g_ready_queue := rq_add (prio (tasks s t) = prio (tasks s (g_active_task s)))
     (g_ready_queue s) (prio (tasks s t)) t\<rparr>"
  by (simp add: ready_list_add_def ready_list_add_tail_def ready_list_add_head_def rq_add_def)

lemma rdy_ok_rq_add:
  "\<lbrakk>rdy_ok rq T; \<not> ready (T t); ready k; prio k = p; p < RHINO_CONFIG_PRI_MAX\<rbrakk> \<Longrightarrow>
     rdy_ok (rq_add b rq p t) (T(t := k))"
  by (simp add: rq_add_def rdy_ok_add)

end
