(* ===== verification/Rhino_Pend.thy ===== *)
theory Rhino_Pend
  imports Rhino_Sched
begin

text \<open>
  Blocking and waking: the tick list of \<^verbatim>\<open>kernel/rhino/core/k_tick.c\<close> (insertion and removal)
  and the pend operations of \<^verbatim>\<open>kernel/rhino/core/k_pend.c\<close>.

  \<open>blk_ok\<close> says that the block list of an object holds exactly the tasks that pend on it, in
  order of priority where the object asks for it; \<open>tick_ok\<close> says that the tick list holds the
  tasks with a timeout, in order of the time left.  With \<open>rdy_ok\<close> they make up \<open>base_ok\<close>, which
  the blocking and waking operations keep.  \<open>wake\<close> is what the two ways of waking a pending
  task amount to in such a state.
\<close>

section \<open>The tick list\<close>

definition tick_list_init :: "kernel \<Rightarrow> kernel" where
  "tick_list_init s = s\<lparr>g_tick_head := []\<rparr>"

definition tick_list_pri_insert :: "tid \<Rightarrow> kernel \<Rightarrow> kernel" where
  "tick_list_pri_insert t s =
     (let val = tick_remain (tasks s t)
      in s\<lparr>g_tick_head :=
            insert_before_first (\<lambda>q. tick_match (tasks s q) - g_tick_count s > val) t (g_tick_head s)\<rparr>)"

definition tick_list_insert :: "tid \<Rightarrow> tick_t \<Rightarrow> kernel \<Rightarrow> kernel" where
  "tick_list_insert t time s =
     (if time > 0 then
        let s = upd_task t (\<lambda>k. k\<lparr>tick_match := g_tick_count s + time, tick_remain := time\<rparr>) s;
            s = tick_list_pri_insert t s
        in upd_task t (\<lambda>k. k\<lparr>tick_head := True\<rparr>) s
      else s)"

definition tick_list_rm :: "tid \<Rightarrow> kernel \<Rightarrow> kernel" where
  "tick_list_rm t s =
     (if tick_head (tasks s t) then
        let s = (if t \<in> set (g_tick_head s) then s\<lparr>g_tick_head := remove1 t (g_tick_head s)\<rparr> else fault s)
        in upd_task t (\<lambda>k. k\<lparr>tick_head := False\<rparr>) s
      else s)"

section \<open>Block lists\<close>

definition pend_list_add :: "oid \<Rightarrow> tid \<Rightarrow> kernel \<Rightarrow> kernel" where
  "pend_list_add i t s =
     upd_obj i (\<lambda>b. b\<lparr>blk_list := insert_before_first (\<lambda>q. prio (tasks s q) > prio (tasks s t)) t (blk_list b)\<rparr>) s"

text \<open>\<^verbatim>\<open>klist_rm(&task->task_list)\<close> on a task that is on the block list of the object it pends on.\<close>

definition blk_list_rm :: "tid \<Rightarrow> kernel \<Rightarrow> kernel" where
  "blk_list_rm t s =
     (let i = blk_obj (tasks s t)
      in if t \<in> set (blk_list (objs s i)) then upd_obj i (\<lambda>b. b\<lparr>blk_list := remove1 t (blk_list b)\<rparr>) s
         else fault s)"

definition pend_task_wakeup :: "tid \<Rightarrow> kernel \<Rightarrow> kernel" where
  "pend_task_wakeup t s =
     (let s = (case task_state (tasks s t) of
                 K_PEND \<Rightarrow>
                   upd_task t (\<lambda>k. k\<lparr>task_state := K_RDY\<rparr>) (ready_list_add t (blk_list_rm t s))
               | K_PEND_SUSPENDED \<Rightarrow>
                   upd_task t (\<lambda>k. k\<lparr>task_state := K_SUSPENDED\<rparr>) (blk_list_rm t s)
               | _ \<Rightarrow> k_err_proc RHINO_SYS_FATAL_ERR s);
          s = tick_list_rm t s
      in upd_task t (\<lambda>k. k\<lparr>blk_state := BLK_FINISH, blk_obj := NULL\<rparr>) s)"

definition pend_to_blk_obj :: "oid \<Rightarrow> tid \<Rightarrow> tick_t \<Rightarrow> kernel \<Rightarrow> kernel" where
  "pend_to_blk_obj i t timeout s =
     (let s = upd_task t (\<lambda>k. k\<lparr>blk_obj := i\<rparr>) s;
          s = (if timeout \<noteq> RHINO_WAIT_FOREVER then tick_list_insert t timeout s else s);
          s = upd_task t (\<lambda>k. k\<lparr>task_state := K_PEND\<rparr>) s;
          s = ready_list_rm t s
      in if blk_policy (objs s i) = BLK_POLICY_FIFO
         then upd_obj i (\<lambda>b. b\<lparr>blk_list := blk_list b @ [t]\<rparr>) s
         else pend_list_add i t s)"

definition pend_task_rm :: "tid \<Rightarrow> kernel \<Rightarrow> kernel" where
  "pend_task_rm t s =
     (let s = (case task_state (tasks s t) of
                 K_PEND \<Rightarrow>
                   upd_task t (\<lambda>k. k\<lparr>task_state := K_RDY\<rparr>) (ready_list_add t (blk_list_rm t s))
               | K_PEND_SUSPENDED \<Rightarrow>
                   upd_task t (\<lambda>k. k\<lparr>task_state := K_SUSPENDED\<rparr>) (blk_list_rm t s)
               | _ \<Rightarrow> k_err_proc RHINO_SYS_FATAL_ERR s);
          s = tick_list_rm t s
      in upd_task t (\<lambda>k. k\<lparr>blk_state := BLK_DEL, blk_obj := NULL\<rparr>) s)"

definition pend_list_reorder :: "tid \<Rightarrow> kernel \<Rightarrow> kernel" where
  "pend_list_reorder t s =
     (if blk_policy (objs s (blk_obj (tasks s t))) = BLK_POLICY_PRI
      then pend_list_add (blk_obj (tasks s t)) t (blk_list_rm t s)
      else s)"

definition pend_state_end_proc :: "tid \<Rightarrow> kernel \<Rightarrow> kstat \<times> kernel" where
  "pend_state_end_proc t s =
     (case blk_state (tasks s t) of
        BLK_FINISH \<Rightarrow> (RHINO_SUCCESS, s)
      | BLK_ABORT \<Rightarrow> (RHINO_BLK_ABORT, s)
      | BLK_TIMEOUT \<Rightarrow> (RHINO_BLK_TIMEOUT, s)
      | BLK_DEL \<Rightarrow> (RHINO_BLK_DEL, s)
      | BLK_INVALID \<Rightarrow> (RHINO_BLK_INV_STATE, k_err_proc RHINO_BLK_INV_STATE s))"

text \<open>
  The loops \<^verbatim>\<open>while (!is_klist_empty(blk_list_head))\<close> of the object operations treat the first
  task until none is left.  A round that does not shorten the list would be repeated for ever.
\<close>

function wake_all :: "(tid \<Rightarrow> kernel \<Rightarrow> kernel) \<Rightarrow> oid \<Rightarrow> kernel \<Rightarrow> kernel" where
  "wake_all f i s =
     (case blk_list (objs s i) of
        [] \<Rightarrow> s
      | t # ts \<Rightarrow>
          let s' = f t s
          in if length (blk_list (objs s' i)) < length (blk_list (objs s i)) then wake_all f i s'
             else fault s')"
  by pat_completeness auto
termination
  by (relation "measure (\<lambda>(f, i, s). length (blk_list (objs s i)))") auto

declare wake_all.simps [simp del]

section \<open>Invariants\<close>

definition blk_ok :: "(oid \<Rightarrow> blk_obj_t) \<Rightarrow> (tid \<Rightarrow> ktask) \<Rightarrow> bool" where
  "blk_ok B T \<longleftrightarrow>
     (\<forall>i. distinct (blk_list (B i)))
     \<and> (\<forall>i t. t \<in> set (blk_list (B i)) \<longleftrightarrow> pended (T t) \<and> blk_obj (T t) = i)
     \<and> (\<forall>i. blk_policy (B i) = BLK_POLICY_PRI \<longrightarrow> sorted (map (\<lambda>t. prio (T t)) (blk_list (B i))))"

text \<open>Only the objects in \<open>X\<close> may have waiting tasks while they are not of any type.\<close>

definition none_ok :: "oid set \<Rightarrow> (oid \<Rightarrow> blk_obj_t) \<Rightarrow> bool" where
  "none_ok X B \<longleftrightarrow> (\<forall>i. i \<notin> X \<longrightarrow> obj_type (B i) = RHINO_OBJ_TYPE_NONE \<longrightarrow> blk_list (B i) = [])"

definition tick_ok :: "tid list \<Rightarrow> tick_t \<Rightarrow> (tid \<Rightarrow> ktask) \<Rightarrow> bool" where
  "tick_ok ts now T \<longleftrightarrow>
     distinct ts
     \<and> (\<forall>t. t \<in> set ts \<longleftrightarrow> tick_head (T t))
     \<and> (\<forall>t. tick_head (T t) \<longrightarrow> pended (T t) \<or> sleeping (T t))
     \<and> (\<forall>t. sleeping (T t) \<longrightarrow> tick_head (T t))
     \<and> (\<forall>t. tick_head (T t) \<longrightarrow> tick_match (T t) \<noteq> now)
     \<and> sorted (map (\<lambda>t. tick_match (T t) - now) ts)"

definition prio_ok :: "(tid \<Rightarrow> ktask) \<Rightarrow> bool" where
  "prio_ok T \<longleftrightarrow> (\<forall>t. live (T t) \<longrightarrow> prio (T t) < RHINO_CONFIG_PRI_MAX)"

interpretation pl: stable_insert "\<lambda>u. prio (T u)"
  "\<lambda>e. insert_before_first (\<lambda>x. prio (T e) < prio (T x)) e" for T :: "tid \<Rightarrow> ktask"
  by unfold_locales simp

interpretation tkl: stable_insert "\<lambda>u. tick_match (T u) - now"
  "\<lambda>e. insert_before_first (\<lambda>x. tick_match (T e) - now < tick_match (T x) - now) e"
  for T :: "tid \<Rightarrow> ktask" and now :: tick_t
  by unfold_locales simp

subsection \<open>Block lists\<close>

named_theorems blk_intros
named_theorems tick_intros

lemma map_fun_upd_cong:
  "(t \<in> set xs \<Longrightarrow> f k = f (T t)) \<Longrightarrow> map (\<lambda>u. f ((T(t := k)) u)) xs = map (\<lambda>u. f (T u)) xs"
  by (rule map_cong) auto

lemma sorted_prio_upd:
  "(t \<in> set xs \<Longrightarrow> prio k = prio (T t)) \<Longrightarrow>
     sorted (map (\<lambda>u. prio ((T(t := k)) u)) xs) \<longleftrightarrow> sorted (map (\<lambda>u. prio (T u)) xs)"
  by (simp only: map_fun_upd_cong [of t xs prio])

lemma blk_okI:
  assumes "\<And>i. distinct (blk_list (B i))"
    and "\<And>i t. t \<in> set (blk_list (B i)) \<longleftrightarrow> pended (T t) \<and> blk_obj (T t) = i"
    and "\<And>i. blk_policy (B i) = BLK_POLICY_PRI \<Longrightarrow> sorted (map (\<lambda>t. prio (T t)) (blk_list (B i)))"
  shows "blk_ok B T"
  using assms by (simp add: blk_ok_def)

lemma blk_okD:
  assumes "blk_ok B T"
  shows "distinct (blk_list (B i))"
    and "t \<in> set (blk_list (B i)) \<longleftrightarrow> pended (T t) \<and> blk_obj (T t) = i"
    and "blk_policy (B i) = BLK_POLICY_PRI \<Longrightarrow> sorted (map (\<lambda>t. prio (T t)) (blk_list (B i)))"
  using assms by (simp_all add: blk_ok_def)

lemma sorted_map_remove1: "sorted (map f xs) \<Longrightarrow> sorted (map f (remove1 x xs))"
  by (induction xs) (auto dest: notin_set_remove1 [THEN contrapos_nn] in_set_remove1 [THEN iffD1, rotated])

lemma blk_ok_same [blk_intros]:
  assumes "blk_ok B T" "pended k = pended (T t)"
    and "pended (T t) \<Longrightarrow> blk_obj k = blk_obj (T t) \<and> prio k = prio (T t)"
  shows "blk_ok B (T(t := k))"
proof (rule blk_okI)
  fix i u
  show "distinct (blk_list (B i))" using blk_okD(1) [OF assms(1)] .
  show "u \<in> set (blk_list (B i)) \<longleftrightarrow> pended ((T(t := k)) u) \<and> blk_obj ((T(t := k)) u) = i"
    using assms(2,3) by (auto simp: blk_okD(2) [OF assms(1)])
  assume "blk_policy (B i) = BLK_POLICY_PRI"
  from blk_okD(3) [OF assms(1) this]
  show "sorted (map (\<lambda>u. prio ((T(t := k)) u)) (blk_list (B i)))"
    using assms(3) blk_okD(2) [OF assms(1)] by (subst sorted_prio_upd) blast+
qed

lemma blk_ok_rm [blk_intros]:
  assumes "blk_ok B T" "pended (T t)" "\<not> pended k" "i = blk_obj (T t)"
  shows "blk_ok (B(i := (B i)\<lparr>blk_list := remove1 t (blk_list (B i))\<rparr>)) (T(t := k))"
    (is "blk_ok ?B _")
proof (rule blk_okI)
  fix j u
  note D = blk_okD [OF assms(1)]
  show "distinct (blk_list (?B j))" using D(1) by simp
  show mem: "u \<in> set (blk_list (?B j)) \<longleftrightarrow> pended ((T(t := k)) u) \<and> blk_obj ((T(t := k)) u) = j" for u
    using assms(2-4) D(1) by (auto simp: D(2))
  assume "blk_policy (?B j) = BLK_POLICY_PRI"
  then have "blk_policy (B j) = BLK_POLICY_PRI" by (simp split: if_splits)
  then have "sorted (map (\<lambda>u. prio (T u)) (blk_list (?B j)))"
    using D(3) by (auto intro: sorted_map_remove1)
  moreover have "t \<notin> set (blk_list (?B j))" using mem [of t] assms(3) by simp
  ultimately show "sorted (map (\<lambda>u. prio ((T(t := k)) u)) (blk_list (?B j)))"
    by (subst sorted_prio_upd) blast+
qed

lemma blk_ok_add:
  assumes "blk_ok B T" "\<not> pended (T t)" "pended k" "blk_obj k = i"
    and "distinct xs" "set xs = insert t (set (blk_list (B i)))"
    and "blk_policy (B i) = BLK_POLICY_PRI \<Longrightarrow> sorted (map (\<lambda>u. prio ((T(t := k)) u)) xs)"
  shows "blk_ok (B(i := (B i)\<lparr>blk_list := xs\<rparr>)) (T(t := k))" (is "blk_ok ?B _")
proof (rule blk_okI)
  fix j u
  note D = blk_okD [OF assms(1)]
  show "distinct (blk_list (?B j))" using D(1) assms(5) by simp
  show "u \<in> set (blk_list (?B j)) \<longleftrightarrow> pended ((T(t := k)) u) \<and> blk_obj ((T(t := k)) u) = j"
    using assms(2-4,6) by (auto simp: D(2))
  assume p: "blk_policy (?B j) = BLK_POLICY_PRI"
  have "t \<notin> set (blk_list (B j))" using D(2) assms(2) by simp
  then show "sorted (map (\<lambda>u. prio ((T(t := k)) u)) (blk_list (?B j)))"
    using p assms(7) D(3) sorted_prio_upd [of t "blk_list (B j)" k T] by (cases "j = i") auto
qed

lemma blk_ok_insert:
  assumes "blk_ok B T" "\<not> pended (T t)" "pended k" "blk_obj k = i"
  defines "xs \<equiv> insert_before_first (\<lambda>q. prio ((T(t := k)) q) > prio ((T(t := k)) t)) t (blk_list (B i))"
  shows "blk_ok (B(i := (B i)\<lparr>blk_list := xs\<rparr>)) (T(t := k))"
proof (rule blk_ok_add [OF assms(1-4)])
  have n: "t \<notin> set (blk_list (B i))"
    using blk_okD(2) [OF assms(1)] assms(2) by simp
  then show "distinct xs" "set xs = insert t (set (blk_list (B i)))"
    using assms(1) by (simp_all add: xs_def blk_ok_def)
  assume "blk_policy (B i) = BLK_POLICY_PRI"
  then have "sorted (map (\<lambda>u. prio ((T(t := k)) u)) (blk_list (B i)))"
    using n blk_okD(3) [OF assms(1)] by (subst sorted_prio_upd) blast+
  then show "sorted (map (\<lambda>u. prio ((T(t := k)) u)) xs)"
    unfolding xs_def by (rule pl.sorted_ins)
qed

lemma blk_ok_append:
  assumes "blk_ok B T" "\<not> pended (T t)" "pended k" "blk_obj k = i" "blk_policy (B i) = BLK_POLICY_FIFO"
  shows "blk_ok (B(i := (B i)\<lparr>blk_list := blk_list (B i) @ [t]\<rparr>)) (T(t := k))"
  using assms blk_okD(2) [OF assms(1)] by (intro blk_ok_add) (auto simp: blk_ok_def)

text \<open>A change of priority of a pending task, with its new place in a list by priority.\<close>

lemma blk_ok_reinsert:
  assumes "blk_ok B T" "pended (T t)" "pended k" "blk_obj k = blk_obj (T t)" "i = blk_obj (T t)"
  defines "xs \<equiv> insert_before_first (\<lambda>q. prio ((T(t := k)) q) > prio ((T(t := k)) t)) t (remove1 t (blk_list (B i)))"
  shows "blk_ok (B(i := (B i)\<lparr>blk_list := xs\<rparr>)) (T(t := k))"
proof -
  define k0 where "k0 = (T t)\<lparr>task_state := K_RDY\<rparr>"
  let ?B = "B(i := (B i)\<lparr>blk_list := remove1 t (blk_list (B i))\<rparr>)"
  have k0: "\<not> pended k0" by (simp add: k0_def pended_def)
  have "blk_ok ?B (T(t := k0))"
    using assms k0 by (intro blk_ok_rm) auto
  from blk_ok_insert [OF this, of t k i] k0 assms(3,4,5)
  show ?thesis by (simp add: xs_def)
qed

lemma blk_ok_reprio_fifo:
  assumes "blk_ok B T" "pended (T t)" "pended k" "blk_obj k = blk_obj (T t)"
    and "blk_policy (B (blk_obj (T t))) \<noteq> BLK_POLICY_PRI"
  shows "blk_ok B (T(t := k))"
proof (rule blk_okI)
  fix i u
  note D = blk_okD [OF assms(1)]
  show "distinct (blk_list (B i))" using D(1) .
  show "u \<in> set (blk_list (B i)) \<longleftrightarrow> pended ((T(t := k)) u) \<and> blk_obj ((T(t := k)) u) = i"
    using assms(2-4) by (auto simp: D(2))
  assume p: "blk_policy (B i) = BLK_POLICY_PRI"
  then have "t \<notin> set (blk_list (B i))" using assms(5) D(2) by auto
  then show "sorted (map (\<lambda>u. prio ((T(t := k)) u)) (blk_list (B i)))"
    using D(3) [OF p] by (subst sorted_prio_upd) blast+
qed

subsection \<open>The tick list\<close>

lemma tick_okD:
  assumes "tick_ok ts now T"
  shows "distinct ts" "t \<in> set ts \<longleftrightarrow> tick_head (T t)" "tick_head (T t) \<Longrightarrow> pended (T t) \<or> sleeping (T t)"
    and "sleeping (T t) \<Longrightarrow> tick_head (T t)" "tick_head (T t) \<Longrightarrow> tick_match (T t) \<noteq> now"
    and "sorted (map (\<lambda>t. tick_match (T t) - now) ts)"
  using assms by (simp_all add: tick_ok_def)

lemma tick_okI:
  assumes "distinct ts" "\<And>t. t \<in> set ts \<longleftrightarrow> tick_head (T t)"
    and "\<And>t. tick_head (T t) \<Longrightarrow> pended (T t) \<or> sleeping (T t)" "\<And>t. sleeping (T t) \<Longrightarrow> tick_head (T t)"
    and "\<And>t. tick_head (T t) \<Longrightarrow> tick_match (T t) \<noteq> now" "sorted (map (\<lambda>t. tick_match (T t) - now) ts)"
  shows "tick_ok ts now T"
  using assms by (simp add: tick_ok_def)

lemma sorted_tick_upd:
  "(t \<in> set ts \<Longrightarrow> tick_match k = tick_match (T t)) \<Longrightarrow>
     sorted (map (\<lambda>u. tick_match ((T(t := k)) u) - now) ts) \<longleftrightarrow> sorted (map (\<lambda>u. tick_match (T u) - now) ts)"
  by (simp only: map_fun_upd_cong [of t ts "\<lambda>k. tick_match k - now"])

lemma tick_ok_same:
  assumes "tick_ok ts now T" "tick_head k = tick_head (T t)"
    and "tick_head (T t) \<Longrightarrow> tick_match k = tick_match (T t) \<and> (pended k \<or> sleeping k)"
    and "sleeping k \<Longrightarrow> tick_head (T t)"
  shows "tick_ok ts now (T(t := k))"
proof (rule tick_okI)
  note D = tick_okD [OF assms(1)]
  show "sorted (map (\<lambda>u. tick_match ((T(t := k)) u) - now) ts)"
    using D(6) assms(3) D(2) by (subst sorted_tick_upd) auto
qed (use assms tick_okD [OF assms(1)] in \<open>auto split: if_splits\<close>)

lemma tick_ok_drop:
  assumes "tick_ok ts now T" "\<not> tick_head k" "\<not> sleeping k"
  shows "tick_ok (remove1 t ts) now (T(t := k))"
proof (rule tick_okI)
  note D = tick_okD [OF assms(1)]
  show "sorted (map (\<lambda>u. tick_match ((T(t := k)) u) - now) (remove1 t ts))"
    using D(1) sorted_map_remove1 [OF D(6)] by (subst sorted_tick_upd) auto
qed (use assms tick_okD [OF assms(1)] in \<open>auto split: if_splits\<close>)

lemma tick_ok_insert:
  assumes "tick_ok ts now T" "\<not> tick_head (T t)" "tick_head k" "pended k \<or> sleeping k"
    and "tick_match k = now + time" "time \<noteq> 0"
  shows "tick_ok (insert_before_first (\<lambda>q. tick_match (T q) - now > time) t ts) now (T(t := k))"
proof (rule tick_okI)
  note D = tick_okD [OF assms(1)]
  have n: "t \<notin> set ts" using D(2) assms(2) by simp
  have "insert_before_first (\<lambda>q. tick_match (T q) - now > time) t ts
      = insert_before_first (\<lambda>q. tick_match ((T(t := k)) t) - now < tick_match ((T(t := k)) q) - now) t ts"
    using n assms(5) by (intro insert_before_first_cong) auto
  moreover have "sorted (map (\<lambda>u. tick_match ((T(t := k)) u) - now) ts)"
    using n D(6) by (subst sorted_tick_upd) blast+
  ultimately show "sorted (map (\<lambda>u. tick_match ((T(t := k)) u) - now)
      (insert_before_first (\<lambda>q. tick_match (T q) - now > time) t ts))"
    using tkl.sorted_ins [of "T(t := k)" now ts t] by presburger
qed (use assms tick_okD [OF assms(1)] in \<open>auto split: if_splits\<close>)

subsection \<open>The three together\<close>

definition base_ok :: "kernel \<Rightarrow> bool" where
  "base_ok s \<longleftrightarrow> rdy_ok (g_ready_queue s) (tasks s) \<and> blk_ok (objs s) (tasks s)
     \<and> tick_ok (g_tick_head s) (g_tick_count s) (tasks s) \<and> prio_ok (tasks s) \<and> \<not> k_fault s"

lemma base_okD:
  assumes "base_ok s"
  shows "rdy_ok (g_ready_queue s) (tasks s)" "blk_ok (objs s) (tasks s)"
    and "tick_ok (g_tick_head s) (g_tick_count s) (tasks s)" "prio_ok (tasks s)" "\<not> k_fault s"
  using assms by (simp_all add: base_ok_def)

lemma prio_ok_upd: "\<lbrakk>prio_ok T; live k \<Longrightarrow> prio k < RHINO_CONFIG_PRI_MAX\<rbrakk> \<Longrightarrow> prio_ok (T(t := k))"
  by (simp add: prio_ok_def)

lemma pended_live: "pended k \<Longrightarrow> live k"
  by (auto simp: state_defs)

text \<open>The state after a pending task has been woken with the reason \<open>r\<close>.\<close>

definition wake :: "tid \<Rightarrow> blk_state_t \<Rightarrow> kernel \<Rightarrow> kernel" where
  "wake t r s =
     (let i = blk_obj (tasks s t); p = prio (tasks s t)
      in s\<lparr>g_ready_queue :=
             (if task_state (tasks s t) = K_PEND
              then rq_add (p = prio (tasks s (g_active_task s))) (g_ready_queue s) p t
              else g_ready_queue s),
           objs := (objs s)(i := (objs s i)\<lparr>blk_list := remove1 t (blk_list (objs s i))\<rparr>),
           g_tick_head := remove1 t (g_tick_head s),
           tasks := (tasks s)(t := (tasks s t)\<lparr>
             task_state := (if task_state (tasks s t) = K_PEND then K_RDY else K_SUSPENDED),
             tick_head := False, blk_state := r, blk_obj := NULL\<rparr>)\<rparr>)"

lemma blk_list_rm_eq:
  "t \<in> set (blk_list (objs s (blk_obj (tasks s t)))) \<Longrightarrow>
     blk_list_rm t s = s\<lparr>objs := (objs s)(blk_obj (tasks s t) :=
       (objs s (blk_obj (tasks s t)))\<lparr>blk_list := remove1 t (blk_list (objs s (blk_obj (tasks s t))))\<rparr>)\<rparr>"
  by (simp add: blk_list_rm_def upd_obj_def Let_def)

lemma tick_head_False_id: "\<not> tick_head k \<Longrightarrow> k\<lparr>tick_head := False\<rparr> = k"
  by (cases k) simp

lemma tick_list_rm_eq:
  "t \<in> set (g_tick_head s) \<longleftrightarrow> tick_head (tasks s t) \<Longrightarrow>
     tick_list_rm t s = s\<lparr>g_tick_head := remove1 t (g_tick_head s),
       tasks := (tasks s)(t := (tasks s t)\<lparr>tick_head := False\<rparr>)\<rparr>"
  by (auto simp: tick_list_rm_def upd_task_def remove1_idem tick_head_False_id)

lemma base_ok_mem:
  assumes "base_ok s"
  shows "pended (tasks s t) \<Longrightarrow> t \<in> set (blk_list (objs s (blk_obj (tasks s t))))"
    and "t \<in> set (g_tick_head s) \<longleftrightarrow> tick_head (tasks s t)"
  using blk_okD(2) [OF base_okD(2) [OF assms]] tick_okD(2) [OF base_okD(3) [OF assms]] by auto

lemma pend_task_wakeup_wake:
  assumes "base_ok s" "pended (tasks s t)"
  shows "pend_task_wakeup t s = wake t BLK_FINISH s" "pend_task_rm t s = wake t BLK_DEL s"
proof -
  note m = base_ok_mem(1) [OF assms] base_ok_mem(2) [OF assms(1), of t]
  have st: "task_state (tasks s t) = K_PEND \<or> task_state (tasks s t) = K_PEND_SUSPENDED"
    using assms(2) by (simp add: pended_def)
  note eqs = blk_list_rm_eq ready_list_add_eq tick_list_rm_eq upd_task_def m
  show "pend_task_wakeup t s = wake t BLK_FINISH s"
    using st by (elim disjE) (simp_all add: pend_task_wakeup_def wake_def Let_def eqs)
  show "pend_task_rm t s = wake t BLK_DEL s"
    using st by (elim disjE) (simp_all add: pend_task_rm_def wake_def Let_def eqs)
qed

lemma wake_base_ok:
  assumes "base_ok s" "pended (tasks s t)"
  shows "base_ok (wake t r s)"
proof -
  note D = base_okD [OF assms(1)]
  have "prio (tasks s t) < RHINO_CONFIG_PRI_MAX"
    using D(4) assms(2) pended_live by (auto simp: prio_ok_def)
  moreover have "\<not> ready (tasks s t)" using assms(2) by (auto simp: state_defs)
  ultimately have "rdy_ok (g_ready_queue (wake t r s)) (tasks (wake t r s))"
    using D(1) assms(2)
    by (cases "task_state (tasks s t) = K_PEND")
      (simp_all add: wake_def Let_def state_defs rdy_ok_rq_add rdy_ok_idle_change)
  moreover have "blk_ok (objs (wake t r s)) (tasks (wake t r s))"
    using D(2) assms(2) by (auto simp: wake_def Let_def pended_def intro!: blk_ok_rm)
  moreover have "tick_ok (g_tick_head (wake t r s)) (g_tick_count (wake t r s)) (tasks (wake t r s))"
    using D(3) by (auto simp: wake_def Let_def sleeping_def intro!: tick_ok_drop)
  moreover have "prio_ok (tasks (wake t r s))"
    using D(4) assms(2) pended_live [OF assms(2)]
    by (auto simp: wake_def Let_def prio_ok_def)
  moreover have "\<not> k_fault (wake t r s)" using D(5) by (simp add: wake_def Let_def)
  ultimately show ?thesis by (simp add: base_ok_def)
qed

subsection \<open>Waking all tasks of an object\<close>

text \<open>
  Changes of a task block that the lists do not depend on, such as the message a woken
  task finds.
\<close>

definition neutral :: "(ktask \<Rightarrow> ktask) \<Rightarrow> bool" where
  "neutral g \<longleftrightarrow> (\<forall>k. task_state (g k) = task_state k \<and> prio (g k) = prio k \<and> b_prio (g k) = b_prio k
     \<and> blk_obj (g k) = blk_obj k \<and> tick_head (g k) = tick_head k \<and> tick_match (g k) = tick_match k
     \<and> mutex_list (g k) = mutex_list k)"

lemma neutral_id [simp]: "neutral (\<lambda>k. k)"
  by (simp add: neutral_def)

lemma base_ok_task:
  assumes "base_ok s" "task_state k = task_state (tasks s t)" "prio k = prio (tasks s t)"
    and "blk_obj k = blk_obj (tasks s t)" "tick_head k = tick_head (tasks s t)" "tick_match k = tick_match (tasks s t)"
  shows "base_ok (s\<lparr>tasks := (tasks s)(t := k)\<rparr>)"
proof -
  note D = base_okD [OF assms(1)]
  have "rdy_ok (g_ready_queue s) ((tasks s)(t := k))"
    using D(1) assms(2,3) by (intro rdy_ok_same) auto
  moreover have "blk_ok (objs s) ((tasks s)(t := k))"
    using D(2) assms by (intro blk_ok_same) (auto simp: pended_def)
  moreover have "tick_ok (g_tick_head s) (g_tick_count s) ((tasks s)(t := k))"
    using D(3) tick_okD(3,4) [OF D(3), of t] assms
    by (intro tick_ok_same) (auto simp: pended_def sleeping_def)
  moreover have "prio_ok ((tasks s)(t := k))"
    using D(4) assms(2,3) by (auto simp: prio_ok_def live_def)
  ultimately show ?thesis using D(5) by (simp add: base_ok_def)
qed

lemma base_ok_neutral: "base_ok s \<Longrightarrow> neutral g \<Longrightarrow> base_ok (upd_task t g s)"
  by (simp add: upd_task_def base_ok_task neutral_def)

definition woken :: "blk_state_t \<Rightarrow> ktask \<Rightarrow> ktask" where
  "woken r k = k\<lparr>task_state := (if task_state k = K_PEND then K_RDY else K_SUSPENDED),
     tick_head := False, blk_state := r, blk_obj := NULL\<rparr>"

definition drained :: "oid \<Rightarrow> (oid \<Rightarrow> blk_obj_t) \<Rightarrow> oid \<Rightarrow> blk_obj_t" where
  "drained i B = B(i := (B i)\<lparr>blk_list := []\<rparr>)"

lemma wake_eq:
  "\<exists>q ts. wake t r s = s\<lparr>g_ready_queue := q, g_tick_head := ts,
     objs := (objs s)(blk_obj (tasks s t) := (objs s (blk_obj (tasks s t)))\<lparr>blk_list :=
       remove1 t (blk_list (objs s (blk_obj (tasks s t))))\<rparr>),
     tasks := (tasks s)(t := woken r (tasks s t))\<rparr>"
  by (rule exI [of _ "g_ready_queue (wake t r s)"], rule exI [of _ "g_tick_head (wake t r s)"])
    (simp add: wake_def woken_def Let_def)

lemma wake_all_step:
  "blk_list (objs s i) = t # ts \<Longrightarrow> blk_list (objs (f t s) i) = ts \<Longrightarrow> wake_all f i s = wake_all f i (f t s)"
  by (subst wake_all.simps) (simp add: Let_def)

lemma wake_all_spec:
  assumes f: "\<And>s t. base_ok s \<Longrightarrow> pended (tasks s t) \<Longrightarrow> f t s = wake t r (upd_task t g s)"
    and g: "neutral g" and s: "base_ok s"
  shows "base_ok (wake_all f i s)"
    and "\<exists>q ts. wake_all f i s = s\<lparr>g_ready_queue := q, g_tick_head := ts, objs := drained i (objs s),
      tasks := (\<lambda>u. if u \<in> set (blk_list (objs s i)) then woken r (g (tasks s u)) else tasks s u)\<rparr>"
proof -
  have "base_ok (wake_all f i s) \<and> (\<exists>q ts. wake_all f i s = s\<lparr>g_ready_queue := q, g_tick_head := ts,
      objs := drained i (objs s),
      tasks := (\<lambda>u. if u \<in> set (blk_list (objs s i)) then woken r (g (tasks s u)) else tasks s u)\<rparr>)"
    using s
  proof (induction "blk_list (objs s i)" arbitrary: s)
    case Nil
    then have "wake_all f i s = s" by (simp add: wake_all.simps)
    moreover have "drained i (objs s) = objs s" using Nil(1) by (simp add: drained_def fun_eq_iff)
    ultimately show ?case using Nil by (auto intro!: exI [of _ "g_ready_queue s"] exI [of _ "g_tick_head s"])
  next
    case (Cons t ts)
    have mem: "pended (tasks s t)" "blk_obj (tasks s t) = i"
      using blk_okD(2) [OF base_okD(2) [OF Cons.prems], of t i] Cons(2) by (metis list.set_intros(1))+
    have d: "t \<notin> set ts"
      using blk_okD(1) [OF base_okD(2) [OF Cons.prems], of i] Cons(2) by (metis distinct.simps(2))
    define s1 where "s1 = f t s"
    have s1: "s1 = wake t r (upd_task t g s)"
      using f [OF Cons.prems mem(1)] by (simp add: s1_def)
    have "base_ok s1"
      using wake_base_ok [OF base_ok_neutral [OF Cons.prems g]] mem(1) g
      by (simp add: s1 upd_task_def neutral_def pended_def)
    obtain q ts1 where eq: "s1 = s\<lparr>g_ready_queue := q, g_tick_head := ts1,
        objs := (objs s)(i := (objs s i)\<lparr>blk_list := ts\<rparr>), tasks := (tasks s)(t := woken r (g (tasks s t)))\<rparr>"
      using wake_eq [of t r "upd_task t g s"] mem(2) g Cons(2) [symmetric]
      by (auto simp: s1 upd_task_def neutral_def)
    have step: "wake_all f i s = wake_all f i s1"
      unfolding s1_def using Cons(2) eq by (intro wake_all_step) (auto simp: s1_def [symmetric])
    have l: "ts = blk_list (objs s1 i)" using eq by simp
    from Cons.hyps(1) [OF l \<open>base_ok s1\<close>] obtain q2 ts2 where
      ih: "base_ok (wake_all f i s1)" "wake_all f i s1 = s1\<lparr>g_ready_queue := q2, g_tick_head := ts2,
        objs := drained i (objs s1),
        tasks := (\<lambda>u. if u \<in> set (blk_list (objs s1 i)) then woken r (g (tasks s1 u)) else tasks s1 u)\<rparr>"
      by blast
    have fin: "wake_all f i s = s\<lparr>g_ready_queue := q2, g_tick_head := ts2, objs := drained i (objs s),
        tasks := (\<lambda>u. if u \<in> set (blk_list (objs s i)) then woken r (g (tasks s u)) else tasks s u)\<rparr>"
      unfolding step ih(2) using d Cons(2) [symmetric] by (auto simp: eq drained_def fun_eq_iff)
    have "base_ok (wake_all f i s)" using ih(1) step by simp
    with fin show ?case by blast
  qed
  then show "base_ok (wake_all f i s)"
    and "\<exists>q ts. wake_all f i s = s\<lparr>g_ready_queue := q, g_tick_head := ts, objs := drained i (objs s),
      tasks := (\<lambda>u. if u \<in> set (blk_list (objs s i)) then woken r (g (tasks s u)) else tasks s u)\<rparr>"
    by blast+
qed

subsection \<open>Blocking the running task\<close>

definition blocked :: "oid \<Rightarrow> tick_t \<Rightarrow> tick_t \<Rightarrow> ktask \<Rightarrow> ktask" where
  "blocked i timeout now k =
     (if timeout \<noteq> RHINO_WAIT_FOREVER \<and> timeout > 0
      then k\<lparr>blk_obj := i, tick_match := now + timeout, tick_remain := timeout, tick_head := True,
             task_state := K_PEND\<rparr>
      else k\<lparr>blk_obj := i, task_state := K_PEND\<rparr>)"

lemma blocked_simps [simp]:
  "task_state (blocked i timeout now k) = K_PEND" "blk_obj (blocked i timeout now k) = i"
  "prio (blocked i timeout now k) = prio k" "b_prio (blocked i timeout now k) = b_prio k"
  "mutex_list (blocked i timeout now k) = mutex_list k" "task_msg (blocked i timeout now k) = task_msg k"
  "pend_flags (blocked i timeout now k) = pend_flags k" "pend_option (blocked i timeout now k) = pend_option k"
  "pend_info (blocked i timeout now k) = pend_info k"
  by (simp_all add: blocked_def)

lemma tick_list_insert_eq:
  assumes "t \<notin> set (g_tick_head s)" "time > 0"
    and m: "\<And>q. q \<in> set (g_tick_head s) \<Longrightarrow> tick_match (tasks s q) = m q"
  shows "tick_list_insert t time s = s\<lparr>
     g_tick_head := insert_before_first (\<lambda>q. m q - g_tick_count s > time) t (g_tick_head s),
     tasks := (tasks s)(t := (tasks s t)\<lparr>tick_match := g_tick_count s + time, tick_remain := time,
       tick_head := True\<rparr>)\<rparr>"
proof -
  define T where "T = (tasks s)(t := (tasks s t)\<lparr>tick_match := g_tick_count s + time, tick_remain := time\<rparr>)"
  have "insert_before_first (\<lambda>q. tick_match (T q) - g_tick_count s > time) t (g_tick_head s)
      = insert_before_first (\<lambda>q. m q - g_tick_count s > time) t (g_tick_head s)"
    using assms by (intro insert_before_first_cong) (auto simp: T_def)
  moreover have "tick_list_insert t time s = s\<lparr>
     g_tick_head := insert_before_first (\<lambda>q. tick_match (T q) - g_tick_count s > time) t (g_tick_head s),
     tasks := T(t := (T t)\<lparr>tick_head := True\<rparr>)\<rparr>"
    using assms(2) by (simp add: tick_list_insert_def tick_list_pri_insert_def Let_def upd_task_def T_def)
  ultimately show ?thesis by (simp add: T_def)
qed

definition block_order :: "blk_obj_t \<Rightarrow> (tid \<Rightarrow> ktask) \<Rightarrow> tid \<Rightarrow> tid list" where
  "block_order b T t =
     (if blk_policy b = BLK_POLICY_FIFO then blk_list b @ [t]
      else insert_before_first (\<lambda>q. prio (T q) > prio (T t)) t (blk_list b))"

lemma set_block_order: "set (block_order b T t) = insert t (set (blk_list b))"
  by (simp add: block_order_def)

lemma blk_ok_block_order:
  assumes "blk_ok B T" "\<not> pended (T t)" "pended k" "blk_obj k = i" "prio k = prio (T t)"
  shows "blk_ok (B(i := (B i)\<lparr>blk_list := block_order (B i) T t\<rparr>)) (T(t := k))"
proof (cases "blk_policy (B i) = BLK_POLICY_FIFO")
  case True
  with blk_ok_append [OF assms(1-4)] show ?thesis by (simp add: block_order_def)
next
  case False
  have "t \<notin> set (blk_list (B i))" using blk_okD(2) [OF assms(1)] assms(2) by simp
  then have "insert_before_first (\<lambda>q. prio ((T(t := k)) q) > prio ((T(t := k)) t)) t (blk_list (B i))
      = insert_before_first (\<lambda>q. prio (T q) > prio (T t)) t (blk_list (B i))"
    using assms(5) by (intro insert_before_first_cong) auto
  then show ?thesis
    using blk_ok_insert [OF assms(1-4)] False unfolding block_order_def by (simp only: if_False)
qed

lemma pend_to_blk_obj_spec:
  fixes i :: oid and timeout :: tick_t
  assumes s: "base_ok s" and rdy: "ready (tasks s t)" and other: "some_other_ready (tasks s) t"
  defines "k \<equiv> blocked i timeout (g_tick_count s) (tasks s t)"
  shows "base_ok (pend_to_blk_obj i t timeout s)"
    and "\<exists>q ts. pend_to_blk_obj i t timeout s = s\<lparr>g_ready_queue := q, g_tick_head := ts,
      objs := (objs s)(i := (objs s i)\<lparr>blk_list := block_order (objs s i) (tasks s) t\<rparr>),
      tasks := (tasks s)(t := k)\<rparr>
      \<and> cur_list_item q = (cur_list_item (g_ready_queue s))(prio (tasks s t) :=
          remove1 t (cur_list_item (g_ready_queue s) (prio (tasks s t))))"
proof -
  note D = base_okD [OF s]
  have nt: "t \<notin> set (g_tick_head s)" and np: "\<not> pended (tasks s t)" and nh: "\<not> tick_head (tasks s t)"
    using tick_okD(2,3) [OF D(3), of t] rdy by (auto simp: state_defs)
  have nb: "t \<notin> set (blk_list (objs s j))" for j
    using blk_okD(2) [OF D(2), of t j] np by simp
  obtain q where q: "rq_rm (g_ready_queue s) (prio (tasks s t)) t = Some q"
    "\<And>k. \<not> ready k \<Longrightarrow> rdy_ok q ((tasks s)(t := k))"
    "cur_list_item q = (cur_list_item (g_ready_queue s))(prio (tasks s t) :=
          remove1 t (cur_list_item (g_ready_queue s) (prio (tasks s t))))"
    using rdy_ok_rm [OF D(1) rdy other] by blast
  define timed where "timed \<longleftrightarrow> timeout \<noteq> RHINO_WAIT_FOREVER \<and> timeout > 0"
  define ts where "ts = (if timed
    then insert_before_first (\<lambda>q. tick_match (tasks s q) - g_tick_count s > timeout) t (g_tick_head s)
    else g_tick_head s)"
  define s3 where "s3 = s\<lparr>g_ready_queue := q, g_tick_head := ts, tasks := (tasks s)(t := k)\<rparr>"
  have "insert_before_first (\<lambda>q. prio (tasks s3 q) > prio (tasks s3 t)) t (blk_list (objs s i))
      = insert_before_first (\<lambda>q. prio (tasks s q) > prio (tasks s t)) t (blk_list (objs s i))"
    using nb by (intro insert_before_first_cong) (auto simp: s3_def k_def)
  moreover have "objs s3 = objs s" by (simp add: s3_def)
  ultimately have "pend_list_add i t s3 = s3\<lparr>objs := (objs s)(i := (objs s i)\<lparr>blk_list :=
      insert_before_first (\<lambda>q. prio (tasks s q) > prio (tasks s t)) t (blk_list (objs s i))\<rparr>)\<rparr>"
    by (simp only: pend_list_add_def upd_obj_def)
  moreover have "ready_list_rm t (upd_task t (\<lambda>k. k\<lparr>task_state := K_PEND\<rparr>)
      (if timeout \<noteq> RHINO_WAIT_FOREVER then tick_list_insert t timeout (upd_task t (\<lambda>k. k\<lparr>blk_obj := i\<rparr>) s)
       else upd_task t (\<lambda>k. k\<lparr>blk_obj := i\<rparr>) s)) = s3"
  proof (cases timed)
    case True
    then show ?thesis
      by (simp add: timed_def upd_task_def nt ts_def
        tick_list_insert_eq [where m = "\<lambda>q. tick_match (tasks s q)"]
        ready_list_rm_def q(1) s3_def k_def blocked_def)
  next
    case False
    then have "timeout = RHINO_WAIT_FOREVER \<or> \<not> timeout > 0" by (auto simp: timed_def)
    then show ?thesis
      by (elim disjE) (simp_all add: timed_def upd_task_def tick_list_insert_def
        ts_def ready_list_rm_def q(1) s3_def k_def blocked_def)
  qed
  then have "pend_to_blk_obj i t timeout s =
      (if blk_policy (objs s3 i) = BLK_POLICY_FIFO then upd_obj i (\<lambda>b. b\<lparr>blk_list := blk_list b @ [t]\<rparr>) s3
       else pend_list_add i t s3)"
    by (simp only: pend_to_blk_obj_def Let_def)
  ultimately have eq: "pend_to_blk_obj i t timeout s = s\<lparr>g_ready_queue := q, g_tick_head := ts,
      objs := (objs s)(i := (objs s i)\<lparr>blk_list := block_order (objs s i) (tasks s) t\<rparr>),
      tasks := (tasks s)(t := k)\<rparr>"
    by (simp add: s3_def upd_obj_def block_order_def)
  have "rdy_ok q ((tasks s)(t := k))" using q(2) by (simp add: k_def ready_def)
  moreover have "blk_ok ((objs s)(i := (objs s i)\<lparr>blk_list := block_order (objs s i) (tasks s) t\<rparr>)) ((tasks s)(t := k))"
    using blk_ok_block_order [OF D(2) np, of k i] by (simp add: k_def pended_def)
  moreover have "tick_ok ts (g_tick_count s) ((tasks s)(t := k))"
  proof (cases timed)
    case True
    then show ?thesis
      using D(3) nh by (auto simp: ts_def k_def blocked_def timed_def pended_def intro!: tick_ok_insert)
  next
    case False
    then show ?thesis
      using D(3) nh by (auto simp: ts_def k_def blocked_def timed_def sleeping_def intro!: tick_ok_same)
  qed
  moreover have "prio_ok ((tasks s)(t := k))"
    using D(4) rdy by (auto simp: prio_ok_def k_def state_defs)
  ultimately show "base_ok (pend_to_blk_obj i t timeout s)"
    using D(5) by (simp add: eq base_ok_def)
  show "\<exists>q ts. pend_to_blk_obj i t timeout s = s\<lparr>g_ready_queue := q, g_tick_head := ts,
      objs := (objs s)(i := (objs s i)\<lparr>blk_list := block_order (objs s i) (tasks s) t\<rparr>),
      tasks := (tasks s)(t := k)\<rparr>
      \<and> cur_list_item q = (cur_list_item (g_ready_queue s))(prio (tasks s t) :=
          remove1 t (cur_list_item (g_ready_queue s) (prio (tasks s t))))"
    using eq q(3) by blast
qed

end
