(* ===== verification/Rhino_Mutex.thy ===== *)
theory Rhino_Mutex
  imports Rhino_Pend
begin

text \<open>
  Mutexes with priority inheritance: \<^verbatim>\<open>kernel/rhino/core/k_mutex.c\<close> and \<^verbatim>\<open>task_pri_change\<close> of
  \<^verbatim>\<open>k_task.c\<close>.

  The mutexes a task holds are a chain of pointers, from \<open>mutex_list\<close> of the task through
  \<open>mutex_next\<close> of each mutex.  The loops over that chain, and the loop of \<^verbatim>\<open>task_pri_change\<close>,
  which follows the owners of mutexes, are written as partial functions: a loop without end
  is the value \<open>None\<close>.

  \<open>mtx_ok\<close> is the ownership invariant, and \<open>pi_ok\<close> says that every task has exactly the priority
  that inheritance calls for: the most urgent of its own and of all tasks that wait for one of
  its mutexes.  The lemmas show that the loops end and compute that priority, also along a
  chain of owners of any length and in a deadlock.
\<close>

section \<open>Operations\<close>

subsection \<open>Creation\<close>

definition mutex_create :: "oid \<Rightarrow> ptr \<Rightarrow> u8 \<Rightarrow> kernel \<Rightarrow> kstat \<times> kernel" where
  "mutex_create m name flag s =
     (if m = NULL then (RHINO_NULL_PTR, s)
      else if name = NULL then (RHINO_NULL_PTR, s)
      else let s = upd_obj m (\<lambda>b. b\<lparr>blk_list := [], blk_policy := BLK_POLICY_PRI, obj_name := name\<rparr>) s;
               s = upd_mutex m (\<lambda>x. x\<lparr>mutex_task := NULL, mutex_next := NULL, mutex_alloc_flag := flag\<rparr>) s;
               s = s\<lparr>g_kobj_list := (g_kobj_list s)\<lparr>mutex_head := mutex_head (g_kobj_list s) @ [m]\<rparr>\<rparr>;
               s = upd_obj m (\<lambda>b. b\<lparr>obj_type := RHINO_MUTEX_OBJ_TYPE\<rparr>) s
           in (RHINO_SUCCESS, s))"

definition krhino_mutex_create :: "oid \<Rightarrow> ptr \<Rightarrow> kernel \<Rightarrow> kstat \<times> kernel" where
  "krhino_mutex_create m name s = mutex_create m name K_OBJ_STATIC_ALLOC s"

subsection \<open>The chain of held mutexes\<close>

definition first_blk_pri :: "kernel \<Rightarrow> oid \<Rightarrow> nat \<Rightarrow> nat" where
  "first_blk_pri s m pri =
     (case blk_list (objs s m) of [] \<Rightarrow> pri | first_blk_task # _ \<Rightarrow> prio (tasks s first_blk_task))"

partial_function (option) pri_limit_loop :: "kernel \<Rightarrow> oid \<Rightarrow> nat \<Rightarrow> nat \<Rightarrow> nat option" where
  "pri_limit_loop s mutex_tmp pri high_pri =
     (if mutex_tmp = NULL then Some high_pri
      else let pri = first_blk_pri s mutex_tmp pri;
               high_pri = (if pri < high_pri then pri else high_pri)
           in pri_limit_loop s (mutex_next (mutexes s mutex_tmp)) pri high_pri)"

definition mutex_pri_limit :: "tid \<Rightarrow> nat \<Rightarrow> kernel \<Rightarrow> nat option" where
  "mutex_pri_limit t pri s = pri_limit_loop s (mutex_list (tasks s t)) pri pri"

text \<open>\<open>prev\<close> of \<^verbatim>\<open>mutex_pri_look\<close> points at the link of the task or of a mutex.\<close>

datatype mlink = Task_link tid | Mutex_link oid

fun read_link :: "mlink \<Rightarrow> kernel \<Rightarrow> oid" where
  "read_link (Task_link t) s = mutex_list (tasks s t)"
| "read_link (Mutex_link m) s = mutex_next (mutexes s m)"

fun write_link :: "mlink \<Rightarrow> oid \<Rightarrow> kernel \<Rightarrow> kernel" where
  "write_link (Task_link t) v s = upd_task t (\<lambda>k. k\<lparr>mutex_list := v\<rparr>) s"
| "write_link (Mutex_link m) v s = upd_mutex m (\<lambda>x. x\<lparr>mutex_next := v\<rparr>) s"

partial_function (option) pri_look_loop :: "oid \<Rightarrow> mlink \<Rightarrow> nat \<Rightarrow> nat \<Rightarrow> kernel \<Rightarrow> (nat \<times> kernel) option" where
  "pri_look_loop mutex_rel prev pri new_pri s =
     (let mutex_tmp = read_link prev s
      in if mutex_tmp = NULL then Some (new_pri, s)
         else if mutex_tmp = mutex_rel then
           pri_look_loop mutex_rel prev pri new_pri (write_link prev (mutex_next (mutexes s mutex_tmp)) s)
         else
           let pri = first_blk_pri s mutex_tmp pri;
               new_pri = (if new_pri > pri then pri else new_pri)
           in pri_look_loop mutex_rel (Mutex_link mutex_tmp) pri new_pri s)"

definition mutex_pri_look :: "tid \<Rightarrow> oid \<Rightarrow> kernel \<Rightarrow> (nat \<times> kernel) option" where
  "mutex_pri_look t mutex_rel s =
     pri_look_loop mutex_rel (Task_link t) (b_prio (tasks s t)) (b_prio (tasks s t)) s"

subsection \<open>Changing a priority\<close>

partial_function (option) task_pri_change :: "tid \<Rightarrow> nat \<Rightarrow> kernel \<Rightarrow> (kstat \<times> kernel) option" where
  "task_pri_change task new_pri s =
     (if prio (tasks s task) = new_pri then Some (RHINO_SUCCESS, s)
      else case task_state (tasks s task) of
        K_RDY \<Rightarrow>
          (let s = ready_list_rm task s;
               s = upd_task task (\<lambda>k. k\<lparr>prio := new_pri\<rparr>) s;
               s = (if task = g_active_task s then ready_list_add_head task s else ready_list_add_tail task s)
           in Some (RHINO_SUCCESS, s))
      | K_SLEEP \<Rightarrow> Some (RHINO_SUCCESS, upd_task task (\<lambda>k. k\<lparr>prio := new_pri\<rparr>) s)
      | K_SUSPENDED \<Rightarrow> Some (RHINO_SUCCESS, upd_task task (\<lambda>k. k\<lparr>prio := new_pri\<rparr>) s)
      | K_SLEEP_SUSPENDED \<Rightarrow> Some (RHINO_SUCCESS, upd_task task (\<lambda>k. k\<lparr>prio := new_pri\<rparr>) s)
      | K_SEED \<Rightarrow> Some (RHINO_INV_TASK_STATE, k_err_proc RHINO_INV_TASK_STATE s)
      | K_DELETED \<Rightarrow> Some (RHINO_INV_TASK_STATE, k_err_proc RHINO_INV_TASK_STATE s)
      | _ \<Rightarrow>
          (let old_pri = prio (tasks s task);
               s = upd_task task (\<lambda>k. k\<lparr>prio := new_pri\<rparr>) s;
               s = pend_list_reorder task s
           in if obj_type (objs s (blk_obj (tasks s task))) = RHINO_MUTEX_OBJ_TYPE then
                let mutex_tmp = blk_obj (tasks s task);
                    owner = mutex_task (mutexes s mutex_tmp)
                in if owner = NULL then Some (RHINO_SUCCESS, fault s)
                   else if prio (tasks s owner) > prio (tasks s task) then task_pri_change owner new_pri s
                   else if prio (tasks s owner) = old_pri then
                     (case mutex_pri_look owner NULL s of
                        None \<Rightarrow> None
                      | Some (new_pri, s) \<Rightarrow>
                          if new_pri \<noteq> prio (tasks s owner) then task_pri_change owner new_pri s
                          else Some (RHINO_SUCCESS, s))
                   else Some (RHINO_SUCCESS, s)
              else Some (RHINO_SUCCESS, s)))"

text \<open>The callers that ignore the status of the loop; a loop without end is a fault.\<close>

definition pri_change :: "tid \<Rightarrow> nat \<Rightarrow> kernel \<Rightarrow> kernel" where
  "pri_change t new_pri s = (case task_pri_change t new_pri s of None \<Rightarrow> fault s | Some (_, s') \<Rightarrow> s')"

definition mutex_release :: "tid \<Rightarrow> oid \<Rightarrow> kernel \<Rightarrow> kernel" where
  "mutex_release t mutex_rel s =
     (case mutex_pri_look t mutex_rel s of
        None \<Rightarrow> fault s
      | Some (new_pri, s) \<Rightarrow> if new_pri \<noteq> prio (tasks s t) then pri_change t new_pri s else s)"

definition mutex_task_pri_reset :: "tid \<Rightarrow> kernel \<Rightarrow> kernel" where
  "mutex_task_pri_reset t s =
     (if obj_type (objs s (blk_obj (tasks s t))) = RHINO_MUTEX_OBJ_TYPE then
        let owner = mutex_task (mutexes s (blk_obj (tasks s t)))
        in if owner = NULL then fault s
           else if prio (tasks s owner) = prio (tasks s t) then mutex_release owner NULL s
           else s
      else s)"

subsection \<open>Deletion\<close>

definition mutex_del :: "oid \<Rightarrow> kernel \<Rightarrow> kernel" where
  "mutex_del m s =
     (let s = upd_obj m (\<lambda>b. b\<lparr>obj_type := RHINO_OBJ_TYPE_NONE\<rparr>) s;
          s = (if mutex_task (mutexes s m) \<noteq> NULL then mutex_release (mutex_task (mutexes s m)) m s else s);
          s = wake_all pend_task_rm m s;
          s = s\<lparr>g_kobj_list := (g_kobj_list s)\<lparr>mutex_head := remove1 m (mutex_head (g_kobj_list s))\<rparr>\<rparr>
      in core_sched s)"

definition krhino_mutex_del :: "oid \<Rightarrow> kernel \<Rightarrow> kstat \<times> kernel" where
  "krhino_mutex_del m s =
     (if m = NULL then (RHINO_NULL_PTR, s)
      else if g_intrpt_nested_level s > 0 then (RHINO_NOT_CALLED_BY_INTRPT, s)
      else if obj_type (objs s m) \<noteq> RHINO_MUTEX_OBJ_TYPE then (RHINO_KOBJ_TYPE_ERR, s)
      else if mutex_alloc_flag (mutexes s m) \<noteq> K_OBJ_STATIC_ALLOC then (RHINO_KOBJ_DEL_ERR, s)
      else (RHINO_SUCCESS, mutex_del m s))"

text \<open>\<open>mutex_obj\<close> is the address \<^verbatim>\<open>krhino_mm_alloc\<close> returned; the result names the new mutex.\<close>

definition krhino_mutex_dyn_create :: "ptr \<Rightarrow> ptr \<Rightarrow> oid \<Rightarrow> kernel \<Rightarrow> kstat \<times> oid option \<times> kernel" where
  "krhino_mutex_dyn_create mutex name mutex_obj s =
     (if mutex = NULL then (RHINO_NULL_PTR, None, s)
      else if mutex_obj = NULL then (RHINO_NO_MEM, None, s)
      else let (stat, s) = mutex_create mutex_obj name K_OBJ_DYN_ALLOC s
           in if stat \<noteq> RHINO_SUCCESS then (stat, None, s) else (stat, Some mutex_obj, s))"

definition krhino_mutex_dyn_del :: "oid \<Rightarrow> kernel \<Rightarrow> kstat \<times> kernel" where
  "krhino_mutex_dyn_del m s =
     (if m = NULL then (RHINO_NULL_PTR, s)
      else if g_intrpt_nested_level s > 0 then (RHINO_NOT_CALLED_BY_INTRPT, s)
      else if obj_type (objs s m) \<noteq> RHINO_MUTEX_OBJ_TYPE then (RHINO_KOBJ_TYPE_ERR, s)
      else if mutex_alloc_flag (mutexes s m) \<noteq> K_OBJ_DYN_ALLOC then (RHINO_KOBJ_DEL_ERR, s)
      else (RHINO_SUCCESS, mutex_del m s))"

subsection \<open>Lock and unlock\<close>

definition krhino_mutex_lock :: "oid \<Rightarrow> tick_t \<Rightarrow> kernel \<Rightarrow> outcome \<times> kernel" where
  "krhino_mutex_lock m ticks s =
     (let cur = g_active_task s; owner = mutex_task (mutexes s m)
      in if m = NULL then (Ret RHINO_NULL_PTR, s)
      else if g_sys_stat s = RHINO_STOPPED then (Ret RHINO_SUCCESS, s)
      else if g_intrpt_nested_level s > 0 then (Ret RHINO_NOT_CALLED_BY_INTRPT, s)
      else if obj_type (objs s m) \<noteq> RHINO_MUTEX_OBJ_TYPE then (Ret RHINO_KOBJ_TYPE_ERR, s)
      else if cur = owner then
        (if owner_nested (mutexes s m) = - 1
         then (Ret RHINO_MUTEX_NESTED_OVF, k_err_proc RHINO_MUTEX_NESTED_OVF s)
         else (Ret RHINO_MUTEX_OWNER_NESTED, upd_mutex m (\<lambda>x. x\<lparr>owner_nested := owner_nested x + 1\<rparr>) s))
      else if owner = NULL then
        (let s = upd_mutex m (\<lambda>x. x\<lparr>mutex_task := cur, mutex_next := mutex_list (tasks s cur)\<rparr>) s;
             s = upd_task cur (\<lambda>k. k\<lparr>mutex_list := m\<rparr>) s;
             s = upd_mutex m (\<lambda>x. x\<lparr>owner_nested := 1\<rparr>) s
         in (Ret RHINO_SUCCESS, s))
      else if ticks = RHINO_NO_WAIT then (Ret RHINO_NO_PEND_WAIT, s)
      else if g_sched_lock s > 0 then (Ret RHINO_SCHED_DISABLE, s)
      else let s = (if prio (tasks s cur) < prio (tasks s owner)
                    then pri_change owner (prio (tasks s cur)) s else s);
               s = pend_to_blk_obj m cur ticks s
           in (Pending, core_sched s))"

definition krhino_mutex_unlock :: "oid \<Rightarrow> kernel \<Rightarrow> kstat \<times> kernel" where
  "krhino_mutex_unlock m s =
     (let cur = g_active_task s
      in if m = NULL then (RHINO_NULL_PTR, s)
      else if g_sys_stat s = RHINO_STOPPED then (RHINO_SUCCESS, s)
      else if g_intrpt_nested_level s > 0 then (RHINO_NOT_CALLED_BY_INTRPT, s)
      else if obj_type (objs s m) \<noteq> RHINO_MUTEX_OBJ_TYPE then (RHINO_KOBJ_TYPE_ERR, s)
      else if cur \<noteq> mutex_task (mutexes s m) then (RHINO_MUTEX_NOT_RELEASED_BY_OWNER, s)
      else let s = upd_mutex m (\<lambda>x. x\<lparr>owner_nested := owner_nested x - 1\<rparr>) s
      in if owner_nested (mutexes s m) > 0 then (RHINO_MUTEX_OWNER_NESTED, s)
      else let s = mutex_release cur m s
      in case blk_list (objs s m) of
           [] \<Rightarrow> (RHINO_SUCCESS, upd_mutex m (\<lambda>x. x\<lparr>mutex_task := NULL\<rparr>) s)
         | task # _ \<Rightarrow>
             let s = pend_task_wakeup task s;
                 s = upd_mutex m (\<lambda>x. x\<lparr>mutex_task := task, mutex_next := mutex_list (tasks s task)\<rparr>) s;
                 s = upd_task task (\<lambda>k. k\<lparr>mutex_list := m\<rparr>) s;
                 s = upd_mutex m (\<lambda>x. x\<lparr>owner_nested := 1\<rparr>) s
             in (RHINO_SUCCESS, core_sched s))"

section \<open>Ownership\<close>

fun mchain :: "(oid \<Rightarrow> oid) \<Rightarrow> oid \<Rightarrow> oid list \<Rightarrow> bool" where
  "mchain nx p [] \<longleftrightarrow> p = NULL"
| "mchain nx p (m # ms) \<longleftrightarrow> p = m \<and> m \<noteq> NULL \<and> mchain nx (nx m) ms"

lemma mchain_NULL [simp]: "mchain nx 0 ms \<longleftrightarrow> ms = []"
  by (cases ms) auto

lemma mchain_append: "mchain nx p (xs @ ys) \<Longrightarrow> \<exists>q. mchain nx q ys"
  by (induction xs arbitrary: p) auto

lemma mchain_unique: "mchain nx p xs \<Longrightarrow> mchain nx p ys \<Longrightarrow> xs = ys"
proof (induction xs arbitrary: p ys)
  case Nil
  then show ?case by simp
next
  case (Cons x xs)
  then show ?case by (cases ys) auto
qed

lemma mchain_distinct: "mchain nx p ms \<Longrightarrow> distinct ms"
proof (induction ms arbitrary: p)
  case (Cons m ms)
  have "m \<notin> set ms"
  proof
    assume "m \<in> set ms"
    then obtain xs ys where ms: "ms = xs @ m # ys" by (meson split_list)
    have "mchain nx m (m # ys)"
      using Cons.prems mchain_append [of nx "nx m" xs "m # ys"] ms by auto
    moreover have "mchain nx m (m # ms)" using Cons.prems by simp
    ultimately show False using mchain_unique [of nx m "m # ys" "m # ms"] ms by simp
  qed
  with Cons show ?case by auto
qed simp

lemma mchain_cong:
  "(\<And>m. m \<in> set ms \<Longrightarrow> nx m = nx' m) \<Longrightarrow> mchain nx p ms \<longleftrightarrow> mchain nx' p ms"
  by (induction ms arbitrary: p) auto

lemma mchain_upd_notin [simp]: "m \<notin> set ms \<Longrightarrow> mchain (nx(m := v)) p ms \<longleftrightarrow> mchain nx p ms"
  by (rule mchain_cong) auto

text \<open>The mutexes that belong to a task, and the ownership invariant.\<close>

abbreviation is_mutex :: "(oid \<Rightarrow> blk_obj_t) \<Rightarrow> oid \<Rightarrow> bool" where
  "is_mutex B m \<equiv> obj_type (B m) = RHINO_MUTEX_OBJ_TYPE"

definition owned :: "(oid \<Rightarrow> blk_obj_t) \<Rightarrow> (oid \<Rightarrow> kmutex) \<Rightarrow> tid \<Rightarrow> oid set" where
  "owned B M t = {m. is_mutex B m \<and> mutex_task (M m) = t}"

definition chain_of :: "(oid \<Rightarrow> kmutex) \<Rightarrow> ktask \<Rightarrow> oid list \<Rightarrow> bool" where
  "chain_of M k ms \<longleftrightarrow> mchain (\<lambda>m. mutex_next (M m)) (mutex_list k) ms"

definition mutex_wf :: "(oid \<Rightarrow> blk_obj_t) \<Rightarrow> (oid \<Rightarrow> kmutex) \<Rightarrow> (tid \<Rightarrow> ktask) \<Rightarrow> oid \<Rightarrow> bool" where
  "mutex_wf B M T m \<longleftrightarrow>
     m \<noteq> NULL \<and> blk_policy (B m) = BLK_POLICY_PRI
     \<and> (mutex_task (M m) \<noteq> NULL \<longrightarrow> live (T (mutex_task (M m))))
     \<and> (blk_list (B m) \<noteq> [] \<longrightarrow> mutex_task (M m) \<noteq> NULL)
     \<and> mutex_task (M m) \<notin> set (blk_list (B m))"

definition mtx_ok :: "(oid \<Rightarrow> blk_obj_t) \<Rightarrow> (oid \<Rightarrow> kmutex) \<Rightarrow> (tid \<Rightarrow> ktask) \<Rightarrow> bool" where
  "mtx_ok B M T \<longleftrightarrow>
     (\<forall>t. live (T t) \<longrightarrow> t \<noteq> NULL \<and> (\<exists>ms. chain_of M (T t) ms \<and> set ms = owned B M t))
     \<and> (\<forall>m. is_mutex B m \<longrightarrow> mutex_wf B M T m)"

section \<open>The inherited priority\<close>

definition waiters :: "(oid \<Rightarrow> blk_obj_t) \<Rightarrow> (oid \<Rightarrow> kmutex) \<Rightarrow> tid \<Rightarrow> tid set" where
  "waiters B M t = (\<Union>m \<in> owned B M t. set (blk_list (B m)))"

text \<open>
  \<open>X\<close> gives a task an additional priority to inherit: that of a task that is about to wait for
  one of its mutexes.  Outside of that moment it is \<open>no_extra\<close>.
\<close>

abbreviation (input) no_extra :: "tid \<Rightarrow> nat option" where
  "no_extra \<equiv> \<lambda>_. None"

definition pri_target :: "(tid \<Rightarrow> nat option) \<Rightarrow> (oid \<Rightarrow> blk_obj_t) \<Rightarrow> (oid \<Rightarrow> kmutex) \<Rightarrow> (tid \<Rightarrow> ktask) \<Rightarrow> tid \<Rightarrow> nat" where
  "pri_target X B M T t = Min (insert (b_prio (T t)) (set_option (X t) \<union> (\<lambda>w. prio (T w)) ` waiters B M t))"

definition pi_exact :: "(tid \<Rightarrow> nat option) \<Rightarrow> (oid \<Rightarrow> blk_obj_t) \<Rightarrow> (oid \<Rightarrow> kmutex) \<Rightarrow> (tid \<Rightarrow> ktask) \<Rightarrow> tid \<Rightarrow> bool" where
  "pi_exact X B M T t \<longleftrightarrow> prio (T t) = pri_target X B M T t"

definition pi_ok :: "(tid \<Rightarrow> nat option) \<Rightarrow> (oid \<Rightarrow> blk_obj_t) \<Rightarrow> (oid \<Rightarrow> kmutex) \<Rightarrow> (tid \<Rightarrow> ktask) \<Rightarrow> bool" where
  "pi_ok X B M T \<longleftrightarrow> (\<forall>t. live (T t) \<longrightarrow> pi_exact X B M T t)"

lemma finite_waiters [simp]: "finite (waiters B M t)"
  by (rule finite)

lemma pri_target_le:
  "pri_target X B M T t \<le> b_prio (T t)" "w \<in> waiters B M t \<Longrightarrow> pri_target X B M T t \<le> prio (T w)"
  "X t = Some x \<Longrightarrow> pri_target X B M T t \<le> x"
  unfolding pri_target_def by (intro Min_le; simp)+

lemma pri_target_cases:
  "pri_target X B M T t = b_prio (T t) \<or> X t = Some (pri_target X B M T t)
     \<or> (\<exists>w \<in> waiters B M t. pri_target X B M T t = prio (T w))"
proof -
  have "pri_target X B M T t \<in> insert (b_prio (T t)) (set_option (X t) \<union> (\<lambda>w. prio (T w)) ` waiters B M t)"
    unfolding pri_target_def by (rule Min_in) auto
  then show ?thesis by auto
qed

lemma pri_target_eqI:
  assumes "v \<le> b_prio (T t)" "\<And>w. w \<in> waiters B M t \<Longrightarrow> v \<le> prio (T w)" "\<And>x. X t = Some x \<Longrightarrow> v \<le> x"
    and "v = b_prio (T t) \<or> X t = Some v \<or> (\<exists>w \<in> waiters B M t. v = prio (T w))"
  shows "pri_target X B M T t = v"
  unfolding pri_target_def using assms by (intro Min_eqI) auto

subsection \<open>The loops compute it\<close>

definition chain_pri :: "kernel \<Rightarrow> nat \<Rightarrow> oid list \<Rightarrow> nat" where
  "chain_pri s a ms = foldl (\<lambda>a m. min a (first_blk_pri s m a)) a ms"

lemma chain_pri_simps [simp]:
  "chain_pri s a [] = a" "chain_pri s a (m # ms) = chain_pri s (min a (first_blk_pri s m a)) ms"
  by (simp_all add: chain_pri_def)

lemma chain_pri_append: "chain_pri s a (xs @ ys) = chain_pri s (chain_pri s a xs) ys"
  by (simp add: chain_pri_def)

text \<open>A priority kept over from an earlier mutex does not count again.\<close>

lemma min_first_blk_pri: "a \<le> pri \<Longrightarrow> min a (first_blk_pri s m pri) = min a (first_blk_pri s m a)"
  by (cases "blk_list (objs s m)") (simp_all add: first_blk_pri_def)

lemma pri_limit_loop_chain:
  "mchain (\<lambda>m. mutex_next (mutexes s m)) p ms \<Longrightarrow> a \<le> pri \<Longrightarrow>
     pri_limit_loop s p pri a = Some (chain_pri s a ms)"
proof (induction ms arbitrary: p pri a)
  case Nil
  then show ?case by (simp add: pri_limit_loop.simps)
next
  case (Cons m ms)
  let ?pri = "first_blk_pri s m pri"
  have "(if ?pri < a then ?pri else a) = min a ?pri" by (auto simp: min_def)
  then have "(if ?pri < a then ?pri else a) = min a (first_blk_pri s m a)"
    using min_first_blk_pri [OF Cons.prems(2), of s m] by simp
  moreover have "min a (first_blk_pri s m a) \<le> ?pri"
    using min_first_blk_pri [OF Cons.prems(2), of s m] by (metis min.cobounded2)
  ultimately show ?case
    using Cons.prems(1) Cons.IH by (subst pri_limit_loop.simps) (simp add: Let_def)
qed

lemma pri_look_loop_chain:
  "read_link prev s = p \<Longrightarrow> mchain (\<lambda>m. mutex_next (mutexes s m)) p ms \<Longrightarrow> rel \<notin> set ms \<Longrightarrow> a \<le> pri \<Longrightarrow>
     pri_look_loop rel prev pri a s = Some (chain_pri s a ms, s)"
proof (induction ms arbitrary: prev p pri a)
  case Nil
  then show ?case by (simp add: pri_look_loop.simps)
next
  case (Cons m ms)
  let ?pri = "first_blk_pri s m pri"
  have "(if ?pri < a then ?pri else a) = min a ?pri" by (auto simp: min_def)
  then have "(if ?pri < a then ?pri else a) = min a (first_blk_pri s m a)"
    using min_first_blk_pri [OF Cons.prems(4), of s m] by simp
  moreover have "min a (first_blk_pri s m a) \<le> ?pri"
    using min_first_blk_pri [OF Cons.prems(4), of s m] by (metis min.cobounded2)
  moreover have "m \<noteq> rel" using Cons.prems(3) by auto
  ultimately show ?case
    using Cons.prems Cons.IH [of "Mutex_link m"] by (subst pri_look_loop.simps) (simp add: Let_def)
qed

lemma write_link_frame [simp]:
  "objs (write_link l v s) = objs s" "prio (tasks (write_link l v s) u) = prio (tasks s u)"
  by (cases l; simp add: upd_task_def upd_mutex_def)+

lemma first_blk_pri_write_link [simp]: "first_blk_pri (write_link l v s) m a = first_blk_pri s m a"
  by (cases "blk_list (objs s m)") (simp_all add: first_blk_pri_def)

lemma chain_pri_write_link [simp]: "chain_pri (write_link l v s) a ms = chain_pri s a ms"
  by (simp add: chain_pri_def)

lemma write_link_next:
  "(\<And>l. prev = Mutex_link l \<Longrightarrow> m \<noteq> l) \<Longrightarrow> mutex_next (mutexes (write_link prev v s) m) = mutex_next (mutexes s m)"
  "read_link prev (write_link prev v s) = v"
  by (cases prev; simp add: upd_defs)+

definition last_link :: "mlink \<Rightarrow> oid list \<Rightarrow> mlink" where
  "last_link prev xs = (if xs = [] then prev else Mutex_link (last xs))"

lemma pri_look_loop_unlink:
  assumes "read_link prev s = p" "mchain (\<lambda>m. mutex_next (mutexes s m)) p (xs @ rel # zs)" "a \<le> pri"
    and "\<And>l. prev = Mutex_link l \<Longrightarrow> l \<notin> set (xs @ rel # zs)"
  shows "pri_look_loop rel prev pri a s = Some (chain_pri s a (xs @ zs),
    write_link (last_link prev xs) (mutex_next (mutexes s rel)) s)"
  using assms
proof (induction xs arbitrary: prev p pri a)
  case Nil
  let ?s = "write_link prev (mutex_next (mutexes s rel)) s"
  have "rel \<notin> set zs" using mchain_distinct [OF Nil.prems(2)] by simp
  have "mchain (\<lambda>m. mutex_next (mutexes ?s m)) (mutex_next (mutexes s rel)) zs
      \<longleftrightarrow> mchain (\<lambda>m. mutex_next (mutexes s m)) (mutex_next (mutexes s rel)) zs"
    using Nil.prems(4) by (intro mchain_cong write_link_next) auto
  then have "mchain (\<lambda>m. mutex_next (mutexes ?s m)) (mutex_next (mutexes s rel)) zs"
    using Nil.prems(2) by simp
  from pri_look_loop_chain [OF write_link_next(2) this \<open>rel \<notin> set zs\<close> Nil.prems(3)]
  show ?case
    using Nil.prems(1,2) by (subst pri_look_loop.simps) (simp add: Let_def last_link_def)
next
  case (Cons m xs)
  let ?pri = "first_blk_pri s m pri"
  have "(if ?pri < a then ?pri else a) = min a ?pri" by (auto simp: min_def)
  then have 1: "(if ?pri < a then ?pri else a) = min a (first_blk_pri s m a)"
    using min_first_blk_pri [OF Cons.prems(3), of s m] by simp
  have 2: "min a (first_blk_pri s m a) \<le> ?pri"
    using min_first_blk_pri [OF Cons.prems(3), of s m] by (metis min.cobounded2)
  have d: "m \<noteq> rel" "m \<notin> set (xs @ rel # zs)"
    using mchain_distinct [OF Cons.prems(2)] by auto
  then show ?case
    using Cons.prems Cons.IH [of "Mutex_link m", OF _ _ 2] 1
    by (subst pri_look_loop.simps) (simp add: Let_def last_link_def)
qed

lemma mchain_unlink:
  assumes "mchain nx p (xs @ rel # zs)" "xs \<noteq> []"
  shows "mchain (nx(last xs := nx rel)) p (xs @ zs)"
  using assms
proof (induction xs arbitrary: p)
  case (Cons m xs)
  show ?case
  proof (cases "xs = []")
    case True
    have "m \<notin> set zs" "mchain nx (nx rel) zs" "p = m" "m \<noteq> 0"
      using Cons.prems(1) mchain_distinct [OF Cons.prems(1)] True by auto
    moreover from this have "mchain (nx(m := nx rel)) (nx rel) zs"
      by (subst mchain_cong [of zs _ nx]) auto
    ultimately show ?thesis using True by (simp del: fun_upd_apply add: fun_upd_same)
  next
    case False
    have "m \<noteq> last xs"
      using mchain_distinct [OF Cons.prems(1)] False by (metis append_Cons distinct.simps(2) in_set_conv_decomp last_in_set Un_iff set_append)
    with False Cons show ?thesis by simp
  qed
qed simp

text \<open>Looking for the priority without, and with, the removal of a mutex from the chain.\<close>

lemma mutex_pri_look_keep:
  "chain_of (mutexes s) (tasks s t) ms \<Longrightarrow> rel \<notin> set ms \<Longrightarrow>
     mutex_pri_look t rel s = Some (chain_pri s (b_prio (tasks s t)) ms, s)"
  by (simp add: mutex_pri_look_def chain_of_def pri_look_loop_chain)

definition unlinked :: "tid \<Rightarrow> oid \<Rightarrow> oid list \<Rightarrow> kernel \<Rightarrow> kernel" where
  "unlinked t rel xs s = write_link (last_link (Task_link t) xs) (mutex_next (mutexes s rel)) s"

lemma mutex_pri_look_unlink:
  assumes "chain_of (mutexes s) (tasks s t) (xs @ rel # zs)"
  shows "mutex_pri_look t rel s = Some (chain_pri s (b_prio (tasks s t)) (xs @ zs), unlinked t rel xs s)"
    and "chain_of (mutexes (unlinked t rel xs s)) (tasks (unlinked t rel xs s) t) (xs @ zs)"
proof -
  show "mutex_pri_look t rel s = Some (chain_pri s (b_prio (tasks s t)) (xs @ zs), unlinked t rel xs s)"
    using pri_look_loop_unlink [of "Task_link t" s _ xs rel zs] assms
    by (simp add: mutex_pri_look_def chain_of_def unlinked_def)
  show "chain_of (mutexes (unlinked t rel xs s)) (tasks (unlinked t rel xs s) t) (xs @ zs)"
  proof (cases "xs = []")
    case True
    with assms show ?thesis by (simp add: unlinked_def last_link_def chain_of_def upd_defs)
  next
    case False
    have "(\<lambda>m. mutex_next (((mutexes s)(last xs := (mutexes s (last xs))\<lparr>mutex_next := v\<rparr>)) m))
        = (\<lambda>m. mutex_next (mutexes s m))(last xs := v)" for v
      by auto
    with mchain_unlink [OF assms [unfolded chain_of_def] False] False show ?thesis
      by (simp add: unlinked_def last_link_def chain_of_def upd_defs)
  qed
qed

lemma unlinked_frame:
  shows "\<exists>T M. unlinked t rel xs s = s\<lparr>tasks := T, mutexes := M\<rparr>
    \<and> (\<forall>u. u \<noteq> t \<longrightarrow> T u = tasks s u) \<and> (\<exists>v. T t = (tasks s t)\<lparr>mutex_list := v\<rparr>)
    \<and> (\<forall>m. m \<notin> set xs \<longrightarrow> M m = mutexes s m) \<and> (\<forall>m. \<exists>v. M m = (mutexes s m)\<lparr>mutex_next := v\<rparr>)"
proof (cases "xs = []")
  case True
  have "\<exists>v. mutexes s m = (mutexes s m)\<lparr>mutex_next := v\<rparr>" for m
    by (rule exI [of _ "mutex_next (mutexes s m)"]) simp
  with True show ?thesis
    by (intro exI [of _ "tasks (unlinked t rel xs s)"] exI [of _ "mutexes (unlinked t rel xs s)"])
      (auto simp: unlinked_def last_link_def upd_defs)
next
  case False
  have "\<exists>v. mutexes s m = (mutexes s m)\<lparr>mutex_next := v\<rparr>" for m
    by (rule exI [of _ "mutex_next (mutexes s m)"]) simp
  moreover have "\<exists>v. tasks s t = (tasks s t)\<lparr>mutex_list := v\<rparr>"
    by (rule exI [of _ "mutex_list (tasks s t)"]) simp
  ultimately show ?thesis using False
    by (intro exI [of _ "tasks (unlinked t rel xs s)"] exI [of _ "mutexes (unlinked t rel xs s)"])
      (auto simp: unlinked_def last_link_def upd_defs)
qed

text \<open>On sorted block lists the first waiting task is the most urgent.\<close>

lemma chain_pri_Min:
  assumes "\<And>m. m \<in> set ms \<Longrightarrow> sorted (map (\<lambda>w. prio (tasks s w)) (blk_list (objs s m)))"
  shows "chain_pri s a ms = Min (insert a ((\<lambda>w. prio (tasks s w)) ` (\<Union>m \<in> set ms. set (blk_list (objs s m)))))"
  using assms
proof (induction ms arbitrary: a)
  case (Cons m ms)
  let ?f = "\<lambda>w. prio (tasks s w)" and ?W = "\<lambda>m. set (blk_list (objs s m))"
  have "min a (first_blk_pri s m a) = Min (insert a (?f ` ?W m))"
  proof (cases "blk_list (objs s m)")
    case Nil
    then show ?thesis by (simp add: first_blk_pri_def)
  next
    case (Cons w ws)
    have "sorted (map ?f (w # ws))" using Cons.prems [of m] Cons by simp
    then have "Min (?f ` ?W m) = ?f w" using Cons by (intro Min_eqI) auto
    with Cons show ?thesis by (simp add: first_blk_pri_def Min_insert)
  qed
  then have "chain_pri s a (m # ms) = Min (insert (Min (insert a (?f ` ?W m))) (?f ` (\<Union>m \<in> set ms. ?W m)))"
    using Cons by simp
  also have "\<dots> = Min (insert a (?f ` ?W m) \<union> ?f ` (\<Union>m \<in> set ms. ?W m))"
    by (cases "?f ` (\<Union>m \<in> set ms. ?W m) = {}") (simp_all add: Min_Un [symmetric] Min_insert)
  also have "insert a (?f ` ?W m) \<union> ?f ` (\<Union>m \<in> set ms. ?W m) = insert a (?f ` (\<Union>m \<in> set (m # ms). ?W m))"
    by auto
  finally show ?case .
qed simp

lemma mtx_okD:
  assumes "mtx_ok B M T"
  shows "live (T t) \<Longrightarrow> \<exists>ms. chain_of M (T t) ms \<and> set ms = owned B M t" "live (T t) \<Longrightarrow> t \<noteq> 0"
    and "is_mutex B m \<Longrightarrow> mutex_wf B M T m"
  using assms by (simp_all add: mtx_ok_def)

lemma chain_pri_target:
  assumes "blk_ok (objs s) (tasks s)" "mtx_ok (objs s) (mutexes s) (tasks s)" "set ms = owned (objs s) (mutexes s) t"
  shows "chain_pri s (b_prio (tasks s t)) ms = pri_target no_extra (objs s) (mutexes s) (tasks s) t"
proof -
  have "sorted (map (\<lambda>w. prio (tasks s w)) (blk_list (objs s m)))" if "m \<in> set ms" for m
    using that assms(3) mtx_okD(3) [OF assms(2)] blk_okD(3) [OF assms(1)]
    by (simp add: owned_def mutex_wf_def)
  then have "chain_pri s (b_prio (tasks s t)) ms = Min (insert (b_prio (tasks s t))
      ((\<lambda>w. prio (tasks s w)) ` (\<Union>m \<in> set ms. set (blk_list (objs s m)))))"
    by (rule chain_pri_Min)
  then show ?thesis
    by (simp add: assms(3) pri_target_def waiters_def)
qed

section \<open>Changes of priorities\<close>

text \<open>The states that differ in priorities and in what is ordered by them.\<close>

definition reprio :: "kernel \<Rightarrow> kernel \<Rightarrow> bool" where
  "reprio s s' \<longleftrightarrow> (\<exists>q B T. s' = s\<lparr>g_ready_queue := q, objs := B, tasks := T\<rparr>
     \<and> (\<forall>u. T u = (tasks s u)\<lparr>prio := prio (T u)\<rparr>)
     \<and> (\<forall>i. B i = (objs s i)\<lparr>blk_list := blk_list (B i)\<rparr> \<and> set (blk_list (B i)) = set (blk_list (objs s i))))"

lemma reprio_refl [simp]: "reprio s s"
  unfolding reprio_def
  by (rule exI [of _ "g_ready_queue s"], rule exI [of _ "objs s"], rule exI [of _ "tasks s"]) simp

lemma reprio_trans:
  assumes "reprio s s'" "reprio s' s''"
  shows "reprio s s''"
proof -
  obtain q B T where 1: "s' = s\<lparr>g_ready_queue := q, objs := B, tasks := T\<rparr>"
    "\<And>u. T u = (tasks s u)\<lparr>prio := prio (T u)\<rparr>"
    "\<And>i. B i = (objs s i)\<lparr>blk_list := blk_list (B i)\<rparr> \<and> set (blk_list (B i)) = set (blk_list (objs s i))"
    using assms(1) unfolding reprio_def by blast
  obtain q' B' T' where 2: "s'' = s'\<lparr>g_ready_queue := q', objs := B', tasks := T'\<rparr>"
    "\<And>u. T' u = (tasks s' u)\<lparr>prio := prio (T' u)\<rparr>"
    "\<And>i. B' i = (objs s' i)\<lparr>blk_list := blk_list (B' i)\<rparr> \<and> set (blk_list (B' i)) = set (blk_list (objs s' i))"
    using assms(2) unfolding reprio_def by blast
  have "T' u = (tasks s u)\<lparr>prio := prio (T' u)\<rparr>" for u
  proof -
    have "T' u = (T u)\<lparr>prio := prio (T' u)\<rparr>" using 2(2) [of u] 1(1) by simp
    also have "\<dots> = (tasks s u)\<lparr>prio := prio (T' u)\<rparr>" by (subst 1(2)) simp
    finally show ?thesis .
  qed
  moreover have "B' i = (objs s i)\<lparr>blk_list := blk_list (B' i)\<rparr>" for i
  proof -
    have "B' i = (B i)\<lparr>blk_list := blk_list (B' i)\<rparr>" using 2(3) [of i] 1(1) by simp
    also have "\<dots> = (objs s i)\<lparr>blk_list := blk_list (B' i)\<rparr>" by (subst 1(3) [THEN conjunct1]) simp
    finally show ?thesis .
  qed
  moreover have "set (blk_list (B' i)) = set (blk_list (objs s i))" for i
    using 2(3) [of i] 1(1,3) by simp
  moreover have "s'' = s\<lparr>g_ready_queue := q', objs := B', tasks := T'\<rparr>"
    using 1(1) 2(1) by simp
  ultimately show ?thesis unfolding reprio_def by blast
qed

lemma reprio_frame:
  assumes "reprio s s'"
  shows "mutexes s' = mutexes s" "g_active_task s' = g_active_task s" "g_sched_lock s' = g_sched_lock s"
    and "g_intrpt_nested_level s' = g_intrpt_nested_level s" "g_tick_count s' = g_tick_count s"
    and "g_tick_head s' = g_tick_head s" "sems s' = sems s" "events s' = events s" "queues s' = queues s"
    and "buf_queues s' = buf_queues s" "g_sys_stat s' = g_sys_stat s" "k_err_log s' = k_err_log s"
    and "k_fault s' = k_fault s" "g_kobj_list s' = g_kobj_list s" "g_idle_task_spawned s' = g_idle_task_spawned s"
  using assms unfolding reprio_def by auto

lemma reprio_task:
  assumes "reprio s s'"
  shows "task_state (tasks s' u) = task_state (tasks s u)" "blk_obj (tasks s' u) = blk_obj (tasks s u)"
    and "b_prio (tasks s' u) = b_prio (tasks s u)" "mutex_list (tasks s' u) = mutex_list (tasks s u)"
    and "tick_head (tasks s' u) = tick_head (tasks s u)" "blk_state (tasks s' u) = blk_state (tasks s u)"
    and "live (tasks s' u) = live (tasks s u)" "pended (tasks s' u) = pended (tasks s u)"
    and "ready (tasks s' u) = ready (tasks s u)"
proof -
  obtain p where p: "tasks s' u = (tasks s u)\<lparr>prio := p\<rparr>"
    using assms unfolding reprio_def by (metis kernel.select_convs(13) kernel.update_convs(13) kernel.surjective)
  show "task_state (tasks s' u) = task_state (tasks s u)" "blk_obj (tasks s' u) = blk_obj (tasks s u)"
    "b_prio (tasks s' u) = b_prio (tasks s u)" "mutex_list (tasks s' u) = mutex_list (tasks s u)"
    "tick_head (tasks s' u) = tick_head (tasks s u)" "blk_state (tasks s' u) = blk_state (tasks s u)"
    "live (tasks s' u) = live (tasks s u)" "pended (tasks s' u) = pended (tasks s u)"
    "ready (tasks s' u) = ready (tasks s u)"
    by (simp_all add: p state_defs)
qed

lemma reprio_obj:
  assumes "reprio s s'"
  shows "obj_type (objs s' i) = obj_type (objs s i)" "blk_policy (objs s' i) = blk_policy (objs s i)"
    and "set (blk_list (objs s' i)) = set (blk_list (objs s i))" "blk_list (objs s' i) = [] \<longleftrightarrow> blk_list (objs s i) = []"
proof -
  obtain q B T where s': "s' = s\<lparr>g_ready_queue := q, objs := B, tasks := T\<rparr>"
    "\<And>i. B i = (objs s i)\<lparr>blk_list := blk_list (B i)\<rparr> \<and> set (blk_list (B i)) = set (blk_list (objs s i))"
    using assms unfolding reprio_def by blast
  obtain xs where xs: "objs s' i = (objs s i)\<lparr>blk_list := xs\<rparr>" "set xs = set (blk_list (objs s i))"
    using s'(1) s'(2) [of i] by auto
  show "obj_type (objs s' i) = obj_type (objs s i)" "blk_policy (objs s' i) = blk_policy (objs s i)"
    "set (blk_list (objs s' i)) = set (blk_list (objs s i))" "blk_list (objs s' i) = [] \<longleftrightarrow> blk_list (objs s i) = []"
    using xs(2) set_empty [of xs] set_empty [of "blk_list (objs s i)"] by (simp_all add: xs(1))
qed

lemmas reprio_same = reprio_frame reprio_task reprio_obj

lemma reprio_owned: "reprio s s' \<Longrightarrow> owned (objs s') M t = owned (objs s) M t"
  by (simp add: owned_def reprio_same)

lemma reprio_waiters: "reprio s s' \<Longrightarrow> waiters (objs s') M t = waiters (objs s) M t"
  by (simp add: waiters_def reprio_owned reprio_same)

lemma reprio_mtx_ok:
  assumes "reprio s s'" "mtx_ok (objs s) (mutexes s) (tasks s)"
  shows "mtx_ok (objs s') (mutexes s') (tasks s')"
  using assms(2)
  by (simp add: mtx_ok_def mutex_wf_def chain_of_def reprio_owned [OF assms(1)] reprio_same [OF assms(1)])

lemma reprio_none_ok: "reprio s s' \<Longrightarrow> none_ok X (objs s) \<Longrightarrow> none_ok X (objs s')"
  by (simp add: none_ok_def reprio_same)

text \<open>The new priority of one task, with its new place on the ready list or the block list.\<close>

definition set_prio :: "tid \<Rightarrow> nat \<Rightarrow> kernel \<Rightarrow> kernel" where
  "set_prio t v s =
     (if ready (tasks s t) then
        (let s = upd_task t (\<lambda>k. k\<lparr>prio := v\<rparr>) (ready_list_rm t s)
         in if t = g_active_task s then ready_list_add_head t s else ready_list_add_tail t s)
      else if pended (tasks s t) then pend_list_reorder t (upd_task t (\<lambda>k. k\<lparr>prio := v\<rparr>) s)
      else upd_task t (\<lambda>k. k\<lparr>prio := v\<rparr>) s)"

definition set_prio_spec :: "tid \<Rightarrow> nat \<Rightarrow> kernel \<Rightarrow> kernel \<Rightarrow> bool" where
  "set_prio_spec t v s s' \<longleftrightarrow> base_ok s' \<and> reprio s s' \<and> (\<forall>u. prio (tasks s' u) = (if u = t then v else prio (tasks s u)))"

lemma reprioI:
  assumes "s' = s\<lparr>g_ready_queue := q, objs := (objs s)(i := (objs s i)\<lparr>blk_list := xs\<rparr>),
      tasks := (tasks s)(t := (tasks s t)\<lparr>prio := v\<rparr>)\<rparr>" "set xs = set (blk_list (objs s i))"
  shows "reprio s s'"
  unfolding reprio_def
  by (rule exI [of _ q], rule exI [of _ "(objs s)(i := (objs s i)\<lparr>blk_list := xs\<rparr>)"],
      rule exI [of _ "(tasks s)(t := (tasks s t)\<lparr>prio := v\<rparr>)"]) (simp add: assms)

lemma reprioI_task:
  assumes "s' = s\<lparr>g_ready_queue := q, tasks := (tasks s)(t := (tasks s t)\<lparr>prio := v\<rparr>)\<rparr>"
  shows "reprio s s'"
  by (rule reprioI [where i = NULL and xs = "blk_list (objs s NULL)" and q = q and t = t and v = v])
    (simp_all add: assms)

lemma set_prio_ready:
  assumes s: "base_ok s" and rdy: "ready (tasks s t)" and other: "some_other_ready (tasks s) t"
    and v: "v < RHINO_CONFIG_PRI_MAX"
  shows "set_prio_spec t v s (set_prio t v s)"
proof -
  note D = base_okD [OF s]
  let ?k = "(tasks s t)\<lparr>prio := v\<rparr>"
  obtain q where q: "rq_rm (g_ready_queue s) (prio (tasks s t)) t = Some q"
    "\<And>k. \<not> ready k \<Longrightarrow> rdy_ok q ((tasks s)(t := k))"
    using rdy_ok_rm [OF D(1) rdy other] by blast
  define q' where "q' = rq_add (t \<noteq> g_active_task s) q v t"
  have eq: "set_prio t v s = s\<lparr>g_ready_queue := q', tasks := (tasks s)(t := ?k)\<rparr>"
    using rdy by (simp add: set_prio_def ready_list_rm_def q(1) upd_task_def Let_def q'_def rq_add_def
      ready_list_add_head_def ready_list_add_tail_def)
  define k0 where "k0 = (tasks s t)\<lparr>task_state := K_SUSPENDED\<rparr>"
  have "rdy_ok q' (((tasks s)(t := k0))(t := ?k))"
    unfolding q'_def using q(2) [of k0] v rdy by (intro rdy_ok_rq_add) (auto simp: k0_def ready_def)
  then have "rdy_ok q' ((tasks s)(t := ?k))" by simp
  moreover have "blk_ok (objs s) ((tasks s)(t := ?k))"
    using D(2) rdy by (intro blk_ok_same) (auto simp: state_defs)
  moreover have "tick_ok (g_tick_head s) (g_tick_count s) ((tasks s)(t := ?k))"
    using D(3) tick_okD(3) [OF D(3), of t] rdy by (intro tick_ok_same) (auto simp: state_defs)
  moreover have "prio_ok ((tasks s)(t := ?k))" using D(4) v by (simp add: prio_ok_upd)
  ultimately have "base_ok (set_prio t v s)" using D(5) by (simp add: eq base_ok_def)
  then show ?thesis
    unfolding set_prio_spec_def using reprioI_task [OF eq] by (simp add: eq)
qed

lemma set_prio_pended:
  assumes s: "base_ok s" and pend: "pended (tasks s t)" and v: "v < RHINO_CONFIG_PRI_MAX"
  shows "set_prio_spec t v s (set_prio t v s)"
proof -
  note D = base_okD [OF s]
  let ?k = "(tasks s t)\<lparr>prio := v\<rparr>" and ?i = "blk_obj (tasks s t)"
  let ?T = "(tasks s)(t := ?k)"
  define xs where "xs = insert_before_first (\<lambda>q. prio (?T q) > prio (?T t)) t (remove1 t (blk_list (objs s ?i)))"
  define B where "B = (if blk_policy (objs s ?i) = BLK_POLICY_PRI
    then (objs s)(?i := (objs s ?i)\<lparr>blk_list := xs\<rparr>) else objs s)"
  have mem: "t \<in> set (blk_list (objs s ?i))" "distinct (blk_list (objs s ?i))"
    using base_ok_mem(1) [OF s pend] blk_okD(1) [OF D(2)] .
  then have set_xs: "set xs = set (blk_list (objs s ?i))" by (auto simp: xs_def)
  have "set_prio t v s = pend_list_reorder t (s\<lparr>tasks := ?T\<rparr>)"
    using pend by (auto simp: set_prio_def upd_task_def state_defs)
  also have "\<dots> = s\<lparr>objs := B, tasks := ?T\<rparr>"
    using mem(1) unfolding pend_list_reorder_def B_def xs_def
    by (simp add: blk_list_rm_eq pend_list_add_def upd_obj_def)
  finally have eq: "set_prio t v s = s\<lparr>objs := B, tasks := ?T\<rparr>" .
  have "rdy_ok (g_ready_queue s) ?T"
    using D(1) pend by (intro rdy_ok_idle_change) (auto simp: state_defs)
  moreover have "blk_ok B ?T"
    using blk_ok_reinsert [OF D(2) pend, of ?k ?i] blk_ok_reprio_fifo [OF D(2) pend, of ?k] pend
    by (simp add: B_def xs_def pended_def)
  moreover have "tick_ok (g_tick_head s) (g_tick_count s) ?T"
    using D(3) tick_okD(3) [OF D(3), of t] pend by (intro tick_ok_same) (auto simp: state_defs)
  moreover have "prio_ok ?T" using D(4) v by (simp add: prio_ok_upd)
  ultimately have "base_ok (set_prio t v s)" using D(5) by (simp add: eq base_ok_def)
  moreover have "reprio s (set_prio t v s)"
  proof (cases "blk_policy (objs s ?i) = BLK_POLICY_PRI")
    case True
    then show ?thesis using eq set_xs
      by (intro reprioI [where q = "g_ready_queue s" and i = ?i and xs = xs and t = t and v = v]) (simp_all add: B_def)
  next
    case False
    then show ?thesis using eq by (intro reprioI_task [where q = "g_ready_queue s" and t = t and v = v]) (simp add: B_def)
  qed
  ultimately show ?thesis unfolding set_prio_spec_def by (simp add: eq)
qed

lemma set_prio_other:
  assumes s: "base_ok s" and no: "\<not> ready (tasks s t)" "\<not> pended (tasks s t)" and v: "v < RHINO_CONFIG_PRI_MAX"
  shows "set_prio_spec t v s (set_prio t v s)"
proof -
  note D = base_okD [OF s]
  let ?T = "(tasks s)(t := (tasks s t)\<lparr>prio := v\<rparr>)"
  have eq: "set_prio t v s = s\<lparr>tasks := ?T\<rparr>"
    using no by (simp add: set_prio_def upd_task_def)
  have "rdy_ok (g_ready_queue s) ?T"
    using D(1) no by (intro rdy_ok_idle_change) (auto simp: state_defs)
  moreover have "blk_ok (objs s) ?T"
    using D(2) no by (intro blk_ok_same) (auto simp: state_defs)
  moreover have "tick_ok (g_tick_head s) (g_tick_count s) ?T"
    using D(3) tick_okD(3,4) [OF D(3), of t] by (intro tick_ok_same) (auto simp: state_defs)
  moreover have "prio_ok ?T" using D(4) v by (simp add: prio_ok_upd)
  ultimately have "base_ok (set_prio t v s)" using D(5) by (simp add: eq base_ok_def)
  moreover have "reprio s (set_prio t v s)"
    using eq by (intro reprioI_task [where q = "g_ready_queue s" and t = t and v = v]) simp
  ultimately show ?thesis unfolding set_prio_spec_def by (simp add: eq)
qed

lemmas set_prio_cases = set_prio_ready set_prio_pended set_prio_other

lemma set_prio_ok:
  assumes "base_ok s" "ready (tasks s t) \<Longrightarrow> some_other_ready (tasks s) t" "v < RHINO_CONFIG_PRI_MAX"
  shows "set_prio_spec t v s (set_prio t v s)"
  using set_prio_cases [OF assms(1)] assms(2,3) by blast

section \<open>The loop of task_pri_change\<close>

abbreviation s_mtx_ok :: "kernel \<Rightarrow> bool" where
  "s_mtx_ok s \<equiv> mtx_ok (objs s) (mutexes s) (tasks s)"

abbreviation s_target :: "(tid \<Rightarrow> nat option) \<Rightarrow> kernel \<Rightarrow> tid \<Rightarrow> nat" where
  "s_target X s t \<equiv> pri_target X (objs s) (mutexes s) (tasks s) t"

abbreviation s_waiters :: "kernel \<Rightarrow> tid \<Rightarrow> tid set" where
  "s_waiters s t \<equiv> waiters (objs s) (mutexes s) t"

abbreviation s_owned :: "kernel \<Rightarrow> tid \<Rightarrow> oid set" where
  "s_owned s t \<equiv> owned (objs s) (mutexes s) t"

text \<open>A waiting task waits for one mutex, whose owner is another task.\<close>

lemma waiters_iff:
  assumes "blk_ok (objs s) (tasks s)"
  shows "w \<in> s_waiters s t \<longleftrightarrow> pended (tasks s w) \<and> is_mutex (objs s) (blk_obj (tasks s w))
    \<and> mutex_task (mutexes s (blk_obj (tasks s w))) = t"
  using blk_okD(2) [OF assms] by (auto simp: waiters_def owned_def)

lemma owner_facts:
  assumes "blk_ok (objs s) (tasks s)" "s_mtx_ok s" "pended (tasks s w)" "is_mutex (objs s) (blk_obj (tasks s w))"
    and "t = mutex_task (mutexes s (blk_obj (tasks s w)))"
  shows "t \<noteq> NULL" "live (tasks s t)" "t \<noteq> w" "w \<in> s_waiters s t" "s_owned s t \<noteq> {}"
proof -
  have m: "w \<in> set (blk_list (objs s (blk_obj (tasks s w))))" using blk_okD(2) [OF assms(1)] assms(3) by blast
  have wf: "mutex_wf (objs s) (mutexes s) (tasks s) (blk_obj (tasks s w))" using mtx_okD(3) [OF assms(2,4)] .
  show "t \<noteq> NULL" "live (tasks s t)" "t \<noteq> w" using m wf assms(5) by (auto simp: mutex_wf_def)
  show "w \<in> s_waiters s t" using assms by (simp add: waiters_iff [OF assms(1)])
  show "s_owned s t \<noteq> {}" using assms(4,5) by (auto simp: owned_def)
qed

lemma not_own_waiter:
  assumes "blk_ok (objs s) (tasks s)" "s_mtx_ok s"
  shows "t \<notin> s_waiters s t"
  using owner_facts(3) [OF assms, of t t] by (auto simp: waiters_iff [OF assms(1)])

text \<open>The loop, in terms of \<open>set_prio\<close>.\<close>

lemma task_pri_change_eq:
  assumes "live (tasks s t)" "prio (tasks s t) \<noteq> v" and s1: "s1 = set_prio t v s" "reprio s s1" "prio (tasks s1 t) = v"
  shows "task_pri_change t v s =
    (if pended (tasks s t) \<and> is_mutex (objs s) (blk_obj (tasks s t)) then
       let owner = mutex_task (mutexes s (blk_obj (tasks s t)))
       in if owner = NULL then Some (RHINO_SUCCESS, fault s1)
          else if prio (tasks s1 owner) > v then task_pri_change owner v s1
          else if prio (tasks s1 owner) = prio (tasks s t) then
            (case mutex_pri_look owner NULL s1 of
               None \<Rightarrow> None
             | Some (new_pri, s) \<Rightarrow>
                 if new_pri \<noteq> prio (tasks s owner) then task_pri_change owner new_pri s
                 else Some (RHINO_SUCCESS, s))
          else Some (RHINO_SUCCESS, s1)
     else Some (RHINO_SUCCESS, s1))"
proof -
  note same = reprio_same [OF s1(2)]
  show ?thesis
  proof (cases "pended (tasks s t)")
    case True
    have e: "pend_list_reorder t (upd_task t (\<lambda>k. k\<lparr>prio := v\<rparr>) s) = s1"
      using True by (auto simp: s1(1) set_prio_def state_defs)
    have st: "task_state (tasks s t) = K_PEND \<or> task_state (tasks s t) = K_PEND_SUSPENDED"
      using True by (simp add: pended_def)
    then show ?thesis
      using assms(2) True by (subst task_pri_change.simps) (auto simp: Let_def e same s1(3))
  next
    case False
    then show ?thesis
      using assms(1,2) s1(1)
      by (subst task_pri_change.simps) (auto simp: set_prio_def state_defs Let_def split: task_stat.splits)
  qed
qed

lemma target_unchanged:
  assumes "reprio s s1" "\<And>u. u \<noteq> t \<Longrightarrow> prio (tasks s1 u) = prio (tasks s u)" "t \<notin> s_waiters s u"
  shows "s_target X s1 u = s_target X s u"
proof -
  have "(\<lambda>w. prio (tasks s1 w)) ` s_waiters s u = (\<lambda>w. prio (tasks s w)) ` s_waiters s u"
    by (rule image_cong [OF refl]) (metis assms(2,3))
  then show ?thesis
    by (simp add: pri_target_def reprio_waiters [OF assms(1)] reprio_same [OF assms(1)])
qed

lemma target_bound:
  assumes "prio_ok (tasks s)" "blk_ok (objs s) (tasks s)" "live (tasks s t)"
    and "\<forall>x. X t = Some x \<longrightarrow> x < RHINO_CONFIG_PRI_MAX" "\<forall>u. live (tasks s u) \<longrightarrow> b_prio (tasks s u) < RHINO_CONFIG_PRI_MAX"
  shows "s_target X s t < RHINO_CONFIG_PRI_MAX"
  using pri_target_cases [of X "objs s" "mutexes s" "tasks s" t] assms pended_live
  by (auto simp: prio_ok_def waiters_iff [OF assms(2)])

text \<open>How the change of one waiting task from \<open>old\<close> to \<open>v\<close> changes what its owner inherits.\<close>

lemma owner_target:
  assumes re: "reprio s s1" and pr: "\<And>u. prio (tasks s1 u) = (if u = t then v else prio (tasks s u))"
    and w: "t \<in> s_waiters s o'" and ex: "prio (tasks s o') = s_target X s o'"
  shows "prio (tasks s o') \<le> prio (tasks s t)"
    and "v < prio (tasks s o') \<Longrightarrow> s_target X s1 o' = v"
    and "prio (tasks s o') \<le> v \<Longrightarrow> prio (tasks s o') \<noteq> prio (tasks s t) \<Longrightarrow> s_target X s1 o' = prio (tasks s o')"
    and "prio (tasks s o') \<le> v \<Longrightarrow> prio (tasks s o') \<le> s_target X s1 o'"
proof -
  note same = reprio_waiters [OF re] reprio_same [OF re]
  note le = pri_target_le [where X = X and B = "objs s" and M = "mutexes s" and T = "tasks s" and t = o', folded ex]
  show "prio (tasks s o') \<le> prio (tasks s t)" using le(2) [OF w] .
  show "s_target X s1 o' = v" if "v < prio (tasks s o')"
    using that le w by (intro pri_target_eqI) (auto simp: same pr intro: le_trans [OF less_imp_le])
  show "s_target X s1 o' = prio (tasks s o')"
    if "prio (tasks s o') \<le> v" "prio (tasks s o') \<noteq> prio (tasks s t)"
    using that le pri_target_cases [of X "objs s" "mutexes s" "tasks s" o', folded ex]
    by (intro pri_target_eqI) (auto simp: same pr)
  show "prio (tasks s o') \<le> s_target X s1 o'" if "prio (tasks s o') \<le> v"
    using that le pri_target_cases [of X "objs s1" "mutexes s1" "tasks s1" o']
    by (auto simp: same pr split: if_splits)
qed

text \<open>
  The priority that remains to be set for one task is set by the loop, and the inheritance
  is exact everywhere afterwards.  The measure is the number of tasks above the new priority
  while the loop raises, and the number of tasks at the old priority while it lowers.
\<close>

definition pri_measure :: "tid \<Rightarrow> nat \<Rightarrow> kernel \<Rightarrow> nat" where
  "pri_measure t v s =
     (if v < prio (tasks s t) then card {u. v < prio (tasks s u)}
      else card {u. prio (tasks s u) = prio (tasks s t)})"

definition pri_pre :: "(tid \<Rightarrow> nat option) \<Rightarrow> tid \<Rightarrow> nat \<Rightarrow> kernel \<Rightarrow> bool" where
  "pri_pre X t v s \<longleftrightarrow> base_ok s \<and> s_mtx_ok s \<and> live (tasks s t) \<and> v = s_target X s t
     \<and> (\<forall>u. u \<noteq> t \<longrightarrow> live (tasks s u) \<longrightarrow> pi_exact X (objs s) (mutexes s) (tasks s) u)
     \<and> (\<forall>u. live (tasks s u) \<longrightarrow> b_prio (tasks s u) < RHINO_CONFIG_PRI_MAX)
     \<and> (\<exists>u. ready (tasks s u) \<and> u \<noteq> t \<and> s_owned s u = {})
     \<and> (\<forall>u x. X u = Some x \<longrightarrow> x < RHINO_CONFIG_PRI_MAX)
     \<and> (X = no_extra \<or> v \<le> prio (tasks s t))"

definition pri_post :: "(tid \<Rightarrow> nat option) \<Rightarrow> kernel \<Rightarrow> kernel \<Rightarrow> bool" where
  "pri_post X s s' \<longleftrightarrow> base_ok s' \<and> reprio s s' \<and> pi_ok X (objs s') (mutexes s') (tasks s')"

lemma pri_post_trans: "reprio s s1 \<Longrightarrow> pri_post X s1 s' \<Longrightarrow> pri_post X s s'"
  using reprio_trans by (auto simp: pri_post_def)

text \<open>A loop that only raises leaves the tasks alone that are urgent enough.\<close>

definition pri_kept :: "(tid \<Rightarrow> nat option) \<Rightarrow> nat \<Rightarrow> kernel \<Rightarrow> kernel \<Rightarrow> bool" where
  "pri_kept X v s s' \<longleftrightarrow> X = no_extra \<or> (\<forall>u. prio (tasks s u) \<le> v \<longrightarrow> prio (tasks s' u) = prio (tasks s u))"

lemma pri_pre_step:
  assumes pre: "pri_pre X t v s" and s1: "base_ok s1" "reprio s s1"
    and pr: "\<And>u. prio (tasks s1 u) = (if u = t then v else prio (tasks s u))"
    and o': "t \<in> s_waiters s o'" "live (tasks s o')" "o' \<noteq> t" and ne: "prio (tasks s t) \<noteq> v"
  shows "\<And>u. u \<noteq> o' \<Longrightarrow> live (tasks s1 u) \<Longrightarrow> pi_exact X (objs s1) (mutexes s1) (tasks s1) u"
    and "pri_pre X o' (s_target X s1 o') s1"
proof -
  have blk: "blk_ok (objs s) (tasks s)" and mtx: "s_mtx_ok s"
    using pre base_okD(2) by (auto simp: pri_pre_def)
  have only: "t \<in> s_waiters s u \<longleftrightarrow> u = o'" for u
    using o'(1) waiters_iff [OF blk] by auto
  show ex: "pi_exact X (objs s1) (mutexes s1) (tasks s1) u" if "u \<noteq> o'" "live (tasks s1 u)" for u
  proof -
    have "s_target X s1 u = s_target X s u"
      using that(1) only pr by (intro target_unchanged [OF s1(2), of t]) auto
    moreover have "prio (tasks s1 u) = s_target X s u"
      using pre that(2) pr [of u] by (auto simp: pri_pre_def pi_exact_def reprio_same [OF s1(2)])
    ultimately show ?thesis by (simp add: pi_exact_def)
  qed
  have "s_owned s o' \<noteq> {}" using o'(1) by (auto simp: waiters_def)
  then have "\<exists>u. ready (tasks s1 u) \<and> u \<noteq> o' \<and> s_owned s1 u = {}"
    using pre by (auto simp: pri_pre_def reprio_owned [OF s1(2)] reprio_same [OF s1(2)])
  moreover have "X = no_extra \<or> s_target X s1 o' \<le> prio (tasks s1 o')"
  proof -
    have exo: "prio (tasks s o') = s_target X s o'" using pre o'(2,3) by (auto simp: pri_pre_def pi_exact_def)
    note own = owner_target [OF s1(2) pr o'(1) exo]
    have "s_target X s1 o' \<le> prio (tasks s o')" if "v < prio (tasks s t)"
      using own(2,3) that by (cases "v < prio (tasks s o')") auto
    moreover have "X = no_extra \<or> v < prio (tasks s t)" using pre ne by (auto simp: pri_pre_def)
    ultimately show ?thesis using pr o'(3) by auto
  qed
  ultimately show "pri_pre X o' (s_target X s1 o') s1"
    using pre ex s1(1) o'(2) reprio_mtx_ok [OF s1(2) mtx] by (simp add: pri_pre_def reprio_same [OF s1(2)])
qed

lemma pri_measure_raise:
  assumes "v < prio (tasks s t)" "v < prio (tasks s1 o')"
    and pr: "\<And>u. prio (tasks s1 u) = (if u = t then v else prio (tasks s u))"
  shows "pri_measure o' v s1 < pri_measure t v s"
proof -
  have "{u. v < prio (tasks s1 u)} = {u. v < prio (tasks s u)} - {t}" using pr by auto
  moreover have "card ({u. v < prio (tasks s u)} - {t}) < card {u. v < prio (tasks s u)}"
    using assms(1) by (intro card_Diff1_less) auto
  ultimately have "card {u. v < prio (tasks s1 u)} < card {u. v < prio (tasks s u)}" by metis
  then show ?thesis using assms by (simp add: pri_measure_def)
qed

lemma pri_measure_lower:
  assumes "prio (tasks s t) < v" "prio (tasks s o') = prio (tasks s t)" "o' \<noteq> t" "prio (tasks s o') \<le> n"
    and pr: "\<And>u. prio (tasks s1 u) = (if u = t then v else prio (tasks s u))"
  shows "pri_measure o' n s1 < pri_measure t v s"
proof -
  have "{u. prio (tasks s1 u) = prio (tasks s t)} = {u. prio (tasks s u) = prio (tasks s t)} - {t}"
    using pr assms(1) by auto
  moreover have "card ({u. prio (tasks s u) = prio (tasks s t)} - {t}) < card {u. prio (tasks s u) = prio (tasks s t)}"
    by (intro card_Diff1_less) auto
  ultimately have "card {u. prio (tasks s1 u) = prio (tasks s t)} < card {u. prio (tasks s u) = prio (tasks s t)}"
    by metis
  moreover have "prio (tasks s1 o') = prio (tasks s t)" using pr assms(2,3) by simp
  ultimately show ?thesis using assms by (simp add: pri_measure_def)
qed

lemma mutex_pri_look_target:
  assumes "base_ok s" "s_mtx_ok s" "live (tasks s t)"
  shows "mutex_pri_look t NULL s = Some (s_target no_extra s t, s)"
proof -
  obtain ms where ms: "chain_of (mutexes s) (tasks s t) ms" "set ms = s_owned s t"
    using mtx_okD(1) [OF assms(2,3)] by blast
  have "NULL \<notin> set ms" using ms(2) mtx_okD(3) [OF assms(2)] by (auto simp: owned_def mutex_wf_def)
  from mutex_pri_look_keep [OF ms(1) this] show ?thesis
    using chain_pri_target [OF base_okD(2) [OF assms(1)] assms(2) ms(2)] by simp
qed

lemma task_pri_change_exact:
  "pri_pre X t v s \<Longrightarrow> \<exists>s'. task_pri_change t v s = Some (RHINO_SUCCESS, s') \<and> pri_post X s s' \<and> pri_kept X v s s'"
proof (induction "pri_measure t v s" arbitrary: t v s rule: less_induct)
  case less
  note pre = less.prems
  have base: "base_ok s" and mtx: "s_mtx_ok s" and lv: "live (tasks s t)" and v: "v = s_target X s t"
    and ex: "\<And>u. u \<noteq> t \<Longrightarrow> live (tasks s u) \<Longrightarrow> prio (tasks s u) = s_target X s u"
    using pre by (auto simp: pri_pre_def pi_exact_def)
  have blk: "blk_ok (objs s) (tasks s)" using base_okD(2) [OF base] .
  show ?case
  proof (cases "prio (tasks s t) = v")
    case True
    then have "prio (tasks s u) = s_target X s u" if "live (tasks s u)" for u
      using ex [of u] v that by (cases "u = t") auto
    then have "pri_post X s s" using base by (simp add: pri_post_def pi_ok_def pi_exact_def)
    with True show ?thesis by (subst task_pri_change.simps) (auto simp: pri_kept_def)
  next
    case False
    define s1 where "s1 = set_prio t v s"
    have "v < RHINO_CONFIG_PRI_MAX"
      using pre target_bound [OF base_okD(4) [OF base] blk lv] by (simp add: v pri_pre_def)
    then have "set_prio_spec t v s s1"
      unfolding s1_def using base pre by (intro set_prio_ok) (auto simp: pri_pre_def some_other_ready_def)
    then have s1: "base_ok s1" "reprio s s1"
      and pr: "\<And>u. prio (tasks s1 u) = (if u = t then v else prio (tasks s u))"
      by (auto simp: set_prio_spec_def)
    have kept: "pri_kept X v s s1" using pr pre False by (auto simp: pri_kept_def pri_pre_def)
    have "prio (tasks s1 t) = v" using pr by simp
    note eq = task_pri_change_eq [OF lv False s1_def s1(2) this]
    show ?thesis
    proof (cases "pended (tasks s t) \<and> is_mutex (objs s) (blk_obj (tasks s t))")
      case False
      then have "s_target X s1 u = s_target X s u" for u
        using waiters_iff [OF blk, of t u] pr by (intro target_unchanged [OF s1(2), of t]) auto
      then have "pri_post X s s1"
        using s1 ex v pr by (auto simp: pri_post_def pi_ok_def pi_exact_def reprio_same [OF s1(2)])
      with eq False kept show ?thesis by auto
    next
      case True
      define o' where "o' = mutex_task (mutexes s (blk_obj (tasks s t)))"
      note o = owner_facts [OF blk mtx conjunct1 [OF True] conjunct2 [OF True] o'_def]
      have po: "prio (tasks s1 o') = prio (tasks s o')" using pr o(3) by simp
      note own = owner_target [OF s1(2) pr o(4) ex [OF o(3,2)]]
      note step = pri_pre_step [OF pre s1 pr o(4,2,3) False]
      have done1: "pri_post X s s1" if "s_target X s1 o' = prio (tasks s o')"
      proof -
        have "pi_exact X (objs s1) (mutexes s1) (tasks s1) o'" using that po by (simp add: pi_exact_def)
        with step(1) s1 show ?thesis unfolding pri_post_def pi_ok_def by metis
      qed
      have look: "mutex_pri_look o' NULL s1 = Some (s_target X s1 o', s1)" if "prio (tasks s t) \<le> v"
      proof -
        have "X = no_extra" using pre that False by (auto simp: pri_pre_def)
        then show ?thesis using step(2) mutex_pri_look_target [of s1 o'] by (auto simp: pri_pre_def)
      qed
      have eq': "task_pri_change t v s =
         (if prio (tasks s o') > v then task_pri_change o' v s1
          else if prio (tasks s o') = prio (tasks s t) then
            if s_target X s1 o' \<noteq> prio (tasks s o') then task_pri_change o' (s_target X s1 o') s1
            else Some (RHINO_SUCCESS, s1)
          else Some (RHINO_SUCCESS, s1))"
        using eq True o(1) look by (simp add: o'_def [symmetric] po)
      have rec: "\<exists>s'. task_pri_change o' n s1 = Some (RHINO_SUCCESS, s') \<and> pri_post X s s' \<and> pri_kept X v s s'"
        if n: "n = s_target X s1 o'" "pri_measure o' n s1 < pri_measure t v s" "X = no_extra \<or> n = v" for n
      proof -
        obtain s' where s': "task_pri_change o' n s1 = Some (RHINO_SUCCESS, s')" "pri_post X s1 s'" "pri_kept X n s1 s'"
          using less.hyps [OF n(2)] step(2) n(1) by blast
        moreover have "pri_kept X v s s'" using s'(3) kept n(3) by (auto simp: pri_kept_def)
        ultimately show ?thesis using pri_post_trans [OF s1(2)] by blast
      qed
      consider (raise) "v < prio (tasks s o')" | (same) "prio (tasks s o') \<le> v" "prio (tasks s o') \<noteq> prio (tasks s t)"
        | (lower) "prio (tasks s o') \<le> v" "prio (tasks s o') = prio (tasks s t)" by linarith
      then show ?thesis
      proof cases
        case raise
        then have "pri_measure o' v s1 < pri_measure t v s"
          using own(1) po pr by (intro pri_measure_raise) auto
        with rec [of v] own(2) [OF raise] eq' raise show ?thesis by simp
      next
        case same
        with done1 own(3) [OF same] eq' kept show ?thesis by simp
      next
        case lower
        then have "pri_measure o' (s_target X s1 o') s1 < pri_measure t v s"
          using own(4) pr False o(3) by (intro pri_measure_lower) auto
        moreover have "X = no_extra" using pre lower False by (auto simp: pri_pre_def)
        ultimately show ?thesis using rec [of "s_target X s1 o'"] done1 eq' lower kept
          by (cases "s_target X s1 o' = prio (tasks s o')") auto
      qed
    qed
  qed
qed

end
