(* ===== verification/Rhino_Invariant.thy ===== *)
theory Rhino_Invariant
  imports Rhino_Mutex
begin

text \<open>
  The invariant of the running kernel, \<open>kinv\<close>: the lists agree with the task states
  (\<open>base_ok\<close>), ownership of mutexes is consistent (\<open>mtx_ok\<close>), priority inheritance is exact
  (\<open>pi_ok\<close>), and there is an idle task that is always ready and holds no mutex (\<open>idle_ok\<close>).
  \<open>sched_ok\<close> adds that the running task is the one the scheduler prefers, unless the scheduler
  is locked or an interrupt is being served.

  \<open>kinvx X\<close> excepts the objects in \<open>X\<close>, which are being taken apart, from the rule that only
  an object of some type has waiting tasks; \<open>kinv\<close> is \<open>kinvx {}\<close>.

  \<open>mutex_frame\<close> relates states that agree on everything the ownership and the inheritance
  depend on; the operations on the other kernel objects are of that kind.  The lemma
  \<open>waiter_left\<close> is about a task that stops waiting without having got what it waited for.
\<close>

section \<open>The invariant\<close>

definition idle_task_ok :: "kernel \<Rightarrow> tid \<Rightarrow> bool" where
  "idle_task_ok s u \<longleftrightarrow> ready (tasks s u) \<and> b_prio (tasks s u) = RHINO_IDLE_PRI \<and> s_owned s u = {}
     \<and> (\<forall>t. live (tasks s t) \<longrightarrow> t \<noteq> u \<longrightarrow> b_prio (tasks s t) < RHINO_IDLE_PRI)"

definition idle_ok :: "kernel \<Rightarrow> bool" where
  "idle_ok s \<longleftrightarrow> (\<exists>u. idle_task_ok s u)"

abbreviation s_pi_ok :: "kernel \<Rightarrow> bool" where
  "s_pi_ok s \<equiv> pi_ok no_extra (objs s) (mutexes s) (tasks s)"

definition kinvx :: "oid set \<Rightarrow> kernel \<Rightarrow> bool" where
  "kinvx X s \<longleftrightarrow> base_ok s \<and> none_ok X (objs s) \<and> s_mtx_ok s \<and> s_pi_ok s \<and> idle_ok s"

abbreviation kinv :: "kernel \<Rightarrow> bool" where
  "kinv s \<equiv> kinvx {} s"

lemma kinvD:
  assumes "kinvx X s"
  shows "base_ok s" "none_ok X (objs s)" "s_mtx_ok s" "s_pi_ok s" "idle_ok s"
  using assms by (simp_all add: kinvx_def)

lemma kinvI: "\<lbrakk>base_ok s; none_ok X (objs s); s_mtx_ok s; s_pi_ok s; idle_ok s\<rbrakk> \<Longrightarrow> kinvx X s"
  by (simp add: kinvx_def)

text \<open>
  The system is running, and the running task is ready and preferred, or protected by the
  scheduler lock, whose count is bounded.
\<close>

definition sched_ok :: "kernel \<Rightarrow> bool" where
  "sched_ok s \<longleftrightarrow> g_sys_stat s = RHINO_RUNNING \<and> g_idle_task_spawned s > 0 \<and> g_sched_lock s \<le> SCHED_MAX_LOCK_COUNT
     \<and> (g_intrpt_nested_level s = 0 \<and> g_sched_lock s = 0 \<longrightarrow>
        preferred_cpu_ready_task_get (g_ready_queue s) = Some (g_active_task s))
     \<and> (g_sched_lock s > 0 \<longrightarrow> ready (tasks s (g_active_task s)))"

lemma idle_pri_bound: "RHINO_IDLE_PRI < RHINO_CONFIG_PRI_MAX"
  by (simp add: RHINO_IDLE_PRI_def RHINO_CONFIG_PRI_MAX_def)

lemma idle_bpri:
  assumes "idle_task_ok s u" "live (tasks s t)"
  shows "b_prio (tasks s t) < RHINO_CONFIG_PRI_MAX"
  using assms idle_pri_bound by (cases "t = u") (auto simp: idle_task_ok_def)

lemma idle_prio:
  assumes "s_pi_ok s" "idle_task_ok s u"
  shows "prio (tasks s u) = RHINO_IDLE_PRI"
proof -
  have "live (tasks s u)" using assms(2) by (auto simp: idle_task_ok_def state_defs)
  then have "prio (tasks s u) = s_target no_extra s u" using assms(1) by (simp add: pi_ok_def pi_exact_def)
  also have "\<dots> = b_prio (tasks s u)" using assms(2) by (simp add: pri_target_def waiters_def idle_task_ok_def)
  finally show ?thesis using assms(2) by (simp add: idle_task_ok_def)
qed

lemma kinv_prio_le_base:
  assumes "s_pi_ok s" "live (tasks s t)"
  shows "prio (tasks s t) \<le> b_prio (tasks s t)"
  using assms pri_target_le(1) by (simp add: pi_ok_def pi_exact_def)

text \<open>A task below the idle priority is not the idle task, so another task is ready.\<close>

lemma idle_other:
  assumes "s_pi_ok s" "idle_task_ok s u" "prio (tasks s t) \<noteq> RHINO_IDLE_PRI"
  shows "t \<noteq> u" "some_other_ready (tasks s) t"
  using idle_prio [OF assms(1,2)] assms(2,3) by (auto simp: idle_task_ok_def some_other_ready_def)

lemma kinv_other:
  assumes "kinvx X s" "prio (tasks s t) \<noteq> RHINO_IDLE_PRI"
  shows "some_other_ready (tasks s) t"
  using kinvD(4,5) [OF assms(1)] assms(2) idle_other(2) by (auto simp: idle_ok_def)

lemma kinv_some_ready:
  assumes "kinvx X s"
  shows "\<exists>u p. u \<in> set (cur_list_item (g_ready_queue s) p)"
  using kinvD(1,5) [OF assms] base_okD(1) by (auto simp: idle_ok_def idle_task_ok_def rdy_ok_def)

section \<open>Parts of the state the invariant does not read\<close>

lemma base_ok_frame [simp]:
  "base_ok (s\<lparr>mutexes := M\<rparr>) = base_ok s" "base_ok (s\<lparr>sems := S\<rparr>) = base_ok s"
  "base_ok (s\<lparr>events := E\<rparr>) = base_ok s" "base_ok (s\<lparr>queues := Q\<rparr>) = base_ok s"
  "base_ok (s\<lparr>buf_queues := BQ\<rparr>) = base_ok s" "base_ok (s\<lparr>g_kobj_list := KL\<rparr>) = base_ok s"
  "base_ok (s\<lparr>g_active_task := t\<rparr>) = base_ok s" "base_ok (s\<lparr>g_preferred_ready_task := t\<rparr>) = base_ok s"
  "base_ok (s\<lparr>g_sched_lock := l\<rparr>) = base_ok s" "base_ok (s\<lparr>g_intrpt_nested_level := l\<rparr>) = base_ok s"
  "base_ok (s\<lparr>k_err_log := e\<rparr>) = base_ok s" "base_ok (s\<lparr>user_words := w\<rparr>) = base_ok s"
  "base_ok (s\<lparr>user_bufs := ub\<rparr>) = base_ok s" "base_ok (s\<lparr>g_sys_stat := st\<rparr>) = base_ok s"
  "base_ok (s\<lparr>g_idle_task_spawned := sp\<rparr>) = base_ok s" "base_ok (s\<lparr>g_res_list := rl\<rparr>) = base_ok s"
  "base_ok (s\<lparr>stack_mem := sm\<rparr>) = base_ok s"
  by (simp_all add: base_ok_def)

lemma kinv_frame [simp]:
  "kinvx X (s\<lparr>sems := S\<rparr>) = kinvx X s"
  "kinvx X (s\<lparr>events := E\<rparr>) = kinvx X s" "kinvx X (s\<lparr>queues := Q\<rparr>) = kinvx X s"
  "kinvx X (s\<lparr>buf_queues := BQ\<rparr>) = kinvx X s" "kinvx X (s\<lparr>g_kobj_list := KL\<rparr>) = kinvx X s"
  "kinvx X (s\<lparr>g_active_task := t\<rparr>) = kinvx X s" "kinvx X (s\<lparr>g_preferred_ready_task := t\<rparr>) = kinvx X s"
  "kinvx X (s\<lparr>g_sched_lock := l\<rparr>) = kinvx X s" "kinvx X (s\<lparr>g_intrpt_nested_level := l\<rparr>) = kinvx X s"
  "kinvx X (s\<lparr>k_err_log := e\<rparr>) = kinvx X s" "kinvx X (s\<lparr>user_words := w\<rparr>) = kinvx X s"
  "kinvx X (s\<lparr>user_bufs := ub\<rparr>) = kinvx X s" "kinvx X (s\<lparr>g_sys_stat := st\<rparr>) = kinvx X s"
  "kinvx X (s\<lparr>g_idle_task_spawned := sp\<rparr>) = kinvx X s" "kinvx X (s\<lparr>g_res_list := rl\<rparr>) = kinvx X s"
  "kinvx X (s\<lparr>stack_mem := sm\<rparr>) = kinvx X s"
  by (simp_all add: kinvx_def idle_ok_def idle_task_ok_def)

text \<open>The parts it reads.\<close>

lemma kinvx_cong:
  assumes "tasks s' = tasks s" "objs s' = objs s" "mutexes s' = mutexes s" "g_ready_queue s' = g_ready_queue s"
    and "g_tick_head s' = g_tick_head s" "g_tick_count s' = g_tick_count s" "k_fault s' = k_fault s"
  shows "kinvx X s' = kinvx X s"
  using assms by (simp add: kinvx_def base_ok_def idle_ok_def idle_task_ok_def)

section \<open>The scheduler\<close>

lemma core_sched_eq:
  assumes "kinvx X s"
  shows "\<exists>p t. core_sched s = s\<lparr>g_preferred_ready_task := p, g_active_task := t\<rparr>
    \<and> (if g_intrpt_nested_level s = 0 \<and> g_sched_lock s = 0
       then preferred_cpu_ready_task_get (g_ready_queue s) = Some t else t = g_active_task s)"
proof (cases "g_intrpt_nested_level s = 0 \<and> g_sched_lock s = 0")
  case True
  obtain u p where "u \<in> set (cur_list_item (g_ready_queue s) p)" using kinv_some_ready [OF assms] by blast
  then have "cur_list_item (g_ready_queue s) p \<noteq> []" by auto
  then obtain t where t: "preferred_cpu_ready_task_get (g_ready_queue s) = Some t"
    using rq_preferred(1) base_okD(1) [OF kinvD(1) [OF assms]] by (auto simp: rdy_ok_def)
  show ?thesis
  proof (cases "t = g_active_task s")
    case eq: True
    have "core_sched s = s\<lparr>g_preferred_ready_task := g_preferred_ready_task s, g_active_task := t\<rparr>"
      using True t eq by (simp add: core_sched_def)
    with True t show ?thesis
      by - (rule exI [of _ "g_preferred_ready_task s"], rule exI [of _ t], simp)
  next
    case False
    with True t show ?thesis by (auto simp: core_sched_def)
  qed
next
  case False
  then have "core_sched s = s\<lparr>g_preferred_ready_task := g_preferred_ready_task s, g_active_task := g_active_task s\<rparr>"
    by (auto simp: core_sched_def word_neq_0_conv)
  with False show ?thesis
    by - (rule exI [of _ "g_preferred_ready_task s"], rule exI [of _ "g_active_task s"], auto)
qed

lemma core_sched_kinv: "kinvx X s \<Longrightarrow> kinvx X (core_sched s)"
  using core_sched_eq [of X s] by auto

lemma core_sched_sched_ok:
  assumes "kinvx X s" "g_sched_lock s > 0 \<Longrightarrow> ready (tasks s (g_active_task s))"
    and "g_sys_stat s = RHINO_RUNNING" "g_idle_task_spawned s > 0" "g_sched_lock s \<le> SCHED_MAX_LOCK_COUNT"
  shows "sched_ok (core_sched s)"
  using core_sched_eq [OF assms(1)] assms(2-5) by (auto simp: sched_ok_def word_neq_0_conv split: if_splits)

lemma core_sched_fields [simp]:
  "tasks (core_sched s) = tasks s" "objs (core_sched s) = objs s" "mutexes (core_sched s) = mutexes s"
  "sems (core_sched s) = sems s" "g_tick_head (core_sched s) = g_tick_head s"
  "g_ready_queue (core_sched s) = g_ready_queue s" "g_sched_lock (core_sched s) = g_sched_lock s"
  "g_intrpt_nested_level (core_sched s) = g_intrpt_nested_level s" "g_tick_count (core_sched s) = g_tick_count s"
  "events (core_sched s) = events s" "queues (core_sched s) = queues s" "buf_queues (core_sched s) = buf_queues s"
  "user_words (core_sched s) = user_words s" "user_bufs (core_sched s) = user_bufs s"
  "g_sys_stat (core_sched s) = g_sys_stat s" "g_idle_task_spawned (core_sched s) = g_idle_task_spawned s"
  by (simp_all add: core_sched_def fault_def split: option.split)

section \<open>Ownership and inheritance under changes\<close>

text \<open>Agreement on what ownership and inheritance depend on.\<close>

definition mutex_frame :: "kernel \<Rightarrow> kernel \<Rightarrow> bool" where
  "mutex_frame s s' \<longleftrightarrow> mutexes s' = mutexes s
     \<and> (\<forall>i. is_mutex (objs s') i \<longleftrightarrow> is_mutex (objs s) i)
     \<and> (\<forall>i. is_mutex (objs s) i \<longrightarrow> blk_list (objs s' i) = blk_list (objs s i)
          \<and> blk_policy (objs s' i) = blk_policy (objs s i))
     \<and> (\<forall>t. live (tasks s' t) = live (tasks s t) \<and> mutex_list (tasks s' t) = mutex_list (tasks s t)
          \<and> prio (tasks s' t) = prio (tasks s t) \<and> b_prio (tasks s' t) = b_prio (tasks s t))"

lemma mutex_frame_owned: "mutex_frame s s' \<Longrightarrow> s_owned s' t = s_owned s t"
  by (auto simp: mutex_frame_def owned_def)

lemma mutex_frame_waiters: "mutex_frame s s' \<Longrightarrow> s_waiters s' t = s_waiters s t"
  unfolding waiters_def using mutex_frame_owned [of s s' t]
  by (auto simp: mutex_frame_def owned_def)

lemma mutex_frame_ok:
  assumes "mutex_frame s s'" "s_mtx_ok s" "s_pi_ok s"
  shows "s_mtx_ok s'" "s_pi_ok s'"
proof -
  note F = assms(1) [unfolded mutex_frame_def]
  show "s_mtx_ok s'"
    using assms(2) F mutex_frame_owned [OF assms(1)]
    by (simp add: mtx_ok_def mutex_wf_def chain_of_def)
  show "s_pi_ok s'"
    using assms(3) F mutex_frame_waiters [OF assms(1)]
    by (simp add: pi_ok_def pi_exact_def pri_target_def)
qed

lemma idle_ok_frame:
  assumes "idle_ok s" "\<And>t. s_owned s' t \<subseteq> s_owned s t"
    and "\<And>t. live (tasks s' t) \<Longrightarrow> live (tasks s t) \<and> b_prio (tasks s' t) = b_prio (tasks s t)"
    and "\<And>u. idle_task_ok s u \<Longrightarrow> ready (tasks s' u)"
  shows "idle_ok s'"
proof -
  obtain u where u: "idle_task_ok s u" using assms(1) by (auto simp: idle_ok_def)
  have "ready (tasks s' u)" using assms(4) [OF u] .
  moreover from this have "live (tasks s' u)" by (simp add: state_defs)
  ultimately have "idle_task_ok s' u" using u assms(2,3) by (force simp: idle_task_ok_def)
  then show ?thesis by (auto simp: idle_ok_def)
qed

lemma kinv_mutex_frame:
  assumes "kinvx X s" "mutex_frame s s'" "base_ok s'" "none_ok X (objs s')"
    and "\<And>u. idle_task_ok s u \<Longrightarrow> ready (tasks s' u)"
  shows "kinvx X s'"
proof (rule kinvI)
  show "s_mtx_ok s'" "s_pi_ok s'" using mutex_frame_ok [OF assms(2)] kinvD(3,4) [OF assms(1)] by auto
  show "idle_ok s'"
    using kinvD(5) [OF assms(1)] assms(2,5) mutex_frame_owned [OF assms(2)]
    by (intro idle_ok_frame [of s s']) (auto simp: mutex_frame_def)
qed fact+

text \<open>Changes of priorities as \<^verbatim>\<open>task_pri_change\<close> makes them.\<close>

lemma pri_preI:
  assumes "base_ok s" "s_mtx_ok s" "live (tasks s t)" "idle_ok s" "s_owned s t \<noteq> {} \<or> b_prio (tasks s t) \<noteq> RHINO_IDLE_PRI"
    and "\<And>u. u \<noteq> t \<Longrightarrow> live (tasks s u) \<Longrightarrow> pi_exact X (objs s) (mutexes s) (tasks s) u"
    and "\<And>u x. X u = Some x \<Longrightarrow> x < RHINO_CONFIG_PRI_MAX" "X = no_extra \<or> s_target X s t \<le> prio (tasks s t)"
  shows "pri_pre X t (s_target X s t) s"
proof -
  obtain u where u: "idle_task_ok s u" using assms(4) by (auto simp: idle_ok_def)
  then have "u \<noteq> t" using assms(5) by (auto simp: idle_task_ok_def)
  then show ?thesis
    using assms u idle_bpri [OF u] by (auto simp: pri_pre_def idle_task_ok_def)
qed

lemma pri_change_exact:
  assumes "pri_pre X t v s"
  shows "pri_post X s (pri_change t v s)" "pri_kept X v s (pri_change t v s)"
  using task_pri_change_exact [OF assms] by (auto simp: pri_change_def)

lemma pri_release:
  assumes "pri_pre no_extra t v s"
  shows "pri_post no_extra s (if v \<noteq> prio (tasks s t) then pri_change t v s else s)"
proof (cases "v = prio (tasks s t)")
  case True
  have pre: "base_ok s" "v = s_target no_extra s t"
    "\<And>u. u \<noteq> t \<Longrightarrow> live (tasks s u) \<Longrightarrow> pi_exact no_extra (objs s) (mutexes s) (tasks s) u"
    using assms by (auto simp: pri_pre_def)
  then have "pi_exact no_extra (objs s) (mutexes s) (tasks s) t" using True by (simp add: pi_exact_def)
  with pre(3) have "s_pi_ok s" unfolding pi_ok_def by metis
  with True pre(1) show ?thesis by (simp add: pri_post_def)
next
  case False
  with pri_change_exact(1) [OF assms] show ?thesis by simp
qed

lemma mutex_release_exact:
  assumes "pri_pre no_extra t v s"
  shows "pri_post no_extra s (mutex_release t NULL s)"
proof -
  have "mutex_pri_look t NULL s = Some (v, s)"
    using mutex_pri_look_target [of s t] assms by (auto simp: pri_pre_def)
  with pri_release [OF assms] show ?thesis by (simp add: mutex_release_def)
qed

lemma kinv_pri_post:
  assumes "pri_post no_extra s s'" "s_mtx_ok s" "none_ok X (objs s)" "idle_ok s"
  shows "kinvx X s'"
proof -
  have re: "reprio s s'" using assms(1) by (simp add: pri_post_def)
  show ?thesis
  proof (rule kinvI)
    show "base_ok s'" "s_pi_ok s'" using assms(1) by (auto simp: pri_post_def)
    show "none_ok X (objs s')" using reprio_none_ok [OF re assms(3)] .
    show "s_mtx_ok s'" using reprio_mtx_ok [OF re assms(2)] .
    show "idle_ok s'"
      using assms(4) by (simp add: idle_ok_def idle_task_ok_def reprio_owned [OF re] reprio_same [OF re])
  qed
qed

section \<open>A task that stops waiting\<close>

text \<open>
  The states in which a pending task has just been taken off the lists, with its new block
  \<open>k\<close>, before its owner's priority is looked at.
\<close>

definition left_state :: "tid \<Rightarrow> ktask \<Rightarrow> runqueue \<Rightarrow> tid list \<Rightarrow> kernel \<Rightarrow> kernel" where
  "left_state t k q ts s =
     s\<lparr>g_ready_queue := q, g_tick_head := ts,
       objs := (objs s)(blk_obj (tasks s t) := (objs s (blk_obj (tasks s t)))\<lparr>blk_list :=
         remove1 t (blk_list (objs s (blk_obj (tasks s t))))\<rparr>),
       tasks := (tasks s)(t := k)\<rparr>"

lemma left_state_simps [simp]:
  "mutexes (left_state t k q ts s) = mutexes s" "tasks (left_state t k q ts s) = (tasks s)(t := k)"
  "obj_type (objs (left_state t k q ts s) i) = obj_type (objs s i)"
  "blk_policy (objs (left_state t k q ts s) i) = blk_policy (objs s i)"
  "owned (objs (left_state t k q ts s)) M u = owned (objs s) M u"
  by (auto simp: left_state_def owned_def)

lemma left_state_blk:
  assumes "blk_ok (objs s) (tasks s)"
  shows "set (blk_list (objs (left_state t k q ts s) i)) = set (blk_list (objs s i)) - {t}"
  using blk_okD(1,2) [OF assms] by (auto simp: left_state_def)

lemma left_state_waiters:
  assumes "blk_ok (objs s) (tasks s)"
  shows "s_waiters (left_state t k q ts s) u = s_waiters s u - {t}"
  by (auto simp: waiters_def left_state_blk [OF assms])

definition left_ok :: "tid \<Rightarrow> ktask \<Rightarrow> kernel \<Rightarrow> bool" where
  "left_ok t k s \<longleftrightarrow> \<not> pended k \<and> blk_obj k = blk_obj (tasks s t) \<and> prio k = prio (tasks s t)
     \<and> (if live k then b_prio k = b_prio (tasks s t) \<and> mutex_list k = mutex_list (tasks s t) else s_owned s t = {})"

lemma left_state_mtx:
  assumes "kinv s" "pended (tasks s t)" "left_ok t k s"
  shows "s_mtx_ok (left_state t k q ts s)" "none_ok {} (objs (left_state t k q ts s))"
    and "idle_ok (left_state t k q ts s)"
proof -
  let ?s = "left_state t k q ts s"
  have blk: "blk_ok (objs s) (tasks s)" and mtx: "s_mtx_ok s" using kinvD(1,3) [OF assms(1)] base_okD(2) by auto
  have lv: "live (tasks s t)" using pended_live [OF assms(2)] .
  have sub: "set (blk_list (objs ?s m)) \<subseteq> set (blk_list (objs s m))" for m
    using left_state_blk [OF blk] by auto
  have "mutex_wf (objs ?s) (mutexes ?s) (tasks ?s) m" if m: "is_mutex (objs ?s) m" for m
  proof -
    have wf: "mutex_wf (objs s) (mutexes s) (tasks s) m" using mtx_okD(3) [OF mtx] m by simp
    have "live k" if "mutex_task (mutexes s m) = t"
      using assms(3) that m by (auto simp: left_ok_def owned_def split: if_splits)
    moreover have "blk_list (objs s m) \<noteq> []" if "blk_list (objs ?s m) \<noteq> []" using sub [of m] that by auto
    moreover have "mutex_task (mutexes s m) \<notin> set (blk_list (objs ?s m))" using wf sub [of m] by (auto simp: mutex_wf_def)
    ultimately show ?thesis
      using wf by (cases "mutex_task (mutexes s m) = t") (simp_all add: mutex_wf_def)
  qed
  moreover have "\<exists>ms. chain_of (mutexes ?s) (tasks ?s u) ms \<and> set ms = s_owned ?s u" "u \<noteq> NULL"
    if "live (tasks ?s u)" for u
  proof -
    have lu: "live (tasks s u)" using that lv by (cases "u = t") simp_all
    show "u \<noteq> NULL" using mtx_okD(2) [OF mtx lu] .
    have "mutex_list (tasks ?s u) = mutex_list (tasks s u)" using assms(3) that by (simp add: left_ok_def split: if_splits)
    then show "\<exists>ms. chain_of (mutexes ?s) (tasks ?s u) ms \<and> set ms = s_owned ?s u"
      using mtx_okD(1) [OF mtx lu] by (simp add: chain_of_def)
  qed
  ultimately show "s_mtx_ok ?s" unfolding mtx_ok_def by blast
  have "blk_list (objs ?s i) = []" if "obj_type (objs ?s i) = RHINO_OBJ_TYPE_NONE" for i
    using kinvD(2) [OF assms(1)] that sub [of i] by (simp add: none_ok_def)
  then show "none_ok {} (objs ?s)" by (simp add: none_ok_def)
  have "u \<noteq> t" if "idle_task_ok s u" for u using that assms(2) by (auto simp: idle_task_ok_def state_defs)
  then have r: "ready (tasks ?s u)" if "idle_task_ok s u" for u using that by (auto simp: idle_task_ok_def)
  have l: "live (tasks s u) \<and> b_prio (tasks ?s u) = b_prio (tasks s u)" if "live (tasks ?s u)" for u
    using that lv assms(3) by (cases "u = t") (simp_all add: left_ok_def)
  show "idle_ok ?s"
    by (rule idle_ok_frame [OF kinvD(5) [OF assms(1)]]) (simp, erule l, erule r)
qed

lemma left_state_exact:
  assumes "kinv s" "pended (tasks s t)" "left_ok t k s" "live (tasks (left_state t k q ts s) u)" "t \<notin> s_waiters s u"
  shows "pi_exact no_extra (objs (left_state t k q ts s)) (mutexes (left_state t k q ts s)) (tasks (left_state t k q ts s)) u"
proof -
  let ?s = "left_state t k q ts s"
  have blk: "blk_ok (objs s) (tasks s)" using kinvD(1) [OF assms(1)] base_okD(2) by auto
  have lv: "live (tasks s u)" using assms(4) pended_live [OF assms(2)] by (auto split: if_splits)
  have "s_waiters ?s u = s_waiters s u" using left_state_waiters [OF blk] assms(5) by auto
  moreover have "(\<lambda>w. prio (tasks ?s w)) = (\<lambda>w. prio (tasks s w))" "b_prio (tasks ?s u) = b_prio (tasks s u)"
    using assms(3,4) by (auto simp: left_ok_def split: if_splits)
  ultimately have "s_target no_extra ?s u = s_target no_extra s u" by (simp only: pri_target_def)
  moreover have "prio (tasks ?s u) = prio (tasks s u)" using assms(3) by (simp add: left_ok_def)
  ultimately show ?thesis
    using kinvD(4) [OF assms(1)] lv by (simp add: pi_ok_def pi_exact_def)
qed

lemma waiter_left:
  assumes inv: "kinv s" and pend: "pended (tasks s t)" and k: "left_ok t k s"
    and base: "base_ok (left_state t k q ts s)"
  defines "s1 \<equiv> left_state t k q ts s"
  shows "kinv (mutex_task_pri_reset t s1)" "reprio s1 (mutex_task_pri_reset t s1)"
proof -
  note M = left_state_mtx [OF inv pend k, of q ts, folded s1_def]
  have blk: "blk_ok (objs s) (tasks s)" and mtx: "s_mtx_ok s" using kinvD(1,3) [OF inv] base_okD(2) by auto
  let ?i = "blk_obj (tasks s t)"
  have i: "blk_obj (tasks s1 t) = ?i" using k by (simp add: s1_def left_ok_def)
  have "kinv (mutex_task_pri_reset t s1) \<and> reprio s1 (mutex_task_pri_reset t s1)"
  proof (cases "is_mutex (objs s) ?i")
    case False
    then have "s_pi_ok s1"
      using left_state_exact [OF inv pend k, of q ts] waiters_iff [OF blk] by (auto simp: pi_ok_def s1_def)
    with M base False i show ?thesis by (simp add: mutex_task_pri_reset_def kinvx_def s1_def)
  next
    case True
    define o' where "o' = mutex_task (mutexes s ?i)"
    note o = owner_facts [OF blk mtx pend True o'_def]
    have ex: "pi_exact no_extra (objs s1) (mutexes s1) (tasks s1) u" if "u \<noteq> o'" "live (tasks s1 u)" for u
      using that left_state_exact [OF inv pend k, of q ts u] waiters_iff [OF blk, of t u]
      by (simp add: s1_def o'_def)
    have po: "prio (tasks s1 o') = prio (tasks s o')" "prio (tasks s1 t) = prio (tasks s t)"
      using o(3) k by (simp_all add: s1_def left_ok_def)
    show ?thesis
    proof (cases "prio (tasks s o') = prio (tasks s t)")
      case eq: True
      have "pri_pre no_extra o' (s_target no_extra s1 o') s1"
        using base M o(2,3,5) ex by (intro pri_preI) (auto simp: s1_def)
      then have post: "pri_post no_extra s1 (mutex_release o' NULL s1)" by (rule mutex_release_exact)
      have "mutex_task_pri_reset t s1 = mutex_release o' NULL s1"
        using True i eq po o(1) by (simp add: mutex_task_pri_reset_def Let_def o'_def s1_def)
      with post kinv_pri_post [OF post M] show ?thesis by (simp add: pri_post_def)
    next
      case ne: False
      have reset: "mutex_task_pri_reset t s1 = s1"
        using True i ne po o(1) by (simp add: mutex_task_pri_reset_def Let_def o'_def s1_def)
      have "prio (tasks s o') = s_target no_extra s o'" using kinvD(4) [OF inv] o(2) by (simp add: pi_ok_def pi_exact_def)
      note T = pri_target_le [where X = no_extra and B = "objs s" and M = "mutexes s" and T = "tasks s" and t = o', folded this]
        pri_target_cases [of no_extra "objs s" "mutexes s" "tasks s" o', folded this]
      have "s_target no_extra s1 o' = prio (tasks s1 o')"
      proof (rule pri_target_eqI)
        have W: "s_waiters s1 o' = s_waiters s o' - {t}" unfolding s1_def by (rule left_state_waiters [OF blk])
        show "prio (tasks s1 o') \<le> b_prio (tasks s1 o')" using T(1) o(3) po by (simp add: s1_def)
        show "\<And>w. w \<in> s_waiters s1 o' \<Longrightarrow> prio (tasks s1 o') \<le> prio (tasks s1 w)"
          using T(2) po W by (auto simp: s1_def)
        show "prio (tasks s1 o') = b_prio (tasks s1 o') \<or> None = Some (prio (tasks s1 o')) \<or> (\<exists>w\<in>s_waiters s1 o'. prio (tasks s1 o') = prio (tasks s1 w))"
          using T(4) po W ne o(3) by (auto simp: s1_def)
      qed simp
      then have "s_pi_ok s1" using ex unfolding pi_ok_def pi_exact_def by metis
      with reset M base show ?thesis by (simp add: kinvx_def s1_def)
    qed
  qed
  then show "kinv (mutex_task_pri_reset t s1)" "reprio s1 (mutex_task_pri_reset t s1)" by auto
qed

section \<open>Waking from and blocking on other objects\<close>

lemma woken_simps [simp]:
  "prio (woken r k) = prio k" "b_prio (woken r k) = b_prio k" "mutex_list (woken r k) = mutex_list k"
  "blk_state (woken r k) = r" "blk_obj (woken r k) = NULL" "\<not> pended (woken r k)" "live (woken r k)"
  "ready (woken r k) \<longleftrightarrow> task_state k = K_PEND"
  by (simp_all add: woken_def state_defs)

lemma not_is_mutex_waiter:
  assumes "blk_ok (objs s) (tasks s)" "\<not> is_mutex (objs s) (blk_obj (tasks s t))" "is_mutex (objs s) m"
  shows "t \<notin> set (blk_list (objs s m))"
  using blk_okD(2) [OF assms(1)] assms(2,3) by auto

lemma wake_kinvx:
  assumes "kinvx X s" "pended (tasks s t)" "\<not> is_mutex (objs s) (blk_obj (tasks s t))"
  shows "kinvx X (wake t r s)"
proof (rule kinv_mutex_frame [OF assms(1)])
  let ?i = "blk_obj (tasks s t)"
  obtain q ts where w: "wake t r s = s\<lparr>g_ready_queue := q, g_tick_head := ts,
     objs := (objs s)(?i := (objs s ?i)\<lparr>blk_list := remove1 t (blk_list (objs s ?i))\<rparr>),
     tasks := (tasks s)(t := woken r (tasks s t))\<rparr>"
    using wake_eq by blast
  show "base_ok (wake t r s)" using wake_base_ok [OF kinvD(1) [OF assms(1)] assms(2)] .
  show "mutex_frame s (wake t r s)"
    using assms(3) pended_live [OF assms(2)] unfolding w by (auto simp: mutex_frame_def)
  show "none_ok X (objs (wake t r s))"
    using kinvD(2) [OF assms(1)] unfolding w by (auto simp: none_ok_def)
  show "ready (tasks (wake t r s) u)" if "idle_task_ok s u" for u
    using that assms(2) unfolding w by (auto simp: idle_task_ok_def state_defs)
qed

lemma wake_all_kinvx:
  assumes f: "\<And>s t. base_ok s \<Longrightarrow> pended (tasks s t) \<Longrightarrow> f t s = wake t r (upd_task t g s)"
    and g: "neutral g" and s: "kinvx X s" "\<not> is_mutex (objs s) i" "X \<subseteq> {i}"
  shows "kinv (wake_all f i s)"
proof -
  let ?s' = "wake_all f i s"
  obtain q ts where w: "?s' = s\<lparr>g_ready_queue := q, g_tick_head := ts, objs := drained i (objs s),
      tasks := (\<lambda>u. if u \<in> set (blk_list (objs s i)) then woken r (g (tasks s u)) else tasks s u)\<rparr>"
    using wake_all_spec(2) [OF f g kinvD(1) [OF s(1)]] by blast
  note blk = blk_okD(2) [OF base_okD(2) [OF kinvD(1) [OF s(1)]]]
  have lv: "live (tasks s u)" if "u \<in> set (blk_list (objs s i))" for u
    using that blk pended_live by auto
  have "kinvx X ?s'"
  proof (rule kinv_mutex_frame [OF s(1)])
    show "base_ok ?s'" using wake_all_spec(1) [OF f g kinvD(1) [OF s(1)]] .
    show "mutex_frame s ?s'"
      using s(2) g lv unfolding w by (auto simp: mutex_frame_def drained_def neutral_def)
    show "none_ok X (objs ?s')"
      using kinvD(2) [OF s(1)] unfolding w by (auto simp: none_ok_def drained_def)
    show "ready (tasks ?s' u)" if "idle_task_ok s u" for u
      using that blk unfolding w by (auto simp: idle_task_ok_def state_defs)
  qed
  moreover have "blk_list (objs ?s' i) = []" unfolding w by (simp add: drained_def)
  ultimately show ?thesis using s(3) unfolding kinvx_def none_ok_def by blast
qed

lemma block_kinv:
  assumes "kinv s" "ready (tasks s t)" "prio (tasks s t) \<noteq> RHINO_IDLE_PRI"
    and "\<not> is_mutex (objs s) i" "obj_type (objs s i) \<noteq> RHINO_OBJ_TYPE_NONE"
  shows "kinv (pend_to_blk_obj i t timeout s)"
proof (rule kinv_mutex_frame [OF assms(1)])
  let ?s' = "pend_to_blk_obj i t timeout s"
  note spec = pend_to_blk_obj_spec [OF kinvD(1) [OF assms(1)] assms(2) kinv_other [OF assms(1,3)], of i timeout]
  show "base_ok ?s'" by (rule spec(1))
  obtain q ts where w: "?s' = s\<lparr>g_ready_queue := q, g_tick_head := ts,
      objs := (objs s)(i := (objs s i)\<lparr>blk_list := block_order (objs s i) (tasks s) t\<rparr>),
      tasks := (tasks s)(t := blocked i timeout (g_tick_count s) (tasks s t))\<rparr>"
    using spec(2) by blast
  have "live (blocked i timeout (g_tick_count s) (tasks s t))" "live (tasks s t)"
    using assms(2) by (auto simp: state_defs)
  then show "mutex_frame s ?s'"
    using assms(4) unfolding w by (auto simp: mutex_frame_def)
  show "none_ok {} (objs ?s')"
    using kinvD(2) [OF assms(1)] assms(5) unfolding w by (auto simp: none_ok_def)
  show "ready (tasks ?s' u)" if "idle_task_ok s u" for u
    using that idle_other(1) [OF kinvD(4) [OF assms(1)] that assms(3)] unfolding w
    by (auto simp: idle_task_ok_def)
qed

text \<open>A change of a task block the invariant does not read.\<close>

lemma neutral_kinvx:
  assumes "kinvx X s" "neutral g"
  shows "kinvx X (upd_task t g s)"
proof (rule kinv_mutex_frame [OF assms(1)])
  show "base_ok (upd_task t g s)" using base_ok_neutral [OF kinvD(1) [OF assms(1)] assms(2)] .
  show "mutex_frame s (upd_task t g s)"
    using assms(2) by (auto simp: mutex_frame_def upd_task_def neutral_def live_def)
  show "none_ok X (objs (upd_task t g s))" using kinvD(2) [OF assms(1)] by (simp add: upd_task_def)
  show "ready (tasks (upd_task t g s) u)" if "idle_task_ok s u" for u
    using that assms(2) by (auto simp: upd_task_def neutral_def idle_task_ok_def ready_def)
qed

text \<open>New objects, and objects that lose their type when they are deleted.\<close>

lemma fresh_kinv:
  assumes "kinvx X s" "obj_type (objs s i) = RHINO_OBJ_TYPE_NONE" "i \<notin> X" "blk_list b = []" "obj_type b \<noteq> RHINO_MUTEX_OBJ_TYPE"
  shows "kinvx X (s\<lparr>objs := (objs s)(i := b)\<rparr>)"
proof (rule kinv_mutex_frame [OF assms(1)])
  have e: "blk_list (objs s i) = []" using kinvD(2) [OF assms(1)] assms(2,3) by (simp add: none_ok_def)
  have "blk_ok ((objs s)(i := b)) (tasks s)"
    using base_okD(2) [OF kinvD(1) [OF assms(1)]] e assms(4)
    by (intro blk_okI) (auto simp: blk_okD split: if_splits dest: blk_okD(2) [of _ _ _ i, THEN iffD2])
  then show "base_ok (s\<lparr>objs := (objs s)(i := b)\<rparr>)" using kinvD(1) [OF assms(1)] by (simp add: base_ok_def)
  show "mutex_frame s (s\<lparr>objs := (objs s)(i := b)\<rparr>)" using assms(2,5) by (auto simp: mutex_frame_def)
  show "none_ok X (objs (s\<lparr>objs := (objs s)(i := b)\<rparr>))"
    using kinvD(2) [OF assms(1)] assms(4) by (auto simp: none_ok_def)
qed (auto simp: idle_task_ok_def)

lemma blk_list_obj_type [simp]:
  "blk_list ((B(m := (B m)\<lparr>obj_type := x\<rparr>)) i) = blk_list (B i)"
  "blk_policy ((B(m := (B m)\<lparr>obj_type := x\<rparr>)) i) = blk_policy (B i)"
  by auto

lemma blk_ok_obj_type [simp]: "blk_ok (B(m := (B m)\<lparr>obj_type := x\<rparr>)) T = blk_ok B T"
  by (simp only: blk_ok_def blk_list_obj_type)

lemma base_ok_obj_type [simp]:
  "base_ok (s\<lparr>objs := (objs s)(m := (objs s m)\<lparr>obj_type := x\<rparr>)\<rparr>) = base_ok s"
  by (simp add: base_ok_def)

lemma untyped_kinv:
  assumes "kinv s" "\<not> is_mutex (objs s) i"
  shows "kinvx {i} (s\<lparr>objs := (objs s)(i := (objs s i)\<lparr>obj_type := RHINO_OBJ_TYPE_NONE\<rparr>)\<rparr>)"
proof (rule kinv_mutex_frame [of "{i}" s])
  show "kinvx {i} s" using assms(1) by (simp add: kinvx_def none_ok_def)
  let ?s = "s\<lparr>objs := (objs s)(i := (objs s i)\<lparr>obj_type := RHINO_OBJ_TYPE_NONE\<rparr>)\<rparr>"
  show "base_ok ?s" using kinvD(1) [OF assms(1)] by simp
  show "mutex_frame s ?s" using assms(2) by (auto simp: mutex_frame_def)
  show "none_ok {i} (objs ?s)" using kinvD(2) [OF assms(1)] by (auto simp: none_ok_def)
qed (auto simp: idle_task_ok_def)

end
