(* ===== verification/Rhino_Mutex_Ops.thy ===== *)
theory Rhino_Mutex_Ops
  imports Rhino_Invariant
begin

text \<open>
  The mutex operations keep the kernel invariant, and with it ownership and priority
  inheritance.  Every operation is seen as taking a mutex apart from the set of mutexes
  (\<open>detach\<close>) and putting it back with a new owner or with none (\<open>attach\<close>): a mutex that is
  being handed over is, in between, an object with waiting tasks that belongs to nobody.
\<close>

section \<open>Taking a mutex out of the set of mutexes\<close>

definition untyped :: "oid \<Rightarrow> kernel \<Rightarrow> kernel" where
  "untyped m s = s\<lparr>objs := (objs s)(m := (objs s m)\<lparr>obj_type := RHINO_OBJ_TYPE_NONE\<rparr>)\<rparr>"

lemma untyped_simps [simp]:
  "tasks (untyped m s) = tasks s" "mutexes (untyped m s) = mutexes s" "base_ok (untyped m s) = base_ok s"
  "blk_list (objs (untyped m s) i) = blk_list (objs s i)" "blk_policy (objs (untyped m s) i) = blk_policy (objs s i)"
  "is_mutex (objs (untyped m s)) i \<longleftrightarrow> i \<noteq> m \<and> is_mutex (objs s) i"
  "owned (objs (untyped m s)) M t = owned (objs s) M t - {m}"
  by (auto simp: untyped_def owned_def)

lemma none_ok_untyped: "none_ok {} (objs s) \<Longrightarrow> none_ok {m} (objs (untyped m s))"
  by (auto simp: none_ok_def untyped_def)

lemma detach_free:
  assumes "kinv s" "is_mutex (objs s) m" "mutex_task (mutexes s m) = NULL"
  shows "kinvx {m} (untyped m s)" "blk_list (objs s m) = []"
proof -
  have mtx: "s_mtx_ok s" and wf: "mutex_wf (objs s) (mutexes s) (tasks s) m"
    using kinvD(3) [OF assms(1)] mtx_okD(3) assms(2) by auto
  have own: "s_owned s u - {m} = s_owned s u" if "live (tasks s u)" for u
    using mtx_okD(2) [OF mtx that] assms(3) by (auto simp: owned_def)
  show "blk_list (objs s m) = []" using wf assms(3) by (auto simp: mutex_wf_def)
  show "kinvx {m} (untyped m s)"
  proof (rule kinvI)
    show "base_ok (untyped m s)" using kinvD(1) [OF assms(1)] by simp
    show "none_ok {m} (objs (untyped m s))" using none_ok_untyped kinvD(2) [OF assms(1)] .
    show "s_mtx_ok (untyped m s)"
      using mtx own by (simp add: mtx_ok_def mutex_wf_def)
    show "s_pi_ok (untyped m s)"
      using kinvD(4) [OF assms(1)] own
      by (simp add: pi_ok_def pi_exact_def pri_target_def waiters_def)
    show "idle_ok (untyped m s)"
      by (rule idle_ok_frame [OF kinvD(5) [OF assms(1)]]) (auto simp: idle_task_ok_def)
  qed
qed

text \<open>The part of \<^verbatim>\<open>mutex_release\<close> that takes a mutex out of the chain of its owner.\<close>

lemma owned_chain_split:
  assumes "s_mtx_ok s" "is_mutex (objs s) m" "mutex_task (mutexes s m) = t" "live (tasks s t)"
  obtains xs zs where "chain_of (mutexes s) (tasks s t) (xs @ m # zs)" "set (xs @ zs) = s_owned s t - {m}"
proof -
  obtain ms where ms: "chain_of (mutexes s) (tasks s t) ms" "set ms = s_owned s t"
    using mtx_okD(1) [OF assms(1,4)] by blast
  have "m \<in> set ms" using ms(2) assms(2,3) by (simp add: owned_def)
  then obtain xs zs where sp: "ms = xs @ m # zs" by (meson split_list)
  have "distinct ms" using mchain_distinct ms(1) by (simp add: chain_of_def)
  then have "set (xs @ zs) = s_owned s t - {m}" using ms(2) sp by auto
  with ms(1) sp that show ?thesis by blast
qed

lemma unlinked_same:
  "objs (unlinked t m xs s) = objs s" "prio (tasks (unlinked t m xs s) u) = prio (tasks s u)"
  "b_prio (tasks (unlinked t m xs s) u) = b_prio (tasks s u)" "task_state (tasks (unlinked t m xs s) u) = task_state (tasks s u)"
  "mutex_task (mutexes (unlinked t m xs s) i) = mutex_task (mutexes s i)"
  "owner_nested (mutexes (unlinked t m xs s) i) = owner_nested (mutexes s i)"
  "mutex_alloc_flag (mutexes (unlinked t m xs s) i) = mutex_alloc_flag (mutexes s i)"
  "g_active_task (unlinked t m xs s) = g_active_task s" "g_ready_queue (unlinked t m xs s) = g_ready_queue s"
  "g_sched_lock (unlinked t m xs s) = g_sched_lock s" "g_intrpt_nested_level (unlinked t m xs s) = g_intrpt_nested_level s"
  "i \<notin> set xs \<Longrightarrow> mutexes (unlinked t m xs s) i = mutexes s i"
  "u \<noteq> t \<Longrightarrow> tasks (unlinked t m xs s) u = tasks s u"
  "live (tasks (unlinked t m xs s) u) = live (tasks s u)" "blk_obj (tasks (unlinked t m xs s) u) = blk_obj (tasks s u)"
  "pend_option (tasks (unlinked t m xs s) u) = pend_option (tasks s u)" "pend_flags (tasks (unlinked t m xs s) u) = pend_flags (tasks s u)"
  "g_sys_stat (unlinked t m xs s) = g_sys_stat s" "g_idle_task_spawned (unlinked t m xs s) = g_idle_task_spawned s"
  "sems (unlinked t m xs s) = sems s" "events (unlinked t m xs s) = events s" "queues (unlinked t m xs s) = queues s"
  "buf_queues (unlinked t m xs s) = buf_queues s"
  by (cases "xs = []"; auto simp: unlinked_def last_link_def upd_defs live_def; fail)+

lemma unlinked_base_ok: "base_ok s \<Longrightarrow> base_ok (unlinked t m xs s)"
  by (cases "xs = []") (simp_all add: unlinked_def last_link_def upd_mutex_def upd_task_def base_ok_task)

lemma unlinked_ok:
  assumes inv: "kinv s" and m: "is_mutex (objs s) m" "mutex_task (mutexes s m) = t" "live (tasks s t)"
    and ch: "chain_of (mutexes s) (tasks s t) (xs @ m # zs)" "set (xs @ zs) = s_owned s t - {m}"
  defines "u \<equiv> unlinked t m xs (untyped m s)"
  shows "s_mtx_ok u" "none_ok {m} (objs u)" "idle_ok u" "pri_pre no_extra t (s_target no_extra u t) u"
    and "mutex_pri_look t m (untyped m s) = Some (s_target no_extra u t, u)"
proof -
  have mtx: "s_mtx_ok s" and blk: "blk_ok (objs s) (tasks s)" using kinvD(1,3) [OF inv] base_okD(2) by auto
  have chs: "chain_of (mutexes (untyped m s)) (tasks (untyped m s) t) (xs @ m # zs)" using ch(1) by simp
  note look = mutex_pri_look_unlink [OF chs, folded u_def]
  note same = unlinked_same [where t = t and m = m and xs = xs and s = "untyped m s", folded u_def]
  have own: "s_owned u a = s_owned s a - {m}" for a by (auto simp: owned_def same)
  have own': "s_owned u a = s_owned s a" if "a \<noteq> t" for a
    unfolding own using m(2) that by (auto simp: owned_def)
  have wait: "s_waiters u a = s_waiters s a" if "a \<noteq> t" for a
    using own' [OF that] by (simp add: waiters_def same)
  have base: "base_ok u" using kinvD(1) [OF inv] unlinked_base_ok by (simp add: u_def)
  show none: "none_ok {m} (objs u)" using none_ok_untyped kinvD(2) [OF inv] by (simp add: same)
  show idle: "idle_ok u"
  proof (rule idle_ok_frame [OF kinvD(5) [OF inv]])
    show "s_owned u a \<subseteq> s_owned s a" for a using own by auto
  qed (auto simp: same idle_task_ok_def ready_def)
  show mtx_u: "s_mtx_ok u"
  proof -
    have "\<exists>ms. chain_of (mutexes u) (tasks u a) ms \<and> set ms = s_owned u a" if "live (tasks s a)" for a
    proof (cases "a = t")
      case True
      then show ?thesis using look(2) ch(2) own by auto
    next
      case False
      obtain ms where ms: "chain_of (mutexes s) (tasks s a) ms" "set ms = s_owned s a"
        using mtx_okD(1) [OF mtx \<open>live (tasks s a)\<close>] by blast
      have "i \<notin> set xs" if "i \<in> set ms" for i using that ms(2) ch(2) False by (auto simp: owned_def)
      then have "mchain (\<lambda>i. mutex_next (mutexes u i)) (mutex_list (tasks s a)) ms
          \<longleftrightarrow> mchain (\<lambda>i. mutex_next (mutexes s i)) (mutex_list (tasks s a)) ms"
        by (intro mchain_cong) (simp add: same)
      then show ?thesis using ms own' [OF False] False by (auto simp: chain_of_def same)
    qed
    moreover have "mutex_wf (objs u) (mutexes u) (tasks u) i" if "is_mutex (objs u) i" for i
      using mtx_okD(3) [OF mtx, of i] that by (simp add: same mutex_wf_def)
    ultimately show ?thesis using mtx_okD(2) [OF mtx] unfolding mtx_ok_def by (simp add: same)
  qed
  show "pri_pre no_extra t (s_target no_extra u t) u"
  proof (rule pri_preI [OF base mtx_u _ idle])
    show "live (tasks u t)" using m(3) by (simp add: same)
    obtain i where "idle_task_ok s i" using kinvD(5) [OF inv] by (auto simp: idle_ok_def)
    then have "b_prio (tasks s t) \<noteq> RHINO_IDLE_PRI"
      using m by (cases "t = i") (auto simp: idle_task_ok_def owned_def)
    then show "s_owned u t \<noteq> {} \<or> b_prio (tasks u t) \<noteq> RHINO_IDLE_PRI" by (simp add: same)
    show "pi_exact no_extra (objs u) (mutexes u) (tasks u) a" if "a \<noteq> t" "live (tasks u a)" for a
      using kinvD(4) [OF inv] that wait [OF that(1)]
      by (simp add: pi_ok_def pi_exact_def pri_target_def same)
  qed auto
  have "chain_pri u (b_prio (tasks u t)) (xs @ zs) = s_target no_extra u t"
    using chain_pri_target [OF base_okD(2) [OF base] mtx_u] ch(2) own by simp
  then show "mutex_pri_look t m (untyped m s) = Some (s_target no_extra u t, u)"
    using look(1) by (simp add: same) (simp add: u_def unlinked_def)
qed

lemma detach_owned:
  assumes inv: "kinv s" and m: "is_mutex (objs s) m" "mutex_task (mutexes s m) = t" "t \<noteq> NULL"
  shows "kinvx {m} (mutex_release t m (untyped m s))" "\<not> is_mutex (objs (mutex_release t m (untyped m s))) m"
    and "\<exists>xs. reprio (unlinked t m xs (untyped m s)) (mutex_release t m (untyped m s))"
proof -
  have mtx: "s_mtx_ok s" using kinvD(3) [OF inv] .
  have lv: "live (tasks s t)" using mtx_okD(3) [OF mtx m(1)] m(2,3) by (simp add: mutex_wf_def)
  obtain xs zs where ch: "chain_of (mutexes s) (tasks s t) (xs @ m # zs)" "set (xs @ zs) = s_owned s t - {m}"
    using owned_chain_split [OF mtx m(1,2) lv] by blast
  define u where "u = unlinked t m xs (untyped m s)"
  note U = unlinked_ok [OF inv m(1,2) lv ch, folded u_def]
  have post: "pri_post no_extra u (mutex_release t m (untyped m s))"
    using pri_release [OF U(4)] U(5) by (simp add: mutex_release_def)
  then show "kinvx {m} (mutex_release t m (untyped m s))" using kinv_pri_post U(1-3) by blast
  show "\<not> is_mutex (objs (mutex_release t m (untyped m s))) m"
    using post by (simp add: pri_post_def reprio_same [of u] u_def unlinked_same)
  show "\<exists>xs. reprio (unlinked t m xs (untyped m s)) (mutex_release t m (untyped m s))"
    using post by (auto simp: pri_post_def u_def)
qed

section \<open>Putting a mutex back\<close>

definition attached :: "oid \<Rightarrow> kmutex \<Rightarrow> kernel \<Rightarrow> kernel" where
  "attached m x s = s\<lparr>objs := (objs s)(m := (objs s m)\<lparr>obj_type := RHINO_MUTEX_OBJ_TYPE\<rparr>),
     mutexes := (mutexes s)(m := x),
     tasks := (if mutex_task x = NULL then tasks s
               else (tasks s)(mutex_task x := (tasks s (mutex_task x))\<lparr>mutex_list := m\<rparr>))\<rparr>"

text \<open>What the new owner \<open>t\<close> of the mutex \<open>m\<close> has to satisfy.\<close>

definition may_own :: "oid \<Rightarrow> tid \<Rightarrow> kernel \<Rightarrow> bool" where
  "may_own m t s \<longleftrightarrow> live (tasks s t) \<and> prio (tasks s t) \<noteq> RHINO_IDLE_PRI
     \<and> t \<notin> set (blk_list (objs s m)) \<and> (\<forall>w \<in> set (blk_list (objs s m)). prio (tasks s t) \<le> prio (tasks s w))"

lemma attach:
  assumes inv: "kinvx {m} s" and m: "\<not> is_mutex (objs s) m" "m \<noteq> NULL" "blk_policy (objs s m) = BLK_POLICY_PRI"
    and x: "mutex_task x = NULL \<and> blk_list (objs s m) = []
      \<or> may_own m (mutex_task x) s \<and> mutex_next x = mutex_list (tasks s (mutex_task x))"
  shows "kinv (attached m x s)"
proof -
  let ?o = "mutex_task x"
  define s' where "s' = attached m x s"
  have mtx: "s_mtx_ok s" and pi: "s_pi_ok s" using kinvD(3,4) [OF inv] .
  have T: "prio (tasks s' a) = prio (tasks s a)" "b_prio (tasks s' a) = b_prio (tasks s a)"
    "task_state (tasks s' a) = task_state (tasks s a)" "live (tasks s' a) = live (tasks s a)"
    "a \<noteq> ?o \<or> ?o = NULL \<Longrightarrow> tasks s' a = tasks s a" for a
    by (auto simp: s'_def attached_def live_def)
  have B: "blk_list (objs s' i) = blk_list (objs s i)" "blk_policy (objs s' i) = blk_policy (objs s i)"
    "is_mutex (objs s') i \<longleftrightarrow> i = m \<or> is_mutex (objs s) i" for i
    by (auto simp: s'_def attached_def)
  have M: "mutexes s' i = (if i = m then x else mutexes s i)" for i by (simp add: s'_def attached_def)
  have nm: "m \<notin> s_owned s a" for a using m(1) by (simp add: owned_def)
  have own: "s_owned s' a = s_owned s a \<union> (if a = ?o then {m} else {})" for a
    using m(1) by (auto simp: owned_def B M)
  have wait: "s_waiters s' a = s_waiters s a \<union> (if a = ?o then set (blk_list (objs s m)) else {})" for a
    unfolding waiters_def own by (auto simp: B)
  have base: "base_ok s'"
    using base_ok_task [OF kinvD(1) [OF inv], of "(tasks s ?o)\<lparr>mutex_list := m\<rparr>" ?o] kinvD(1) [OF inv]
    by (simp add: s'_def attached_def base_ok_def)
  have none: "none_ok {} (objs s')" using kinvD(2) [OF inv] by (auto simp: none_ok_def s'_def attached_def)
  have ch: "\<exists>ms. chain_of (mutexes s') (tasks s' a) ms \<and> set ms = s_owned s' a" if lv: "live (tasks s a)" for a
  proof -
    obtain ms where ms: "chain_of (mutexes s) (tasks s a) ms" "set ms = s_owned s a"
      using mtx_okD(1) [OF mtx lv] by blast
    have "m \<notin> set ms" using ms(2) nm by simp
    then have "mchain (\<lambda>i. mutex_next (mutexes s' i)) p ms \<longleftrightarrow> mchain (\<lambda>i. mutex_next (mutexes s i)) p ms" for p
      by (intro mchain_cong) (auto simp: M)
    note c = this ms(1) [unfolded chain_of_def]
    show ?thesis
    proof (cases "a = ?o")
      case False
      then show ?thesis using c ms(2) own T(5) by (intro exI [of _ ms]) (simp add: chain_of_def)
    next
      case True
      have "mutex_next x = mutex_list (tasks s a)" "?o \<noteq> NULL"
        using x True mtx_okD(2) [OF mtx lv] by auto
      then show ?thesis using c ms(2) own True m(2)
        by (intro exI [of _ "m # ms"]) (auto simp: chain_of_def M s'_def attached_def)
    qed
  qed
  have "mutex_wf (objs s') (mutexes s') (tasks s') i" if "is_mutex (objs s') i" for i
    using that x m(2,3) mtx_okD(2) [OF mtx, of NULL] mtx_okD(3) [OF mtx, of i]
    by (cases "i = m") (auto simp: mutex_wf_def B M T may_own_def)
  then have mtx': "s_mtx_ok s'" using ch mtx_okD(2) [OF mtx] by (simp add: mtx_ok_def T)
  have "pi_exact no_extra (objs s') (mutexes s') (tasks s') a" if lv: "live (tasks s a)" for a
  proof -
    have ex: "prio (tasks s a) = s_target no_extra s a" using pi lv by (simp add: pi_ok_def pi_exact_def)
    note le = pri_target_le [where X = no_extra and B = "objs s" and M = "mutexes s" and T = "tasks s" and t = a, folded ex]
      pri_target_cases [of no_extra "objs s" "mutexes s" "tasks s" a, folded ex]
    have "prio (tasks s a) \<le> prio (tasks s w)" if "w \<in> s_waiters s' a" for w
      using that le(2) x mtx_okD(2) [OF mtx lv] by (auto simp: wait may_own_def split: if_splits)
    with le show ?thesis unfolding pi_exact_def
      by (intro pri_target_eqI [symmetric]) (auto simp: T wait)
  qed
  then have pi': "s_pi_ok s'" by (simp add: pi_ok_def T)
  obtain u where u: "idle_task_ok s u" using kinvD(5) [OF inv] by (auto simp: idle_ok_def)
  have "u \<noteq> ?o"
    using x idle_prio [OF pi u] mtx_okD(2) [OF mtx, of u] u by (auto simp: may_own_def idle_task_ok_def state_defs)
  then have "idle_task_ok s' u" using u own by (simp add: idle_task_ok_def T ready_def)
  then have "idle_ok s'" by (auto simp: idle_ok_def)
  with base none mtx' pi' show ?thesis unfolding s'_def by (rule kinvI)
qed

section \<open>The operations keep the invariant\<close>

subsection \<open>Creation and deletion\<close>

lemma mutex_create_kinv:
  assumes "kinv s" "obj_type (objs s m) = RHINO_OBJ_TYPE_NONE"
  shows "kinv (snd (mutex_create m name flag s))"
proof -
  let ?b = "(objs s m)\<lparr>blk_list := [], blk_policy := BLK_POLICY_PRI, obj_name := name\<rparr>"
  let ?x = "(mutexes s m)\<lparr>mutex_task := NULL, mutex_next := NULL, mutex_alloc_flag := flag\<rparr>"
  let ?K = "(g_kobj_list s)\<lparr>mutex_head := mutex_head (g_kobj_list s) @ [m]\<rparr>"
  define s1 where "s1 = s\<lparr>objs := (objs s)(m := ?b)\<rparr>"
  have "kinv s1" unfolding s1_def using assms by (intro fresh_kinv) auto
  then have "kinvx {m} s1" by (simp add: kinvx_def none_ok_def)
  then have "kinv (attached m ?x s1)" if "m \<noteq> NULL"
    using that assms(2) by (intro attach) (auto simp: s1_def)
  moreover have "snd (mutex_create m name flag s) = (attached m ?x s1)\<lparr>g_kobj_list := ?K\<rparr>"
    if "m \<noteq> NULL" "name \<noteq> NULL"
    using that by (simp add: mutex_create_def attached_def s1_def upd_defs)
  ultimately show ?thesis using assms(1) by (cases "m = NULL \<or> name = NULL") (auto simp: mutex_create_def)
qed

lemma pend_task_rm_id:
  "base_ok s \<Longrightarrow> pended (tasks s t) \<Longrightarrow> pend_task_rm t s = wake t BLK_DEL (upd_task t (\<lambda>k. k) s)"
  by (simp add: pend_task_wakeup_wake(2) upd_task_def)

lemma mutex_del_kinv:
  assumes "kinv s" "is_mutex (objs s) m"
  shows "kinv (mutex_del m s)"
proof -
  define s1 where "s1 = (if mutex_task (mutexes s m) \<noteq> NULL then mutex_release (mutex_task (mutexes s m)) m (untyped m s)
    else untyped m s)"
  have s1: "kinvx {m} s1" "\<not> is_mutex (objs s1) m"
    using detach_free [OF assms] detach_owned [OF assms] by (auto simp: s1_def)
  then have "kinv (wake_all pend_task_rm m s1)"
    by (intro wake_all_kinvx [where g = "\<lambda>k. k" and r = BLK_DEL] pend_task_rm_id neutral_id) auto
  moreover have "mutex_del m s = core_sched ((wake_all pend_task_rm m s1)\<lparr>g_kobj_list :=
      (g_kobj_list (wake_all pend_task_rm m s1))\<lparr>mutex_head :=
        remove1 m (mutex_head (g_kobj_list (wake_all pend_task_rm m s1)))\<rparr>\<rparr>)"
    by (simp add: mutex_del_def s1_def untyped_def upd_obj_def Let_def)
  ultimately show ?thesis by (simp add: core_sched_kinv)
qed

subsection \<open>Lock\<close>

lemma acquire_kinv:
  assumes "kinv s" "is_mutex (objs s) m" "mutex_task (mutexes s m) = NULL" "live (tasks s t)" "prio (tasks s t) \<noteq> RHINO_IDLE_PRI"
  shows "kinv (s\<lparr>tasks := (tasks s)(t := (tasks s t)\<lparr>mutex_list := m\<rparr>),
    mutexes := (mutexes s)(m := (mutexes s m)\<lparr>mutex_task := t, mutex_next := mutex_list (tasks s t), owner_nested := 1\<rparr>)\<rparr>)" (is "kinv ?s'")
proof -
  let ?x = "(mutexes s m)\<lparr>mutex_task := t, mutex_next := mutex_list (tasks s t), owner_nested := 1\<rparr>"
  note mtx = kinvD(3) [OF assms(1)]
  have "t \<noteq> NULL" using mtx_okD(2) [OF mtx assms(4)] .
  then have "?s' = attached m ?x (untyped m s)"
    using assms(2) by (simp add: attached_def untyped_def fun_eq_iff)
  moreover have "kinv (attached m ?x (untyped m s))"
    using mtx_okD(3) [OF mtx assms(2)] assms(4,5)
    by (intro attach detach_free assms(1-3)) (auto simp: may_own_def mutex_wf_def detach_free(2) [OF assms(1-3)])
  ultimately show ?thesis by simp
qed

lemma nested_kinv:
  assumes "kinv s"
  shows "kinv (s\<lparr>mutexes := (mutexes s)(m := (mutexes s m)\<lparr>owner_nested := n\<rparr>)\<rparr>)" (is "kinv (s\<lparr>mutexes := ?M\<rparr>)")
proof -
  have M: "mutex_task (?M i) = mutex_task (mutexes s i)" "mutex_next (?M i) = mutex_next (mutexes s i)" for i by auto
  have own: "owned (objs s) ?M t = s_owned s t" for t unfolding owned_def M ..
  have "mtx_ok (objs s) ?M (tasks s)"
    using kinvD(3) [OF assms]
    unfolding mtx_ok_def own mutex_wf_def chain_of_def M .
  moreover have "pi_ok no_extra (objs s) ?M (tasks s)"
    using kinvD(4) [OF assms] unfolding pi_ok_def pi_exact_def pri_target_def waiters_def own .
  moreover have "idle_ok (s\<lparr>mutexes := ?M\<rparr>)"
    using kinvD(5) [OF assms] unfolding idle_ok_def idle_task_ok_def
    by (simp del: fun_upd_apply add: own)
  ultimately show ?thesis using kinvD(1,2) [OF assms] by (simp add: kinvx_def)
qed

text \<open>
  The priority of the task that is going to wait is inherited before the task is put on the
  list of the mutex.
\<close>

lemma inherit:
  assumes inv: "kinv s" and t: "live (tasks s t)" and o': "live (tasks s o')" "s_owned s o' \<noteq> {}"
  defines "X \<equiv> (\<lambda>u. if u = o' then Some (prio (tasks s t)) else None)"
  defines "s1 \<equiv> (if prio (tasks s t) < prio (tasks s o') then pri_change o' (prio (tasks s t)) s else s)"
  shows "pri_post X s s1" "prio (tasks s1 t) = prio (tasks s t)"
proof -
  let ?v = "prio (tasks s t)"
  have ex: "prio (tasks s u) = s_target no_extra s u" if "live (tasks s u)" for u
    using kinvD(4) [OF inv] that by (simp add: pi_ok_def pi_exact_def)
  have exX: "pi_exact X (objs s) (mutexes s) (tasks s) u" if "u \<noteq> o'" "live (tasks s u)" for u
    using ex [OF that(2)] that(1) by (simp add: pi_exact_def pri_target_def X_def)
  note le = pri_target_le [where X = no_extra and B = "objs s" and M = "mutexes s" and T = "tasks s" and t = o', folded ex [OF o'(1)]]
    pri_target_cases [of no_extra "objs s" "mutexes s" "tasks s" o', folded ex [OF o'(1)]]
  have tX: "s_target X s o' = min ?v (prio (tasks s o'))"
    using le by (intro pri_target_eqI) (auto simp: X_def min_def intro: le_trans)
  have "?v < RHINO_CONFIG_PRI_MAX" using base_okD(4) [OF kinvD(1) [OF inv]] t by (simp add: prio_ok_def)
  then have pre: "pri_pre X o' (s_target X s o') s"
    using kinvD [OF inv] o' exX tX by (intro pri_preI) (auto simp: X_def split: if_splits)
  show "pri_post X s s1"
  proof (cases "?v < prio (tasks s o')")
    case True
    with pri_change_exact(1) [OF pre] tX show ?thesis by (simp add: s1_def)
  next
    case False
    with tX have "pi_exact X (objs s) (mutexes s) (tasks s) o'" by (simp add: pi_exact_def)
    with exX have "pi_ok X (objs s) (mutexes s) (tasks s)" unfolding pi_ok_def by metis
    with False kinvD(1) [OF inv] show ?thesis by (simp add: s1_def pri_post_def)
  qed
  have "X \<noteq> no_extra" by (auto simp: X_def fun_eq_iff)
  then show "prio (tasks s1 t) = ?v"
    using pri_change_exact(2) [OF pre] tX by (auto simp: s1_def pri_kept_def)
qed

lemma inherit_block_kinv:
  assumes inv: "kinv s" and t: "ready (tasks s t)" "prio (tasks s t) \<noteq> RHINO_IDLE_PRI"
    and m: "is_mutex (objs s) m" "mutex_task (mutexes s m) = o'" "o' \<noteq> NULL" "o' \<noteq> t"
  defines "s1 \<equiv> (if prio (tasks s t) < prio (tasks s o') then pri_change o' (prio (tasks s t)) s else s)"
  shows "kinv (pend_to_blk_obj m t ticks s1)" "reprio s s1" "base_ok s1" "prio (tasks s1 t) = prio (tasks s t)"
proof -
  let ?X = "\<lambda>u. if u = o' then Some (prio (tasks s t)) else None"
  have mtx: "s_mtx_ok s" using kinvD(3) [OF inv] .
  have lv: "live (tasks s o')" "live (tasks s t)" "s_owned s o' \<noteq> {}"
    using mtx_okD(3) [OF mtx m(1)] m t by (auto simp: mutex_wf_def state_defs owned_def)
  note inh = inherit [OF inv lv(2,1,3), folded s1_def]
  show re: "reprio s s1" using inh(1) by (simp add: pri_post_def)
  note same = reprio_same [OF re]
  let ?s2 = "pend_to_blk_obj m t ticks s1"
  show base1: "base_ok s1" using inh(1) by (simp add: pri_post_def)
  show "prio (tasks s1 t) = prio (tasks s t)" by (rule inh(2))
  have rdy: "ready (tasks s1 t)" using t by (simp add: same)
  have oth: "some_other_ready (tasks s1) t"
    using kinv_other [OF inv t(2)] by (simp add: some_other_ready_def same)
  note spec = pend_to_blk_obj_spec [OF base1 rdy oth, of m ticks]
  obtain q ts where w: "?s2 = s1\<lparr>g_ready_queue := q, g_tick_head := ts,
      objs := (objs s1)(m := (objs s1 m)\<lparr>blk_list := block_order (objs s1 m) (tasks s1) t\<rparr>),
      tasks := (tasks s1)(t := blocked m ticks (g_tick_count s1) (tasks s1 t))\<rparr>"
    using spec(2) by blast
  have B: "set (blk_list (objs ?s2 i)) = set (blk_list (objs s i)) \<union> (if i = m then {t} else {})"
    "obj_type (objs ?s2 i) = obj_type (objs s i)" "blk_policy (objs ?s2 i) = blk_policy (objs s i)"
    "blk_list (objs ?s2 i) = [] \<longleftrightarrow> blk_list (objs s i) = [] \<and> i \<noteq> m" for i
    unfolding w using set_block_order [of "objs s1 m" "tasks s1" t] by (auto simp: same simp del: set_empty simp flip: set_empty)
  have T: "prio (tasks ?s2 u) = prio (tasks s1 u)" "b_prio (tasks ?s2 u) = b_prio (tasks s u)"
    "mutex_list (tasks ?s2 u) = mutex_list (tasks s u)" "live (tasks ?s2 u) = live (tasks s u)" for u
    unfolding w using lv(2) by (auto simp: same) (auto simp: live_def)
  have M: "mutexes ?s2 = mutexes s" unfolding w by (simp add: same)
  have own: "s_owned ?s2 u = s_owned s u" for u by (simp add: owned_def B M)
  have wait: "s_waiters ?s2 u = s_waiters s u \<union> (if u = o' then {t} else {})" for u
    using m(1,2) unfolding waiters_def own by (auto simp: B owned_def split: if_splits)
  show "kinv ?s2"
  proof (rule kinvI)
    show "base_ok ?s2" by (rule spec(1))
    show "none_ok {} (objs ?s2)" using kinvD(2) [OF inv] m(1) by (auto simp: none_ok_def B)
    have "mutex_wf (objs ?s2) (mutexes ?s2) (tasks ?s2) i" if "is_mutex (objs ?s2) i" for i
      using mtx_okD(3) [OF mtx, of i] that m by (auto simp: mutex_wf_def B T M)
    then show "s_mtx_ok ?s2"
      using mtx own by (simp add: mtx_ok_def chain_of_def T M)
    have "pi_exact no_extra (objs ?s2) (mutexes ?s2) (tasks ?s2) u" if "live (tasks s u)" for u
    proof -
      have "prio (tasks s1 u) = s_target ?X s1 u" using inh(1) that by (simp add: pri_post_def pi_ok_def pi_exact_def same)
      also have "\<dots> = s_target no_extra ?s2 u"
        unfolding pri_target_def wait using inh(2) by (simp add: T same reprio_waiters [OF re] Un_commute)
      finally show ?thesis by (simp add: pi_exact_def T)
    qed
    then show "s_pi_ok ?s2" by (simp add: pi_ok_def T)
    show "idle_ok ?s2"
    proof (rule idle_ok_frame [OF kinvD(5) [OF inv]])
      show "ready (tasks ?s2 u)" if "idle_task_ok s u" for u
        using that idle_other(1) [OF kinvD(4) [OF inv] that t(2)] unfolding w
        by (auto simp: same idle_task_ok_def)
    qed (simp_all add: own T)
  qed
qed

subsection \<open>Unlock\<close>

text \<open>
  The owner that unlocks is ready, so that its new priority only changes the ready list, and
  the release does not depend on the type of the mutex.
\<close>

lemma task_pri_change_ready:
  "ready (tasks s t) \<Longrightarrow> pri_change t v s = (if prio (tasks s t) = v then s else set_prio t v s)"
  by (simp add: pri_change_def task_pri_change.simps set_prio_def ready_def Let_def)

lemma set_prio_untyped: "ready (tasks s t) \<Longrightarrow> set_prio t v (untyped m s) = untyped m (set_prio t v s)"
  by (simp add: set_prio_def untyped_def ready_list_rm_def ready_list_add_head_def ready_list_add_tail_def
    upd_task_def fault_def Let_def split: option.split)

lemma set_prio_ready_frame:
  assumes "ready (tasks s t)"
  shows "objs (set_prio t v s) = objs s" "mutexes (set_prio t v s) = mutexes s"
    and "g_active_task (set_prio t v s) = g_active_task s" "g_sched_lock (set_prio t v s) = g_sched_lock s"
    and "g_intrpt_nested_level (set_prio t v s) = g_intrpt_nested_level s"
    and "tasks (set_prio t v s) = (tasks s)(t := (tasks s t)\<lparr>prio := v\<rparr>)"
    and "sems (set_prio t v s) = sems s" "events (set_prio t v s) = events s" "queues (set_prio t v s) = queues s"
    and "buf_queues (set_prio t v s) = buf_queues s" "g_sys_stat (set_prio t v s) = g_sys_stat s"
    and "g_idle_task_spawned (set_prio t v s) = g_idle_task_spawned s"
  using assms
  by (simp_all add: set_prio_def ready_list_rm_def ready_list_add_head_def ready_list_add_tail_def
    upd_task_def fault_def Let_def split: option.split)

lemma first_blk_pri_untyped [simp]: "first_blk_pri (untyped m s) i a = first_blk_pri s i a"
  by (simp add: first_blk_pri_def split: list.split)

lemma unlinked_untyped: "unlinked t m xs (untyped m s) = untyped m (unlinked t m xs s)"
  by (cases "xs = []") (simp_all add: unlinked_def last_link_def untyped_def upd_defs)

lemma release_untyped:
  assumes "ready (tasks s t)" "chain_of (mutexes s) (tasks s t) (xs @ m # zs)"
  shows "mutex_release t m (untyped m s) = untyped m (mutex_release t m s)"
proof -
  have c: "chain_of (mutexes (untyped m s)) (tasks (untyped m s) t) (xs @ m # zs)" using assms(2) by simp
  let ?u = "unlinked t m xs s"
  have "ready (tasks ?u t)" using assms(1) by (simp add: ready_def unlinked_same)
  then show ?thesis
    unfolding mutex_release_def mutex_pri_look_unlink(1) [OF c] mutex_pri_look_unlink(1) [OF assms(2)]
    by (simp add: unlinked_untyped task_pri_change_ready set_prio_untyped chain_pri_def)
qed

lemma untyped_wake: "untyped m (wake t r s) = wake t r (untyped m s)"
  by (simp add: wake_def untyped_def Let_def fun_eq_iff)

text \<open>The state in which the mutex has left its owner and is not given to another task yet.\<close>

definition release_spec :: "tid \<Rightarrow> oid \<Rightarrow> kernel \<Rightarrow> kernel \<Rightarrow> bool" where
  "release_spec t m s s' \<longleftrightarrow> kinvx {m} (untyped m s') \<and> is_mutex (objs s') m
     \<and> objs s' = objs s \<and> g_active_task s' = g_active_task s \<and> g_sched_lock s' = g_sched_lock s
     \<and> g_intrpt_nested_level s' = g_intrpt_nested_level s \<and> g_sys_stat s' = g_sys_stat s
     \<and> g_idle_task_spawned s' = g_idle_task_spawned s
     \<and> (\<forall>u. task_state (tasks s' u) = task_state (tasks s u) \<and> blk_obj (tasks s' u) = blk_obj (tasks s u))
     \<and> (\<forall>u. u \<noteq> t \<longrightarrow> tasks s' u = tasks s u) \<and> (\<forall>i. mutex_task (mutexes s' i) = mutex_task (mutexes s i)
     \<and> owner_nested (mutexes s' i) = owner_nested (mutexes s i))
     \<and> (blk_list (objs s m) = [] \<longrightarrow> g_ready_queue s' = g_ready_queue s)
     \<and> sems s' = sems s \<and> events s' = events s \<and> queues s' = queues s \<and> buf_queues s' = buf_queues s
     \<and> (\<forall>u. pend_option (tasks s' u) = pend_option (tasks s u) \<and> pend_flags (tasks s' u) = pend_flags (tasks s u))"

lemma release_ready:
  assumes inv: "kinv s" and m: "is_mutex (objs s) m" "mutex_task (mutexes s m) = t" and t: "ready (tasks s t)"
  shows "release_spec t m s (mutex_release t m s)"
proof -
  have mtx: "s_mtx_ok s" using kinvD(3) [OF inv] .
  have lv: "live (tasks s t)" using t by (simp add: state_defs)
  obtain xs zs where ch: "chain_of (mutexes s) (tasks s t) (xs @ m # zs)" "set (xs @ zs) = s_owned s t - {m}"
    using owned_chain_split [OF mtx m lv] by blast
  define u v s' where "u = unlinked t m xs s" and "v = chain_pri s (b_prio (tasks s t)) (xs @ zs)"
    and "s' = mutex_release t m s"
  note U = unlinked_same [where t = t and m = m and xs = xs and s = s, folded u_def]
  have rdy: "ready (tasks u t)" using t by (simp add: U ready_def)
  have s': "s' = (if prio (tasks u t) = v then u else set_prio t v u)"
    using mutex_pri_look_unlink(1) [OF ch(1)] task_pri_change_ready [OF rdy]
    by (auto simp: s'_def mutex_release_def u_def v_def)
  note F = set_prio_ready_frame [OF rdy, of v]
  have inv': "kinvx {m} (untyped m s')"
    using detach_owned(1) [OF inv m mtx_okD(2) [OF mtx lv]] release_untyped [OF t ch(1)] by (simp add: s'_def)
  have same: "objs s' = objs s" "g_active_task s' = g_active_task s" "g_sched_lock s' = g_sched_lock s"
    "g_intrpt_nested_level s' = g_intrpt_nested_level s" "mutexes s' = mutexes u"
    "\<And>a. task_state (tasks s' a) = task_state (tasks u a)" "\<And>a. blk_obj (tasks s' a) = blk_obj (tasks u a)"
    "\<And>a. a \<noteq> t \<Longrightarrow> tasks s' a = tasks u a" "sems s' = sems s" "events s' = events s" "queues s' = queues s"
    "buf_queues s' = buf_queues s" "\<And>a. pend_option (tasks s' a) = pend_option (tasks u a)"
    "\<And>a. pend_flags (tasks s' a) = pend_flags (tasks u a)" "g_sys_stat s' = g_sys_stat s"
    "g_idle_task_spawned s' = g_idle_task_spawned s"
    by (auto simp: s' F U)
  have "g_ready_queue s' = g_ready_queue s" if e: "blk_list (objs s m) = []"
  proof -
    have ne: "x \<in> set (blk_list (objs s i)) \<Longrightarrow> i \<noteq> m" for x i using e by auto
    have "mutex_pri_look t m (untyped m s) = Some (v, unlinked t m xs (untyped m s))"
      using mutex_pri_look_unlink(1) [of "untyped m s" t xs m zs] ch(1) by (simp add: v_def chain_pri_def)
    then have "v = s_target no_extra (unlinked t m xs (untyped m s)) t"
      using unlinked_ok(5) [OF inv m lv ch] by simp
    also have "s_waiters (unlinked t m xs (untyped m s)) t = s_waiters s t"
      using ne by (simp add: waiters_def owned_def unlinked_same) blast
    then have "s_target no_extra (unlinked t m xs (untyped m s)) t = s_target no_extra s t"
      by (simp add: pri_target_def unlinked_same)
    also have "\<dots> = prio (tasks s t)" using kinvD(4) [OF inv] lv by (simp add: pi_ok_def pi_exact_def)
    finally show ?thesis by (simp add: s' U)
  qed
  with inv' m same show ?thesis
    unfolding release_spec_def s'_def [symmetric] by (simp add: U)
qed

text \<open>Handing the mutex over to the first waiting task.\<close>

lemma hand_over_kinv:
  assumes inv: "kinvx {m} (untyped m s)" and m: "is_mutex (objs s) m" "m \<noteq> NULL" "blk_policy (objs s m) = BLK_POLICY_PRI"
    and w: "blk_list (objs s m) = w # ws"
  defines "s1 \<equiv> pend_task_wakeup w s"
  shows "kinv (s1\<lparr>tasks := (tasks s1)(w := (tasks s1 w)\<lparr>mutex_list := m\<rparr>),
    mutexes := (mutexes s1)(m := (mutexes s1 m)\<lparr>mutex_task := w, mutex_next := mutex_list (tasks s1 w), owner_nested := 1\<rparr>)\<rparr>)" (is "kinv ?s'")
proof -
  have base: "base_ok s" using kinvD(1) [OF inv] by simp
  have blk: "blk_ok (objs s) (tasks s)" using base_okD(2) [OF base] .
  have pw: "pended (tasks s w)" "blk_obj (tasks s w) = m"
    using blk_okD(2) [OF blk, of w m] w by auto
  have s1: "s1 = wake w BLK_FINISH s" using pend_task_wakeup_wake(1) [OF base pw(1)] by (simp add: s1_def)
  then have inv1: "kinvx {m} (untyped m s1)"
    using wake_kinvx [OF inv, of w BLK_FINISH] pw by (simp add: untyped_wake)
  obtain q ts where eq: "s1 = s\<lparr>g_ready_queue := q, g_tick_head := ts,
      objs := (objs s)(m := (objs s m)\<lparr>blk_list := ws\<rparr>), tasks := (tasks s)(w := woken BLK_FINISH (tasks s w))\<rparr>"
    using wake_eq [of w BLK_FINISH s] pw w by (auto simp: s1)
  have lw: "live (tasks s w)" using pended_live [OF pw(1)] .
  have "w \<noteq> NULL" using mtx_okD(2) [OF kinvD(3) [OF inv], of w] lw by simp
  obtain u where u: "idle_task_ok (untyped m s) u" using kinvD(5) [OF inv] by (auto simp: idle_ok_def)
  have "u \<noteq> w" using u pw(1) by (auto simp: idle_task_ok_def state_defs)
  then have "b_prio (tasks s w) < RHINO_IDLE_PRI" using u lw by (auto simp: idle_task_ok_def)
  then have pri: "prio (tasks s w) \<noteq> RHINO_IDLE_PRI"
    using kinv_prio_le_base [OF kinvD(4) [OF inv], of w] lw by simp
  let ?x = "(mutexes s1 m)\<lparr>mutex_task := w, mutex_next := mutex_list (tasks s1 w), owner_nested := 1\<rparr>"
  have "may_own m w (untyped m s1)"
    using blk_okD(1) [OF blk, of m] blk_okD(3) [OF blk m(3)] w pri by (auto simp: may_own_def eq)
  then have "kinv (attached m ?x (untyped m s1))"
    using inv1 m(2,3) by (intro attach) (auto simp: eq)
  moreover have "?s' = attached m ?x (untyped m s1)"
    using \<open>w \<noteq> NULL\<close> m(1) by (simp add: attached_def untyped_def eq fun_eq_iff)
  ultimately show ?thesis by simp
qed

subsection \<open>All calls\<close>

text \<open>A mutex with an owner is locked at least once.\<close>

definition nest_ok :: "kernel \<Rightarrow> bool" where
  "nest_ok s \<longleftrightarrow> (\<forall>m. is_mutex (objs s) m \<longrightarrow> mutex_task (mutexes s m) \<noteq> NULL \<longrightarrow> owner_nested (mutexes s m) \<noteq> 0)"

lemma kinv_mutex_policy: "kinvx X s \<Longrightarrow> is_mutex (objs s) m \<Longrightarrow> m \<noteq> NULL \<and> blk_policy (objs s m) = BLK_POLICY_PRI"
  using mtx_okD(3) [OF kinvD(3)] by (simp add: mutex_wf_def)

lemma krhino_mutex_lock_kinv:
  assumes "kinv s" "ready (tasks s (g_active_task s))" "prio (tasks s (g_active_task s)) \<noteq> RHINO_IDLE_PRI"
  shows "kinv (snd (krhino_mutex_lock m ticks s))"
proof -
  let ?t = "g_active_task s" and ?o = "mutex_task (mutexes s m)"
  have lv: "live (tasks s ?t)" using assms(2) by (simp add: state_defs)
  have nested: "kinv (upd_mutex m (\<lambda>x. x\<lparr>owner_nested := owner_nested x + 1\<rparr>) s)"
    using nested_kinv [OF assms(1)] by (simp add: upd_mutex_def)
  consider "\<not> is_mutex (objs s) m" | "is_mutex (objs s) m" "?t = ?o" | "is_mutex (objs s) m" "?t \<noteq> ?o" "?o = NULL"
    | "is_mutex (objs s) m" "?t \<noteq> ?o" "?o \<noteq> NULL" by blast
  then show ?thesis
  proof cases
    case 1
    then show ?thesis using assms(1) by (simp add: krhino_mutex_lock_def Let_def)
  next
    case 2
    then show ?thesis using assms(1) nested by (simp add: krhino_mutex_lock_def Let_def k_err_proc_def)
  next
    case 3
    then show ?thesis
      using assms(1) acquire_kinv [OF assms(1) 3(1,3) lv assms(3)]
      by (simp add: krhino_mutex_lock_def Let_def upd_defs)
  next
    case 4
    then show ?thesis
      using assms(1) inherit_block_kinv(1) [OF assms 4(1) refl 4(3) not_sym [OF 4(2)]]
      by (simp add: krhino_mutex_lock_def Let_def core_sched_kinv)
  qed
qed

lemma krhino_mutex_unlock_kinv:
  assumes "kinv s" "ready (tasks s (g_active_task s))"
  shows "kinv (snd (krhino_mutex_unlock m s))"
proof -
  let ?t = "g_active_task s" and ?o = "mutex_task (mutexes s m)"
  define s0 where "s0 = upd_mutex m (\<lambda>x. x\<lparr>owner_nested := owner_nested x - 1\<rparr>) s"
  have s0: "kinv s0" using nested_kinv [OF assms(1)] by (simp add: s0_def upd_mutex_def)
  have same: "objs s0 = objs s" "tasks s0 = tasks s" "mutex_task (mutexes s0 m) = ?o" "g_active_task s0 = ?t"
    by (simp_all add: s0_def upd_mutex_def)
  show ?thesis
  proof (cases "m = NULL \<or> g_sys_stat s = RHINO_STOPPED \<or> 0 < g_intrpt_nested_level s \<or> \<not> is_mutex (objs s) m
      \<or> ?t \<noteq> ?o \<or> 0 < owner_nested (mutexes s0 m)")
    case True
    then show ?thesis
      using assms(1) s0 by (auto simp: krhino_mutex_unlock_def Let_def s0_def [symmetric])
  next
    case False
    define s2 where "s2 = mutex_release ?o m s0"
    have "release_spec ?o m s0 s2"
      unfolding s2_def using False assms(2) by (intro release_ready [OF s0]) (simp_all add: same)
    then have s2: "kinvx {m} (untyped m s2)" "is_mutex (objs s2) m" "objs s2 = objs s"
      unfolding release_spec_def same by blast+
    have pol: "m \<noteq> NULL" "blk_policy (objs s2 m) = BLK_POLICY_PRI"
      using kinv_mutex_policy [OF assms(1)] False s2(3) by auto
    show ?thesis
    proof (cases "blk_list (objs s2 m)")
      case Nil
      have "kinv (attached m ((mutexes s2 m)\<lparr>mutex_task := NULL\<rparr>) (untyped m s2))"
        using pol Nil by (intro attach s2(1)) auto
      moreover have "attached m ((mutexes s2 m)\<lparr>mutex_task := NULL\<rparr>) (untyped m s2)
          = upd_mutex m (\<lambda>x. x\<lparr>mutex_task := NULL\<rparr>) s2"
        using s2(2) by (simp add: attached_def untyped_def upd_mutex_def fun_eq_iff)
      ultimately show ?thesis
        using False Nil by (simp add: krhino_mutex_unlock_def Let_def s0_def [symmetric] s2_def [symmetric])
    next
      case (Cons w ws)
      then show ?thesis
        using False hand_over_kinv [OF s2(1,2) pol Cons]
        by (simp add: krhino_mutex_unlock_def Let_def s0_def [symmetric] s2_def [symmetric])
         (simp add: upd_mutex_def upd_task_def core_sched_kinv)
    qed
  qed
qed

end
