(* ===== verification/Rhino_Objects.thy ===== *)
theory Rhino_Objects
  imports Rhino_Mutex_Ops
begin

text \<open>
  What holds of every kernel object between two calls (\<open>obj_inv\<close>), and the invariant of the
  whole kernel, \<open>kernel_ok\<close>.  The common point of the objects is that no task waits for
  something that is there: a semaphore with a count, an event whose flags satisfy the task, a
  queue with a message.

  \<open>obj_frame\<close> and \<open>run_frame\<close> describe the operations that only take tasks off the lists of
  objects and leave the running task ready; the waking of tasks is of that kind.  The lemmas
  of this theory are about the steps the operations on all kinds of objects have in common:
  creation, deletion, blocking, waking and rescheduling.
\<close>

section \<open>Objects\<close>

definition RHINO_FLAGS_AND_MASK :: u8 where
  "RHINO_FLAGS_AND_MASK = 2"

definition RHINO_FLAGS_CLEAR_MASK :: u8 where
  "RHINO_FLAGS_CLEAR_MASK = 1"

text \<open>The test of \<^verbatim>\<open>krhino_event_get\<close> and \<^verbatim>\<open>event_set\<close>, with all or with any of the flags.\<close>

definition event_met :: "u8 \<Rightarrow> u32 \<Rightarrow> u32 \<Rightarrow> bool" where
  "event_met opt flags cur \<longleftrightarrow>
     (if opt AND RHINO_FLAGS_AND_MASK \<noteq> 0 then cur AND flags = flags else cur AND flags > 0)"

definition q_holds :: "kqueue \<Rightarrow> byte list list \<Rightarrow> bool" where
  "q_holds q ms \<longleftrightarrow> rb_holds (q_ringbuf q) ms \<and> rb_type (q_ringbuf q) = RINGBUF_TYPE_FIX
     \<and> rb_blk_size (q_ringbuf q) = 4 \<and> rb_end (q_ringbuf q) = 4 * q_size q
     \<and> q_cur_num q = length ms \<and> q_cur_num q \<le> q_peak_num q \<and> q_peak_num q \<le> q_size q"

definition bq_holds :: "kbuf_queue \<Rightarrow> byte list list \<Rightarrow> bool" where
  "bq_holds q ms \<longleftrightarrow> rb_holds (bq_ringbuf q) ms
     \<and> (rb_type (bq_ringbuf q) = RINGBUF_TYPE_FIX \<longrightarrow> rb_blk_size (bq_ringbuf q) = max_msg_size q)
     \<and> bq_cur_num q = length ms \<and> bq_cur_num q \<le> bq_peak_num q
     \<and> (\<forall>m \<in> set ms. length m \<le> max_msg_size q) \<and> min_free_buf_size q \<le> rb_freesize (bq_ringbuf q)"

definition obj_inv :: "kernel \<Rightarrow> oid \<Rightarrow> bool" where
  "obj_inv s i \<longleftrightarrow>
     (let ws = blk_list (objs s i)
      in case obj_type (objs s i) of
        RHINO_SEM_OBJ_TYPE \<Rightarrow> sem_count (sems s i) \<noteq> 0 \<longrightarrow> ws = []
      | RHINO_MUTEX_OBJ_TYPE \<Rightarrow> mutex_task (mutexes s i) \<noteq> NULL \<longrightarrow> owner_nested (mutexes s i) \<noteq> 0
      | RHINO_EVENT_OBJ_TYPE \<Rightarrow>
          \<forall>t \<in> set ws. \<not> event_met (pend_option (tasks s t)) (pend_flags (tasks s t)) (event_flags (events s i))
      | RHINO_QUEUE_OBJ_TYPE \<Rightarrow> \<exists>ms. q_holds (queues s i) ms \<and> (ws \<noteq> [] \<longrightarrow> ms = [])
      | RHINO_BUF_QUEUE_OBJ_TYPE \<Rightarrow> \<exists>ms. bq_holds (buf_queues s i) ms \<and> (ws \<noteq> [] \<longrightarrow> ms = [])
      | _ \<Rightarrow> True)"

definition objs_ok :: "kernel \<Rightarrow> bool" where
  "objs_ok s \<longleftrightarrow> (\<forall>i. obj_inv s i)"

definition kernel_ok :: "kernel \<Rightarrow> bool" where
  "kernel_ok s \<longleftrightarrow> kinv s \<and> sched_ok s \<and> objs_ok s"

lemma kernel_okD:
  assumes "kernel_ok s"
  shows "kinv s" "sched_ok s" "objs_ok s" "obj_inv s i"
  using assms by (simp_all add: kernel_ok_def objs_ok_def)

section \<open>Frames\<close>

definition obj_frame :: "kernel \<Rightarrow> kernel \<Rightarrow> bool" where
  "obj_frame s s' \<longleftrightarrow> sems s' = sems s \<and> events s' = events s \<and> queues s' = queues s \<and> buf_queues s' = buf_queues s
     \<and> (\<forall>i. mutex_task (mutexes s' i) = mutex_task (mutexes s i) \<and> owner_nested (mutexes s' i) = owner_nested (mutexes s i))
     \<and> (\<forall>i. obj_type (objs s' i) = obj_type (objs s i) \<or> obj_type (objs s' i) = RHINO_OBJ_TYPE_NONE)
     \<and> (\<forall>i. set (blk_list (objs s' i)) \<subseteq> set (blk_list (objs s i)))
     \<and> (\<forall>i. \<forall>t \<in> set (blk_list (objs s' i)). pend_option (tasks s' t) = pend_option (tasks s t)
          \<and> pend_flags (tasks s' t) = pend_flags (tasks s t))"

lemma obj_frame_inv:
  assumes "obj_frame s s'" "obj_inv s i"
  shows "obj_inv s' i"
proof -
  have ty: "obj_type (objs s' i) = obj_type (objs s i) \<or> obj_type (objs s' i) = RHINO_OBJ_TYPE_NONE"
    and sub: "set (blk_list (objs s' i)) \<subseteq> set (blk_list (objs s i))"
    and pay: "sems s' = sems s" "events s' = events s" "queues s' = queues s" "buf_queues s' = buf_queues s"
      "mutex_task (mutexes s' i) = mutex_task (mutexes s i)" "owner_nested (mutexes s' i) = owner_nested (mutexes s i)"
    and pend: "\<And>t. t \<in> set (blk_list (objs s' i)) \<Longrightarrow> pend_option (tasks s' t) = pend_option (tasks s t)
          \<and> pend_flags (tasks s' t) = pend_flags (tasks s t)"
    using assms(1) unfolding obj_frame_def by blast+
  have e: "blk_list (objs s i) = [] \<Longrightarrow> blk_list (objs s' i) = []" using sub by simp
  show ?thesis
  proof (cases "obj_type (objs s' i) = RHINO_OBJ_TYPE_NONE")
    case True
    then show ?thesis by (simp add: obj_inv_def)
  next
    case False
    then have t: "obj_type (objs s' i) = obj_type (objs s i)" using ty by simp
    show ?thesis
      using assms(2) e sub pend unfolding obj_inv_def Let_def t pay
      by (cases "obj_type (objs s i)") auto
  qed
qed

lemma obj_frame_ok: "obj_frame s s' \<Longrightarrow> objs_ok s \<Longrightarrow> objs_ok s'"
  using obj_frame_inv by (auto simp: objs_ok_def)

lemma obj_frame_refl [simp]: "obj_frame s s"
  by (simp add: obj_frame_def)

lemma obj_frameD:
  assumes "obj_frame s s'"
  shows "sems s' = sems s" "events s' = events s" "queues s' = queues s" "buf_queues s' = buf_queues s"
    and "mutex_task (mutexes s' i) = mutex_task (mutexes s i)" "owner_nested (mutexes s' i) = owner_nested (mutexes s i)"
    and "obj_type (objs s' i) = obj_type (objs s i) \<or> obj_type (objs s' i) = RHINO_OBJ_TYPE_NONE"
    and "t \<in> set (blk_list (objs s' i)) \<Longrightarrow> t \<in> set (blk_list (objs s i))"
    and "t \<in> set (blk_list (objs s' i)) \<Longrightarrow> pend_option (tasks s' t) = pend_option (tasks s t)
          \<and> pend_flags (tasks s' t) = pend_flags (tasks s t)"
  using assms by (simp_all add: obj_frame_def subset_iff)

lemma obj_frame_trans:
  assumes "obj_frame s s'" "obj_frame s' s''"
  shows "obj_frame s s''"
proof -
  note D = obj_frameD [OF assms(1)] obj_frameD [OF assms(2)]
  have "obj_type (objs s'' i) = obj_type (objs s i) \<or> obj_type (objs s'' i) = RHINO_OBJ_TYPE_NONE" for i
    using D(7,16) [of i] by auto
  moreover have "pend_option (tasks s'' t) = pend_option (tasks s t) \<and> pend_flags (tasks s'' t) = pend_flags (tasks s t)"
    if "t \<in> set (blk_list (objs s'' i))" for i t
    using D(9) [OF D(17) [OF that]] D(18) [OF that] by simp
  moreover have "set (blk_list (objs s'' i)) \<subseteq> set (blk_list (objs s i))" for i using D(8,17) by blast
  ultimately show ?thesis unfolding obj_frame_def using D(1-6,10-15) by simp
qed

definition run_frame :: "kernel \<Rightarrow> kernel \<Rightarrow> bool" where
  "run_frame s s' \<longleftrightarrow> g_sched_lock s' = g_sched_lock s \<and> g_active_task s' = g_active_task s
     \<and> g_intrpt_nested_level s' = g_intrpt_nested_level s \<and> g_sys_stat s' = g_sys_stat s
     \<and> g_idle_task_spawned s' = g_idle_task_spawned s \<and> (\<forall>u. ready (tasks s u) \<longrightarrow> ready (tasks s' u))"

lemma run_frame_refl [simp]: "run_frame s s"
  by (simp add: run_frame_def)

lemma run_frame_trans: "run_frame s s' \<Longrightarrow> run_frame s' s'' \<Longrightarrow> run_frame s s''"
  by (simp add: run_frame_def)

lemma run_frame_sched: "sched_ok s \<Longrightarrow> run_frame s s' \<Longrightarrow> kinv s' \<Longrightarrow> sched_ok (core_sched s')"
  by (rule core_sched_sched_ok) (auto simp: sched_ok_def run_frame_def)

text \<open>Rescheduling after an operation of this kind.\<close>

lemma resched_ok:
  assumes "kernel_ok s" "kinv s'" "run_frame s s'" "objs_ok s'"
  shows "kernel_ok (core_sched s')"
proof -
  have "obj_frame s' (core_sched s')" by (simp add: obj_frame_def)
  then show ?thesis
    using assms run_frame_sched [OF kernel_okD(2) [OF assms(1)] assms(3,2)] core_sched_kinv [OF assms(2)]
      obj_frame_ok [OF _ assms(4)] by (simp add: kernel_ok_def)
qed

lemma active_ready:
  assumes "kernel_ok s" "g_intrpt_nested_level s = 0"
  shows "ready (tasks s (g_active_task s))"
proof (cases "g_sched_lock s = 0")
  case True
  then have "preferred_cpu_ready_task_get (g_ready_queue s) = Some (g_active_task s)"
    using kernel_okD(2) [OF assms(1)] assms(2) by (simp add: sched_ok_def)
  then have "g_active_task s \<in> set (cur_list_item (g_ready_queue s) (highest_pri (g_ready_queue s)))"
    by (auto simp: preferred_cpu_ready_task_get_def split: list.splits)
  then show ?thesis
    using base_okD(1) [OF kinvD(1) [OF kernel_okD(1) [OF assms(1)]]] by (simp add: rdy_ok_def)
next
  case False
  then show ?thesis using kernel_okD(2) [OF assms(1)] by (simp add: sched_ok_def word_neq_0_conv)
qed

subsection \<open>Waking\<close>

lemma wake_frames:
  assumes "base_ok s" "pended (tasks s t)"
  shows "obj_frame s (wake t r s)" "run_frame s (wake t r s)"
proof -
  let ?i = "blk_obj (tasks s t)"
  obtain q ts where w: "wake t r s = s\<lparr>g_ready_queue := q, g_tick_head := ts,
     objs := (objs s)(?i := (objs s ?i)\<lparr>blk_list := remove1 t (blk_list (objs s ?i))\<rparr>),
     tasks := (tasks s)(t := woken r (tasks s t))\<rparr>"
    using wake_eq by blast
  show "obj_frame s (wake t r s)"
    using set_remove1_subset [of t "blk_list (objs s ?i)"]
    unfolding w by (auto simp: obj_frame_def woken_def split: if_splits)
  show "run_frame s (wake t r s)"
    using assms(2) unfolding w by (auto simp: run_frame_def state_defs)
qed

lemma wake_all_frames:
  assumes f: "\<And>s t. base_ok s \<Longrightarrow> pended (tasks s t) \<Longrightarrow> f t s = wake t r (upd_task t g s)"
    and g: "neutral g" and s: "base_ok s"
  shows "obj_frame s (wake_all f i s)" "run_frame s (wake_all f i s)"
proof -
  obtain q ts where w: "wake_all f i s = s\<lparr>g_ready_queue := q, g_tick_head := ts, objs := drained i (objs s),
      tasks := (\<lambda>u. if u \<in> set (blk_list (objs s i)) then woken r (g (tasks s u)) else tasks s u)\<rparr>"
    using wake_all_spec(2) [OF f g s] by blast
  note blk = blk_okD(2) [OF base_okD(2) [OF s]]
  have "t \<notin> set (blk_list (objs s i))" if "t \<in> set (blk_list (drained i (objs s) j))" for t j
    using that blk by (auto simp: drained_def split: if_splits)
  then show "obj_frame s (wake_all f i s)"
    unfolding w by (auto simp: obj_frame_def) (auto simp: drained_def split: if_splits)
  show "run_frame s (wake_all f i s)"
    using blk unfolding w by (auto simp: run_frame_def state_defs)
qed

lemma wakeup_id:
  "base_ok s \<Longrightarrow> pended (tasks s t) \<Longrightarrow> pend_task_wakeup t s = wake t BLK_FINISH (upd_task t (\<lambda>k. k) s)"
  by (simp add: pend_task_wakeup_wake(1) upd_task_def)

text \<open>Deletion: the object loses its type and its tasks are woken.\<close>

lemma del_ok:
  assumes "kinv s" "\<not> is_mutex (objs s) i"
  defines "s' \<equiv> wake_all pend_task_rm i (upd_obj i (\<lambda>b. b\<lparr>obj_type := RHINO_OBJ_TYPE_NONE\<rparr>) s)"
  shows "kinv s'" "obj_frame s s'" "run_frame s s'"
proof -
  let ?s1 = "upd_obj i (\<lambda>b. b\<lparr>obj_type := RHINO_OBJ_TYPE_NONE\<rparr>) s"
  have s1: "kinvx {i} ?s1" using untyped_kinv [OF assms(1,2)] by (simp add: upd_obj_def)
  show "kinv s'"
    unfolding s'_def using s1 assms(2)
    by (intro wake_all_kinvx [where g = "\<lambda>k. k" and r = BLK_DEL and X = "{i}"] pend_task_rm_id neutral_id)
      (auto simp: upd_obj_def)
  have "obj_frame s ?s1" "run_frame s ?s1" by (auto simp: obj_frame_def run_frame_def upd_obj_def)
  moreover have "obj_frame ?s1 s'" "run_frame ?s1 s'"
    unfolding s'_def using wake_all_frames [OF pend_task_rm_id neutral_id kinvD(1) [OF s1]] by auto
  ultimately show "obj_frame s s'" "run_frame s s'" using obj_frame_trans run_frame_trans by blast+
qed

subsection \<open>Changes of single objects\<close>

lemma obj_inv_same:
  assumes "objs s' i = objs s i" "sems s' i = sems s i" "events s' i = events s i"
    and "mutex_task (mutexes s' i) = mutex_task (mutexes s i)" "owner_nested (mutexes s' i) = owner_nested (mutexes s i)"
    and "queues s' i = queues s i" "buf_queues s' i = buf_queues s i"
    and "\<And>t. t \<in> set (blk_list (objs s i)) \<Longrightarrow> pend_option (tasks s' t) = pend_option (tasks s t)
      \<and> pend_flags (tasks s' t) = pend_flags (tasks s t)"
  shows "obj_inv s' i = obj_inv s i"
  using assms unfolding obj_inv_def Let_def by (cases "obj_type (objs s i)") auto

lemma sched_ok_same:
  assumes "sched_ok s" "g_intrpt_nested_level s' = g_intrpt_nested_level s" "g_sched_lock s' = g_sched_lock s"
    and "g_ready_queue s' = g_ready_queue s" "g_active_task s' = g_active_task s"
    and "\<And>u. ready (tasks s u) \<Longrightarrow> ready (tasks s' u)"
    and "g_sys_stat s' = g_sys_stat s" "g_idle_task_spawned s' = g_idle_task_spawned s"
  shows "sched_ok s'"
  using assms by (auto simp: sched_ok_def)

lemma obj_inv_frame [simp]:
  "obj_inv (s\<lparr>g_kobj_list := KL\<rparr>) i = obj_inv s i" "obj_inv (s\<lparr>k_err_log := e\<rparr>) i = obj_inv s i"
  "obj_inv (s\<lparr>user_words := w\<rparr>) i = obj_inv s i" "obj_inv (s\<lparr>user_bufs := ub\<rparr>) i = obj_inv s i"
  "obj_inv (s\<lparr>g_res_list := rl\<rparr>) i = obj_inv s i" "obj_inv (s\<lparr>g_sys_stat := st\<rparr>) i = obj_inv s i"
  "obj_inv (s\<lparr>g_sched_lock := l\<rparr>) i = obj_inv s i" "obj_inv (s\<lparr>g_intrpt_nested_level := l\<rparr>) i = obj_inv s i"
  "obj_inv (s\<lparr>stack_mem := sm\<rparr>) i = obj_inv s i"
  "obj_inv (s\<lparr>g_idle_task_spawned := sp\<rparr>) i = obj_inv s i" "obj_inv (s\<lparr>g_ready_queue := rq\<rparr>) i = obj_inv s i"
  by (rule obj_inv_same; simp)+

lemma kernel_ok_frame [simp]:
  "kernel_ok (s\<lparr>g_kobj_list := KL\<rparr>) = kernel_ok s" "kernel_ok (s\<lparr>k_err_log := e\<rparr>) = kernel_ok s"
  "kernel_ok (s\<lparr>user_words := w\<rparr>) = kernel_ok s" "kernel_ok (s\<lparr>user_bufs := ub\<rparr>) = kernel_ok s"
  "kernel_ok (s\<lparr>g_res_list := rl\<rparr>) = kernel_ok s" "kernel_ok (s\<lparr>stack_mem := sm\<rparr>) = kernel_ok s"
  by (simp_all add: kernel_ok_def objs_ok_def sched_ok_def)

text \<open>A new object of some type at a free address.\<close>

lemma create_ok:
  assumes "kernel_ok s" "obj_type (objs s i) = RHINO_OBJ_TYPE_NONE" "blk_list b = []" "obj_type b \<noteq> RHINO_MUTEX_OBJ_TYPE"
    and "objs s' = (objs s)(i := b)" "obj_inv s' i"
    and "\<And>j. j \<noteq> i \<Longrightarrow> sems s' j = sems s j \<and> events s' j = events s j
      \<and> queues s' j = queues s j \<and> buf_queues s' j = buf_queues s j"
    and "mutexes s' = mutexes s" "tasks s' = tasks s" "g_intrpt_nested_level s' = g_intrpt_nested_level s"
    and "g_sched_lock s' = g_sched_lock s" "g_ready_queue s' = g_ready_queue s" "g_active_task s' = g_active_task s"
    and "g_tick_head s' = g_tick_head s" "g_tick_count s' = g_tick_count s" "k_fault s' = k_fault s"
    and "g_sys_stat s' = g_sys_stat s" "g_idle_task_spawned s' = g_idle_task_spawned s"
  shows "kernel_ok s'"
proof -
  have "kinv (s\<lparr>objs := (objs s)(i := b)\<rparr>)"
    by (rule fresh_kinv [OF kernel_okD(1) [OF assms(1)] assms(2) _ assms(3,4)]) simp
  then have "kinv s'" using kinvx_cong [of s' "s\<lparr>objs := (objs s)(i := b)\<rparr>"] assms by simp
  moreover have "sched_ok s'"
    using assms by (intro sched_ok_same [OF kernel_okD(2) [OF assms(1)]]) auto
  moreover have "obj_inv s' j" for j
    using assms(6-9) kernel_okD(4) [OF assms(1), of j] obj_inv_same [of s' j s]
    by (cases "j = i") (auto simp: assms(5))
  ultimately show ?thesis by (simp add: kernel_ok_def objs_ok_def)
qed

text \<open>A change of the data of one object, with the lists and the running task as they are.\<close>

lemma change_ok:
  assumes "kernel_ok s" "kinv s'" "obj_inv s' i"
    and "\<And>j. j \<noteq> i \<Longrightarrow> sems s' j = sems s j \<and> mutexes s' j = mutexes s j \<and> events s' j = events s j
      \<and> queues s' j = queues s j \<and> buf_queues s' j = buf_queues s j"
    and "objs s' = objs s" "\<And>t. pend_option (tasks s' t) = pend_option (tasks s t)"
    and "\<And>t. pend_flags (tasks s' t) = pend_flags (tasks s t)" "\<And>t. task_state (tasks s' t) = task_state (tasks s t)"
    and "g_intrpt_nested_level s' = g_intrpt_nested_level s" "g_sched_lock s' = g_sched_lock s"
    and "g_ready_queue s' = g_ready_queue s" "g_active_task s' = g_active_task s"
    and "g_sys_stat s' = g_sys_stat s" "g_idle_task_spawned s' = g_idle_task_spawned s"
  shows "kernel_ok s'"
proof -
  have "sched_ok s'"
    using assms(8-14) by (intro sched_ok_same [OF kernel_okD(2) [OF assms(1)]]) (auto simp: ready_def)
  moreover have "obj_inv s' j" for j
    using assms(3-7) kernel_okD(4) [OF assms(1), of j] obj_inv_same [of s' j s]
    by (cases "j = i") auto
  ultimately show ?thesis using assms(2) by (simp add: kernel_ok_def objs_ok_def)
qed

subsection \<open>Blocking\<close>

text \<open>The other objects, and the state of the scheduler, when a task is put on the list of \<open>i\<close>.\<close>

lemma block_frame:
  fixes i :: oid and timeout :: tick_t
  assumes s: "base_ok s" "ready (tasks s t)" "some_other_ready (tasks s) t"
  defines "s' \<equiv> pend_to_blk_obj i t timeout s"
  shows "j \<noteq> i \<Longrightarrow> obj_inv s' j = obj_inv s j"
    and "g_sched_lock s' = g_sched_lock s" "g_intrpt_nested_level s' = g_intrpt_nested_level s"
    and "sems s' = sems s" "mutexes s' = mutexes s" "events s' = events s" "queues s' = queues s" "buf_queues s' = buf_queues s"
    and "obj_type (objs s' j) = obj_type (objs s j)" "set (blk_list (objs s' i)) = insert t (set (blk_list (objs s i)))"
    and "pend_option (tasks s' u) = pend_option (tasks s u)" "pend_flags (tasks s' u) = pend_flags (tasks s u)"
    and "g_sys_stat s' = g_sys_stat s" "g_idle_task_spawned s' = g_idle_task_spawned s"
proof -
  obtain q ts where w: "s' = s\<lparr>g_ready_queue := q, g_tick_head := ts,
      objs := (objs s)(i := (objs s i)\<lparr>blk_list := block_order (objs s i) (tasks s) t\<rparr>),
      tasks := (tasks s)(t := blocked i timeout (g_tick_count s) (tasks s t))\<rparr>"
    using pend_to_blk_obj_spec(2) [OF s, of i timeout] unfolding s'_def by blast
  show "g_sched_lock s' = g_sched_lock s" "g_intrpt_nested_level s' = g_intrpt_nested_level s"
    "sems s' = sems s" "mutexes s' = mutexes s" "events s' = events s" "queues s' = queues s" "buf_queues s' = buf_queues s"
    "obj_type (objs s' j) = obj_type (objs s j)"
    "pend_option (tasks s' u) = pend_option (tasks s u)" "pend_flags (tasks s' u) = pend_flags (tasks s u)"
    "g_sys_stat s' = g_sys_stat s" "g_idle_task_spawned s' = g_idle_task_spawned s"
    by (simp_all add: w)
  show "set (blk_list (objs s' i)) = insert t (set (blk_list (objs s i)))"
    by (simp add: w set_block_order)
  show "obj_inv s' j = obj_inv s j" if "j \<noteq> i"
    using that by (intro obj_inv_same) (simp_all add: w)
qed

text \<open>Blocking the running task on an object of another kind than a mutex.\<close>

lemma block_ok:
  assumes "kernel_ok s" "g_intrpt_nested_level s = 0" "g_sched_lock s = 0"
    and "prio (tasks s (g_active_task s)) \<noteq> RHINO_IDLE_PRI"
    and "\<not> is_mutex (objs s) i" "obj_type (objs s i) \<noteq> RHINO_OBJ_TYPE_NONE"
    and "neutral g" "obj_inv (pend_to_blk_obj i (g_active_task s) timeout (upd_task (g_active_task s) g s)) i"
  shows "kernel_ok (core_sched (pend_to_blk_obj i (g_active_task s) timeout (upd_task (g_active_task s) g s)))"
proof -
  let ?t = "g_active_task s"
  define s1 where "s1 = upd_task ?t g s"
  define s2 where "s2 = pend_to_blk_obj i ?t timeout s1"
  have rdy: "ready (tasks s ?t)" using active_ready [OF assms(1,2)] .
  have k1: "kinv s1" unfolding s1_def using neutral_kinvx [OF kernel_okD(1) [OF assms(1)] assms(7)] .
  have t1: "ready (tasks s1 ?t)" "prio (tasks s1 ?t) \<noteq> RHINO_IDLE_PRI" "objs s1 = objs s"
    using rdy assms(4,7) by (auto simp: s1_def upd_task_def neutral_def ready_def)
  have k2: "kinv s2" unfolding s2_def using block_kinv [OF k1 t1(1,2)] assms(5,6) t1(3) by simp
  have "?t \<notin> set (blk_list (objs s j))" for j
    using blk_okD(2) [OF base_okD(2) [OF kinvD(1) [OF kernel_okD(1) [OF assms(1)]]], of ?t j] rdy
    by (auto simp: state_defs)
  then have "obj_inv s1 j = obj_inv s j" for j
    by (intro obj_inv_same) (auto simp: s1_def upd_task_def)
  then have inv: "obj_inv s2 j" for j
    using assms(8) kernel_okD(4) [OF assms(1), of j] block_frame(1) [OF kinvD(1) [OF k1] t1(1) kinv_other [OF k1 t1(2)], of j i timeout]
    by (cases "j = i") (auto simp: s2_def s1_def)
  have "g_sched_lock s2 = 0" "g_sys_stat s2 = RHINO_RUNNING" "g_idle_task_spawned s2 > 0"
    unfolding s2_def using block_frame(2,13,14) [OF kinvD(1) [OF k1] t1(1) kinv_other [OF k1 t1(2)]] assms(3) kernel_okD(2) [OF assms(1)]
    by (simp_all add: s1_def upd_task_def sched_ok_def)
  then have "sched_ok (core_sched s2)" by (intro core_sched_sched_ok [OF k2]) auto
  moreover have "objs_ok (core_sched s2)"
    by (rule obj_frame_ok [of s2]) (auto simp: obj_frame_def objs_ok_def inv)
  ultimately show ?thesis using core_sched_kinv [OF k2] by (simp add: kernel_ok_def s2_def s1_def)
qed

subsection \<open>Waking single tasks, and all tasks of an object\<close>

lemma wakeup_mem:
  assumes "kinvx X s" "t \<in> set (blk_list (objs s i))" "\<not> is_mutex (objs s) i"
  shows "kinvx X (pend_task_wakeup t s)" "obj_frame s (pend_task_wakeup t s)" "run_frame s (pend_task_wakeup t s)"
    and "blk_list (objs (pend_task_wakeup t s) i) = remove1 t (blk_list (objs s i))"
    and "tasks (pend_task_wakeup t s) = (tasks s)(t := woken BLK_FINISH (tasks s t))"
    and "obj_type (objs (pend_task_wakeup t s) j) = obj_type (objs s j)"
proof -
  have t: "pended (tasks s t)" "blk_obj (tasks s t) = i"
    using blk_okD(2) [OF base_okD(2) [OF kinvD(1) [OF assms(1)]], of t i] assms(2) by auto
  note w = pend_task_wakeup_wake(1) [OF kinvD(1) [OF assms(1)] t(1)]
  show "kinvx X (pend_task_wakeup t s)" unfolding w using wake_kinvx [OF assms(1) t(1)] t(2) assms(3) by simp
  show "obj_frame s (pend_task_wakeup t s)" "run_frame s (pend_task_wakeup t s)"
    unfolding w using wake_frames [OF kinvD(1) [OF assms(1)] t(1)] by auto
  show "blk_list (objs (pend_task_wakeup t s) i) = remove1 t (blk_list (objs s i))"
    "tasks (pend_task_wakeup t s) = (tasks s)(t := woken BLK_FINISH (tasks s t))"
    "obj_type (objs (pend_task_wakeup t s) j) = obj_type (objs s j)"
    unfolding w using wake_eq [of t BLK_FINISH s] t(2) by auto
qed

lemma wakeup_all:
  assumes "kinv s" "\<not> is_mutex (objs s) i"
  shows "kinv (wake_all pend_task_wakeup i s)" "obj_frame s (wake_all pend_task_wakeup i s)"
    and "run_frame s (wake_all pend_task_wakeup i s)"
  using wake_all_kinvx [OF wakeup_id neutral_id assms] wake_all_frames [OF wakeup_id neutral_id kinvD(1) [OF assms(1)]]
  by auto

lemma wake_one_ok:
  assumes "kernel_ok s" "t \<in> set (blk_list (objs s i))" "\<not> is_mutex (objs s) i"
  shows "kernel_ok (core_sched (pend_task_wakeup t s))"
  using wakeup_mem(1-3) [OF kernel_okD(1) [OF assms(1)] assms(2,3)] obj_frame_ok [OF _ kernel_okD(3) [OF assms(1)]]
  by (auto intro: resched_ok [OF assms(1)])

lemma wake_every_ok:
  assumes "\<And>s t. base_ok s \<Longrightarrow> pended (tasks s t) \<Longrightarrow> f t s = wake t r (upd_task t g s)" "neutral g"
    and "kernel_ok s" "\<not> is_mutex (objs s) i"
  shows "kernel_ok (core_sched (wake_all f i s))"
proof -
  note k = kernel_okD(1) [OF assms(3)]
  have "kinv (wake_all f i s)" using wake_all_kinvx [OF assms(1,2) k assms(4)] by simp
  moreover note wake_all_frames [OF assms(1,2) kinvD(1) [OF k]]
  ultimately show ?thesis using obj_frame_ok [OF _ kernel_okD(3) [OF assms(3)]] by (auto intro: resched_ok [OF assms(3)])
qed

text \<open>A change of the other fields of a task.\<close>

lemma neutral_ok:
  assumes "kernel_ok s" "neutral g" "\<And>k. pend_option (g k) = pend_option k" "\<And>k. pend_flags (g k) = pend_flags k"
  shows "kernel_ok (upd_task t g s)"
proof -
  have "sched_ok (upd_task t g s)"
    using assms(2) by (intro sched_ok_same [OF kernel_okD(2) [OF assms(1)]]) (auto simp: upd_task_def neutral_def ready_def)
  moreover have "obj_inv (upd_task t g s) j = obj_inv s j" for j
    using assms(3,4) by (intro obj_inv_same) (auto simp: upd_task_def)
  ultimately show ?thesis
    using neutral_kinvx [OF kernel_okD(1) [OF assms(1)] assms(2)] kernel_okD(4) [OF assms(1)]
    by (simp add: kernel_ok_def objs_ok_def)
qed

text \<open>Deletion of an object other than a mutex, as the object kinds share it.\<close>

lemma del_resched_ok:
  assumes "kernel_ok s" "\<not> is_mutex (objs s) i"
    and f: "\<And>s. kinv s \<Longrightarrow> kinv (f s)" "\<And>s. objs (f s) = objs s" "\<And>s j. j \<noteq> i \<Longrightarrow> obj_inv (f s) j = obj_inv s j"
      "\<And>s. run_frame s (f s)"
  shows "kernel_ok (core_sched (f (wake_all pend_task_rm i (upd_obj i (\<lambda>b. b\<lparr>obj_type := RHINO_OBJ_TYPE_NONE\<rparr>) s))))"
proof -
  define s1 where "s1 = wake_all pend_task_rm i (upd_obj i (\<lambda>b. b\<lparr>obj_type := RHINO_OBJ_TYPE_NONE\<rparr>) s)"
  note d = del_ok [OF kernel_okD(1) [OF assms(1)] assms(2), folded s1_def]
  have ty: "obj_type (objs s1 i) = RHINO_OBJ_TYPE_NONE"
    using obj_frameD(7) [OF wake_all_frames(1) [OF pend_task_rm_id neutral_id], of "upd_obj i (\<lambda>b. b\<lparr>obj_type := RHINO_OBJ_TYPE_NONE\<rparr>) s" i i]
      kinvD(1) [OF kernel_okD(1) [OF assms(1)]]
    by (auto simp: s1_def upd_obj_def)
  have "obj_inv (f s1) j" for j
  proof (cases "j = i")
    case True
    with ty f(2) show ?thesis by (simp add: obj_inv_def)
  next
    case False
    then show ?thesis using f(3) obj_frame_inv [OF d(2) kernel_okD(4) [OF assms(1)]] by simp
  qed
  then have "kernel_ok (core_sched (f s1))"
    using f(1) [OF d(1)] run_frame_trans [OF d(3) f(4)] by (intro resched_ok [OF assms(1)]) (auto simp: objs_ok_def)
  then show ?thesis by (simp add: s1_def)
qed

section \<open>Mutexes\<close>

lemma reprio_frames:
  assumes "reprio s s'"
  shows "obj_frame s s'" "run_frame s s'"
proof -
  have "pend_option (tasks s' t) = pend_option (tasks s t)" "pend_flags (tasks s' t) = pend_flags (tasks s t)" for t
  proof -
    obtain T q B where "s' = s\<lparr>g_ready_queue := q, objs := B, tasks := T\<rparr>" "T t = (tasks s t)\<lparr>prio := prio (T t)\<rparr>"
      using assms unfolding reprio_def by blast
    then have "\<exists>p. tasks s' t = (tasks s t)\<lparr>prio := p\<rparr>" by auto
    then show "pend_option (tasks s' t) = pend_option (tasks s t)" "pend_flags (tasks s' t) = pend_flags (tasks s t)"
      by auto
  qed
  then show "obj_frame s s'" by (simp add: obj_frame_def reprio_same [OF assms])
  show "run_frame s s'" by (simp add: run_frame_def reprio_same [OF assms])
qed

end
