(* ===== verification/Rhino_Mutex_Calls.thy ===== *)
theory Rhino_Mutex_Calls
  imports Rhino_Objects
begin

text \<open>
  The mutex calls as the kernel's clients see them: they keep the invariant of the kernel, and
  a lock and an unlock change the ownership and the priorities as they should.
\<close>

section \<open>The invariant of the kernel\<close>

text \<open>
  \<open>may_block\<close> is what a call that may block relies on: it is made by a task, and not by the
  idle task.
\<close>

definition may_block :: "kernel \<Rightarrow> bool" where
  "may_block s \<longleftrightarrow> kernel_ok s \<and> g_intrpt_nested_level s = 0 \<and> prio (tasks s (g_active_task s)) \<noteq> RHINO_IDLE_PRI"

lemma may_blockD:
  assumes "may_block s"
  shows "kernel_ok s" "kinv s" "ready (tasks s (g_active_task s))" "prio (tasks s (g_active_task s)) \<noteq> RHINO_IDLE_PRI"
  using assms active_ready kernel_okD(1) by (auto simp: may_block_def)

lemma krhino_mutex_create_ok:
  assumes "kernel_ok s" "obj_type (objs s m) = RHINO_OBJ_TYPE_NONE"
  shows "kernel_ok (snd (mutex_create m name flag s))"
proof (cases "m = NULL \<or> name = NULL")
  case True
  then show ?thesis using assms(1) by (auto simp: mutex_create_def)
next
  case False
  let ?s = "snd (mutex_create m name flag s)"
  have k: "kinv ?s" using mutex_create_kinv [OF kernel_okD(1) [OF assms(1)] assms(2)] .
  have "sched_ok ?s"
    using False by (intro sched_ok_same [OF kernel_okD(2) [OF assms(1)]]) (simp_all add: mutex_create_def upd_defs)
  moreover have "obj_inv ?s j" for j
    using False kernel_okD(4) [OF assms(1), of j] obj_inv_same [of ?s j s]
    by (cases "j = m") (simp_all add: mutex_create_def upd_defs obj_inv_def)
  ultimately show ?thesis using k by (simp add: kernel_ok_def objs_ok_def)
qed

lemma mutex_del_ok:
  assumes "kernel_ok s" "is_mutex (objs s) m"
  shows "kernel_ok (mutex_del m s)"
proof -
  note k = kernel_okD(1) [OF assms(1)]
  let ?t = "mutex_task (mutexes s m)"
  define s1 where "s1 = (if ?t \<noteq> NULL then mutex_release ?t m (untyped m s) else untyped m s)"
  define s2 where "s2 = wake_all pend_task_rm m s1"
  have s1: "kinvx {m} s1" "\<not> is_mutex (objs s1) m"
    using detach_free [OF k assms(2)] detach_owned [OF k assms(2)] by (auto simp: s1_def)
  have u: "obj_frame s (untyped m s)" "run_frame s (untyped m s)"
    by (auto simp: obj_frame_def run_frame_def untyped_def)
  have f1: "obj_frame s s1" "run_frame s s1"
  proof -
    have "obj_frame s s1 \<and> run_frame s s1"
    proof (cases "?t = NULL")
      case True
      then show ?thesis using u by (simp add: s1_def)
    next
      case False
      then obtain xs where re: "reprio (unlinked ?t m xs (untyped m s)) s1"
        using detach_owned(3) [OF k assms(2) refl False] by (auto simp: s1_def)
      have "obj_frame s (unlinked ?t m xs (untyped m s))" "run_frame s (unlinked ?t m xs (untyped m s))"
        by (auto simp: obj_frame_def run_frame_def unlinked_same ready_def untyped_def)
      then show ?thesis using reprio_frames [OF re] obj_frame_trans run_frame_trans by blast
    qed
    then show "obj_frame s s1" "run_frame s s1" by auto
  qed
  have f2: "obj_frame s1 s2" "run_frame s1 s2"
    unfolding s2_def using wake_all_frames [OF pend_task_rm_id neutral_id kinvD(1) [OF s1(1)]] by auto
  let ?s3 = "s2\<lparr>g_kobj_list := (g_kobj_list s2)\<lparr>mutex_head := remove1 m (mutex_head (g_kobj_list s2))\<rparr>\<rparr>"
  have f3: "obj_frame s2 ?s3" "run_frame s2 ?s3" by (auto simp: obj_frame_def run_frame_def)
  have "kinv s2"
    unfolding s2_def using s1
    by (intro wake_all_kinvx [where g = "\<lambda>k. k" and r = BLK_DEL] pend_task_rm_id neutral_id) auto
  then have "kinv ?s3" by simp
  moreover have "run_frame s ?s3" using f1(2) f2(2) f3(2) run_frame_trans by blast
  moreover have "objs_ok ?s3"
    using obj_frame_ok [OF obj_frame_trans [OF obj_frame_trans [OF f1(1) f2(1)] f3(1)] kernel_okD(3) [OF assms(1)]] .
  ultimately have "kernel_ok (core_sched ?s3)" by (rule resched_ok [OF assms(1)])
  moreover have "mutex_del m s = core_sched ?s3"
    by (simp add: mutex_del_def s2_def s1_def untyped_def upd_obj_def Let_def)
  ultimately show ?thesis by simp
qed

lemma nested_ok:
  assumes "kernel_ok s" "n \<noteq> 0"
  shows "kernel_ok (s\<lparr>mutexes := (mutexes s)(m := (mutexes s m)\<lparr>owner_nested := n\<rparr>)\<rparr>)" (is "kernel_ok ?s")
proof -
  have "obj_inv ?s m"
    using kernel_okD(4) [OF assms(1), of m] assms(2) by (cases "obj_type (objs s m)") (simp_all add: obj_inv_def)
  then show ?thesis
    using nested_kinv [OF kernel_okD(1) [OF assms(1)]] by (intro change_ok [OF assms(1), where i = m]) simp_all
qed

lemma acquire_ok:
  assumes "may_block s" "is_mutex (objs s) m" "mutex_task (mutexes s m) = NULL"
  defines "t \<equiv> g_active_task s"
  shows "kernel_ok (s\<lparr>tasks := (tasks s)(t := (tasks s t)\<lparr>mutex_list := m\<rparr>),
    mutexes := (mutexes s)(m := (mutexes s m)\<lparr>mutex_task := t, mutex_next := mutex_list (tasks s t), owner_nested := 1\<rparr>)\<rparr>)"
proof -
  note b = may_blockD [OF assms(1)]
  have "live (tasks s t)" using b(3) by (simp add: t_def state_defs)
  then show ?thesis
    using acquire_kinv [OF b(2) assms(2,3), of t] b(4) assms(2)
    by (intro change_ok [OF b(1), where i = m]) (simp_all add: obj_inv_def t_def)
qed

lemma inherit_block_ok:
  assumes "may_block s" "is_mutex (objs s) m" "mutex_task (mutexes s m) \<noteq> NULL" "mutex_task (mutexes s m) \<noteq> g_active_task s"
    and "g_sched_lock s = 0"
  defines "t \<equiv> g_active_task s" and "o' \<equiv> mutex_task (mutexes s m)"
  defines "s1 \<equiv> (if prio (tasks s t) < prio (tasks s o') then pri_change o' (prio (tasks s t)) s else s)"
  shows "kernel_ok (core_sched (pend_to_blk_obj m t ticks s1))"
proof -
  note b = may_blockD [OF assms(1), folded t_def]
  define s2 where "s2 = pend_to_blk_obj m t ticks s1"
  note ib = inherit_block_kinv [OF b(2-4) assms(2) meta_eq_to_obj_eq [OF o'_def [symmetric]] assms(3,4) [folded t_def o'_def], folded s1_def]
  have k2: "kinv s2" using ib(1) by (simp add: s2_def)
  note same = reprio_same [OF ib(2)]
  have "ready (tasks s1 t)" "some_other_ready (tasks s1) t"
    using b(3) kinv_other [OF b(2,4)] by (simp_all add: same some_other_ready_def)
  note bf = block_frame [OF ib(3) this, where i = m and timeout = ticks, folded s2_def]
  have "objs_ok s1" using obj_frame_ok [OF reprio_frames(1) [OF ib(2)] kernel_okD(3) [OF b(1)]] .
  then have "obj_inv s2 j" for j
    using bf(1) [of j] assms(2) kernel_okD(4) [OF b(1), of m]
    by (cases "j = m") (simp_all add: objs_ok_def obj_inv_def [of _ m] bf(5,9) same)
  then have "objs_ok (core_sched s2)"
    by (intro obj_frame_ok [of s2 "core_sched s2"]) (simp_all add: obj_frame_def objs_ok_def)
  moreover have "sched_ok (core_sched s2)"
    using assms(5) kernel_okD(2) [OF b(1)] by (intro core_sched_sched_ok [OF k2]) (simp_all add: bf(2,13,14) same sched_ok_def)
  ultimately show ?thesis
    unfolding s2_def [symmetric] using core_sched_kinv [OF k2] by (simp add: kernel_ok_def)
qed

lemma err_ok: "kernel_ok s \<Longrightarrow> kernel_ok (k_err_proc e s)"
  using obj_inv_same [of "k_err_proc e s"]
  by (simp add: kernel_ok_def objs_ok_def k_err_proc_def sched_ok_def)

lemma krhino_mutex_lock_ok:
  assumes "may_block s"
  shows "kernel_ok (snd (krhino_mutex_lock m ticks s))"
proof -
  note b = may_blockD [OF assms]
  let ?t = "g_active_task s" and ?o = "mutex_task (mutexes s m)"
  consider "\<not> is_mutex (objs s) m" | "is_mutex (objs s) m" "?t = ?o" | "is_mutex (objs s) m" "?t \<noteq> ?o" "?o = NULL"
    | "is_mutex (objs s) m" "?t \<noteq> ?o" "?o \<noteq> NULL" by blast
  then show ?thesis
  proof cases
    case 1
    then show ?thesis using b(1) by (simp add: krhino_mutex_lock_def Let_def)
  next
    case 2
    have "kernel_ok (upd_mutex m (\<lambda>x. x\<lparr>owner_nested := owner_nested x + 1\<rparr>) s)" if "owner_nested (mutexes s m) \<noteq> - 1"
      using that nested_ok [OF b(1), of "owner_nested (mutexes s m) + 1" m]
      by (simp add: upd_mutex_def eq_neg_iff_add_eq_0)
    with 2 show ?thesis using b(1) err_ok [OF b(1)] by (simp add: krhino_mutex_lock_def Let_def)
  next
    case 3
    then show ?thesis
      using b(1) acquire_ok [OF assms 3(1,3)] by (simp add: krhino_mutex_lock_def Let_def upd_defs)
  next
    case 4
    define s1 where "s1 = (if prio (tasks s ?t) < prio (tasks s ?o) then pri_change ?o (prio (tasks s ?t)) s else s)"
    have "kernel_ok (core_sched (pend_to_blk_obj m ?t ticks s1))" if "\<not> 0 < g_sched_lock s"
    proof -
      have "g_sched_lock s = 0" using that word_neq_0_conv by blast
      then show ?thesis unfolding s1_def by (rule inherit_block_ok [OF assms 4(1,3) not_sym [OF 4(2)]])
    qed
    then show ?thesis
      using 4 b(1) by (simp add: krhino_mutex_lock_def Let_def s1_def [symmetric])
  qed
qed

lemma krhino_mutex_unlock_ok:
  assumes "kernel_ok s" "g_intrpt_nested_level s = 0"
  shows "kernel_ok (snd (krhino_mutex_unlock m s))"
proof -
  let ?t = "g_active_task s" and ?o = "mutex_task (mutexes s m)"
  define s0 where "s0 = upd_mutex m (\<lambda>x. x\<lparr>owner_nested := owner_nested x - 1\<rparr>) s"
  have rdy: "ready (tasks s ?t)" using active_ready [OF assms] .
  have s0: "kinv s0" using nested_kinv [OF kernel_okD(1) [OF assms(1)]] by (simp add: s0_def upd_mutex_def)
  show ?thesis
  proof (cases "m = NULL \<or> g_sys_stat s = RHINO_STOPPED \<or> 0 < g_intrpt_nested_level s \<or> \<not> is_mutex (objs s) m
      \<or> ?t \<noteq> ?o \<or> 0 < owner_nested (mutexes s0 m)")
    case True
    have "kernel_ok s0" if "0 < owner_nested (mutexes s0 m)"
    proof -
      have "owner_nested (mutexes s m) - 1 \<noteq> 0" using that by (auto simp: s0_def upd_mutex_def)
      from nested_ok [OF assms(1) this, of m] show ?thesis by (simp add: s0_def upd_mutex_def)
    qed
    with True show ?thesis
      using assms(1) by (auto simp: krhino_mutex_unlock_def Let_def s0_def [symmetric])
  next
    case False
    define s2 where "s2 = mutex_release ?o m s0"
    have "release_spec ?o m s0 s2"
      unfolding s2_def using False rdy by (intro release_ready [OF s0]) (simp_all add: s0_def upd_mutex_def)
    note rel = this [unfolded release_spec_def]
    have s2: "kinvx {m} (untyped m s2)" "is_mutex (objs s2) m" "objs s2 = objs s" "g_active_task s2 = ?t"
      "g_sched_lock s2 = g_sched_lock s" "g_intrpt_nested_level s2 = g_intrpt_nested_level s"
      "g_sys_stat s2 = g_sys_stat s" "g_idle_task_spawned s2 = g_idle_task_spawned s"
      "\<And>u. ready (tasks s2 u) = ready (tasks s u)" "blk_list (objs s m) = [] \<Longrightarrow> g_ready_queue s2 = g_ready_queue s"
      using rel by (auto simp: s0_def upd_mutex_def ready_def)
    have same: "obj_inv s2 i = obj_inv s i" if "i \<noteq> m" for i
      using rel that by (intro obj_inv_same) (simp_all add: s0_def upd_mutex_def)
    have k: "kinv (snd (krhino_mutex_unlock m s))" using krhino_mutex_unlock_kinv [OF kernel_okD(1) [OF assms(1)] rdy] .
    have inv: "obj_inv s2 i" if "i \<noteq> m" for i using same [OF that] kernel_okD(4) [OF assms(1)] by simp
    show ?thesis
    proof (cases "blk_list (objs s2 m)")
      case Nil
      then have eq: "snd (krhino_mutex_unlock m s) = upd_mutex m (\<lambda>x. x\<lparr>mutex_task := NULL\<rparr>) s2"
        using False by (simp add: krhino_mutex_unlock_def Let_def s0_def [symmetric] s2_def [symmetric])
      have "sched_ok (snd (krhino_mutex_unlock m s))"
        using Nil s2 unfolding eq by (intro sched_ok_same [OF kernel_okD(2) [OF assms(1)]]) (simp_all add: upd_mutex_def)
      moreover have "obj_inv (snd (krhino_mutex_unlock m s)) i" for i
        using inv [of i] s2(2) obj_inv_same [of "snd (krhino_mutex_unlock m s)" i s2] unfolding eq
        by (cases "i = m") (simp_all add: upd_mutex_def obj_inv_def [of _ m])
      ultimately show ?thesis using k by (simp add: kernel_ok_def objs_ok_def)
    next
      case (Cons w ws)
      define s3 where "s3 = pend_task_wakeup w s2"
      define s4 where "s4 = s3\<lparr>tasks := (tasks s3)(w := (tasks s3 w)\<lparr>mutex_list := m\<rparr>),
        mutexes := (mutexes s3)(m := (mutexes s3 m)\<lparr>mutex_task := w, mutex_next := mutex_list (tasks s3 w), owner_nested := 1\<rparr>)\<rparr>"
      have pol: "m \<noteq> NULL" "blk_policy (objs s2 m) = BLK_POLICY_PRI"
        using kinv_mutex_policy [OF kernel_okD(1) [OF assms(1)]] False s2(3) by auto
      have base: "base_ok s2" using kinvD(1) [OF s2(1)] by simp
      have pw: "pended (tasks s2 w)" using blk_okD(2) [OF base_okD(2) [OF base], of w m] Cons by auto
      have s3: "s3 = wake w BLK_FINISH s2" using pend_task_wakeup_wake(1) [OF base pw] by (simp add: s3_def)
      note fr = wake_frames [OF base pw, of BLK_FINISH, folded s3]
      have eq: "snd (krhino_mutex_unlock m s) = core_sched s4"
        using False Cons
        by (simp add: krhino_mutex_unlock_def Let_def s0_def [symmetric] s2_def [symmetric] s3_def [symmetric])
          (simp add: s4_def upd_mutex_def upd_task_def)
      have "kinv s4" using hand_over_kinv [OF s2(1,2) pol Cons] by (simp add: s4_def s3_def)
      moreover have "run_frame s s4"
        using fr(2) s2(4-9) by (auto simp: run_frame_def s4_def ready_def)
      moreover have "obj_inv s4 i" for i
      proof (cases "i = m")
        case True
        then show ?thesis using obj_frameD(7) [OF fr(1), of m] s2(2) by (auto simp: obj_inv_def s4_def)
      next
        case ne: False
        have "obj_inv s4 i = obj_inv s3 i" using ne by (intro obj_inv_same) (auto simp: s4_def)
        then show ?thesis using obj_frame_inv [OF fr(1) inv [OF ne]] by simp
      qed
      ultimately show ?thesis unfolding eq by (intro resched_ok [OF assms(1)]) (simp_all add: objs_ok_def)
    qed
  qed
qed

end
