(* ===== verification/Rhino_Queue.thy ===== *)
theory Rhino_Queue
  imports Rhino_Mutex_Calls
begin

text \<open>
  Message queues: \<^verbatim>\<open>kernel/rhino/core/k_queue.c\<close>.

  A message is a pointer; the queue keeps the messages in a ring buffer of blocks of the size of
  a pointer.  A message sent while tasks wait is given to the first of them, or to all, and does
  not enter the buffer.
\<close>

section \<open>Operations\<close>

text \<open>The bytes of a pointer in memory.\<close>

definition ptr_bytes :: "ptr \<Rightarrow> byte list" where
  "ptr_bytes p = size_bytes (unat p)"

definition bytes_ptr :: "byte list \<Rightarrow> ptr" where
  "bytes_ptr bs = of_nat (bytes_size bs)"

definition SIZEOF_PTR :: nat where
  "SIZEOF_PTR = 4"

definition task_msg_recv :: "ptr \<Rightarrow> tid \<Rightarrow> kernel \<Rightarrow> kernel" where
  "task_msg_recv msg task s = pend_task_wakeup task (upd_task task (\<lambda>k. k\<lparr>task_msg := msg\<rparr>) s)"

text \<open>\<open>mem\<close> is the memory at \<open>start\<close>, of which the queue uses \<^verbatim>\<open>msg_num * sizeof(void *)\<close> bytes.\<close>

definition queue_create :: "oid \<Rightarrow> ptr \<Rightarrow> ptr \<Rightarrow> byte list \<Rightarrow> nat \<Rightarrow> u8 \<Rightarrow> kernel \<Rightarrow> kstat \<times> kernel" where
  "queue_create queue name start mem msg_num alloc s =
     (if queue = NULL then (RHINO_NULL_PTR, s)
      else if start = NULL then (RHINO_NULL_PTR, s)
      else if name = NULL then (RHINO_NULL_PTR, s)
      else if msg_num = 0 then (RHINO_INV_PARAM, s)
      else let s = upd_obj queue (\<lambda>b. b\<lparr>blk_list := [], obj_name := name, blk_policy := BLK_POLICY_PRI\<rparr>) s;
               rb = ringbuf_init (take (msg_num * SIZEOF_PTR mod 2 ^ 32) mem) RINGBUF_TYPE_FIX SIZEOF_PTR;
               s = upd_queue queue (\<lambda>q. q\<lparr>queue_start := start, q_ringbuf := rb, q_size := msg_num, q_cur_num := 0,
                     q_peak_num := 0, queue_alloc_flag := alloc\<rparr>) s;
               s = s\<lparr>g_kobj_list := (g_kobj_list s)\<lparr>queue_head := queue_head (g_kobj_list s) @ [queue]\<rparr>\<rparr>;
               s = upd_obj queue (\<lambda>b. b\<lparr>obj_type := RHINO_QUEUE_OBJ_TYPE\<rparr>) s
           in (RHINO_SUCCESS, s))"

definition krhino_queue_create :: "oid \<Rightarrow> ptr \<Rightarrow> ptr \<Rightarrow> byte list \<Rightarrow> nat \<Rightarrow> kernel \<Rightarrow> kstat \<times> kernel" where
  "krhino_queue_create queue name start mem msg_num s = queue_create queue name start mem msg_num K_OBJ_STATIC_ALLOC s"

definition queue_del :: "oid \<Rightarrow> kernel \<Rightarrow> kernel" where
  "queue_del queue s =
     (let s = upd_obj queue (\<lambda>b. b\<lparr>obj_type := RHINO_OBJ_TYPE_NONE\<rparr>) s;
          s = wake_all pend_task_rm queue s;
          s = s\<lparr>g_kobj_list := (g_kobj_list s)\<lparr>queue_head := remove1 queue (queue_head (g_kobj_list s))\<rparr>\<rparr>;
          s = upd_queue queue (\<lambda>q. q\<lparr>q_ringbuf := ringbuf_reset (q_ringbuf q)\<rparr>) s
      in core_sched s)"

definition krhino_queue_del :: "oid \<Rightarrow> kernel \<Rightarrow> kstat \<times> kernel" where
  "krhino_queue_del queue s =
     (if queue = NULL then (RHINO_NULL_PTR, s)
      else if g_intrpt_nested_level s > 0 then (RHINO_NOT_CALLED_BY_INTRPT, s)
      else if obj_type (objs s queue) \<noteq> RHINO_QUEUE_OBJ_TYPE then (RHINO_KOBJ_TYPE_ERR, s)
      else if queue_alloc_flag (queues s queue) \<noteq> K_OBJ_STATIC_ALLOC then (RHINO_KOBJ_DEL_ERR, s)
      else (RHINO_SUCCESS, queue_del queue s))"

text \<open>\<open>queue_obj\<close> and \<open>msg_start\<close> are the addresses the two calls of \<^verbatim>\<open>krhino_mm_alloc\<close> returned.\<close>

definition krhino_queue_dyn_create ::
    "ptr \<Rightarrow> ptr \<Rightarrow> nat \<Rightarrow> oid \<Rightarrow> ptr \<Rightarrow> byte list \<Rightarrow> kernel \<Rightarrow> kstat \<times> oid option \<times> kernel" where
  "krhino_queue_dyn_create queue name msg_num queue_obj msg_start mem s =
     (if queue = NULL then (RHINO_NULL_PTR, None, s)
      else if queue_obj = NULL then (RHINO_NO_MEM, None, s)
      else if msg_start = NULL then (RHINO_NO_MEM, None, s)
      else let (stat, s) = queue_create queue_obj name msg_start mem msg_num K_OBJ_DYN_ALLOC s
           in if stat \<noteq> RHINO_SUCCESS then (stat, None, s) else (stat, Some queue_obj, s))"

definition krhino_queue_dyn_del :: "oid \<Rightarrow> kernel \<Rightarrow> kstat \<times> kernel" where
  "krhino_queue_dyn_del queue s =
     (if queue = NULL then (RHINO_NULL_PTR, s)
      else if g_intrpt_nested_level s > 0 then (RHINO_NOT_CALLED_BY_INTRPT, s)
      else if obj_type (objs s queue) \<noteq> RHINO_QUEUE_OBJ_TYPE then (RHINO_KOBJ_TYPE_ERR, s)
      else if queue_alloc_flag (queues s queue) \<noteq> K_OBJ_DYN_ALLOC then (RHINO_KOBJ_DEL_ERR, s)
      else (RHINO_SUCCESS, queue_del queue s))"

definition msg_send :: "oid \<Rightarrow> ptr \<Rightarrow> bool \<Rightarrow> kernel \<Rightarrow> kstat \<times> kernel" where
  "msg_send p_q p_void opt_wake_all s =
     (if p_q = NULL then (RHINO_NULL_PTR, s)
      else if obj_type (objs s p_q) \<noteq> RHINO_QUEUE_OBJ_TYPE then (RHINO_KOBJ_TYPE_ERR, s)
      else if q_cur_num (queues s p_q) \<ge> q_size (queues s p_q) then (RHINO_QUEUE_FULL, s)
      else case blk_list (objs s p_q) of
        [] \<Rightarrow>
          let s = upd_queue p_q (\<lambda>q. q\<lparr>q_cur_num := q_cur_num q + 1\<rparr>) s;
              s = upd_queue p_q (\<lambda>q. if q_cur_num q > q_peak_num q then q\<lparr>q_peak_num := q_cur_num q\<rparr> else q) s
          in (case ringbuf_push (q_ringbuf (queues s p_q)) (ptr_bytes p_void) SIZEOF_PTR of
                None \<Rightarrow> (RHINO_SUCCESS, fault s)
              | Some (_, rb) \<Rightarrow> (RHINO_SUCCESS, upd_queue p_q (\<lambda>q. q\<lparr>q_ringbuf := rb\<rparr>) s))
      | task # _ \<Rightarrow>
          let s = (if opt_wake_all then wake_all (task_msg_recv p_void) p_q s else task_msg_recv p_void task s)
          in (RHINO_SUCCESS, core_sched s))"

definition krhino_queue_back_send :: "oid \<Rightarrow> ptr \<Rightarrow> kernel \<Rightarrow> kstat \<times> kernel" where
  "krhino_queue_back_send queue msg s = msg_send queue msg False s"

definition krhino_queue_all_send :: "oid \<Rightarrow> ptr \<Rightarrow> kernel \<Rightarrow> kstat \<times> kernel" where
  "krhino_queue_all_send queue msg s = msg_send queue msg True s"

text \<open>\<open>put_word\<close> is the assignment \<^verbatim>\<open>*msg = v\<close> to a word of the caller.\<close>

definition put_word :: "ptr \<Rightarrow> u32 \<Rightarrow> kernel \<Rightarrow> kernel" where
  "put_word p v s = s\<lparr>user_words := (user_words s)(p := v)\<rparr>"

definition krhino_queue_recv :: "oid \<Rightarrow> tick_t \<Rightarrow> ptr \<Rightarrow> kernel \<Rightarrow> outcome \<times> kernel" where
  "krhino_queue_recv queue ticks msg s =
     (if queue = NULL then (Ret RHINO_NULL_PTR, s)
      else if msg = NULL then (Ret RHINO_NULL_PTR, s)
      else if g_intrpt_nested_level s > 0 \<and> ticks \<noteq> RHINO_NO_WAIT then (Ret RHINO_NOT_CALLED_BY_INTRPT, s)
      else if obj_type (objs s queue) \<noteq> RHINO_QUEUE_OBJ_TYPE then (Ret RHINO_KOBJ_TYPE_ERR, s)
      else if q_cur_num (queues s queue) > 0 then
        (case ringbuf_pop (q_ringbuf (queues s queue)) False of
           None \<Rightarrow> (Ret RHINO_SUCCESS, fault s)
         | Some (st, bs, _, rb) \<Rightarrow>
             let s = (if st = RHINO_SUCCESS then put_word msg (bytes_ptr bs) s else s);
                 s = upd_queue queue (\<lambda>q. q\<lparr>q_ringbuf := rb, q_cur_num := q_cur_num q - 1\<rparr>) s
             in (Ret RHINO_SUCCESS, s))
      else if ticks = RHINO_NO_WAIT then (Ret RHINO_NO_PEND_WAIT, put_word msg NULL s)
      else if g_sched_lock s > 0 then (Ret RHINO_SCHED_DISABLE, put_word msg NULL s)
      else (Pending, core_sched (pend_to_blk_obj queue (g_active_task s) ticks s)))"

text \<open>The rest of \<^verbatim>\<open>krhino_queue_recv\<close>, run by the task when it is scheduled again.\<close>

definition krhino_queue_recv_end :: "ptr \<Rightarrow> kernel \<Rightarrow> kstat \<times> kernel" where
  "krhino_queue_recv_end msg s =
     (let t = g_active_task s;
          (ret, s) = pend_state_end_proc t s
      in (ret, put_word msg (if ret = RHINO_SUCCESS then task_msg (tasks s t) else NULL) s))"

definition krhino_queue_is_full :: "oid \<Rightarrow> kernel \<Rightarrow> kstat" where
  "krhino_queue_is_full queue s =
     (if queue = NULL then RHINO_NULL_PTR
      else if obj_type (objs s queue) \<noteq> RHINO_QUEUE_OBJ_TYPE then RHINO_KOBJ_TYPE_ERR
      else if q_cur_num (queues s queue) \<ge> q_size (queues s queue) then RHINO_QUEUE_FULL
      else RHINO_QUEUE_NOT_FULL)"

definition krhino_queue_flush :: "oid \<Rightarrow> kernel \<Rightarrow> kstat \<times> kernel" where
  "krhino_queue_flush queue s =
     (if queue = NULL then (RHINO_NULL_PTR, s)
      else if g_intrpt_nested_level s > 0 then (RHINO_NOT_CALLED_BY_INTRPT, s)
      else if obj_type (objs s queue) \<noteq> RHINO_QUEUE_OBJ_TYPE then (RHINO_KOBJ_TYPE_ERR, s)
      else (RHINO_SUCCESS, upd_queue queue (\<lambda>q. q\<lparr>q_cur_num := 0, q_ringbuf := ringbuf_reset (q_ringbuf q)\<rparr>) s))"

text \<open>\<open>pend_entry\<close> is the first waiting task, \<open>None\<close> for the list head itself.\<close>

record msg_info =
  info_queue_start :: ptr
  info_size :: nat
  info_cur_num :: nat
  info_peak_num :: nat
  pend_entry :: "tid option"

definition krhino_queue_info_get :: "oid \<Rightarrow> ptr \<Rightarrow> kernel \<Rightarrow> kstat \<times> msg_info option" where
  "krhino_queue_info_get queue info s =
     (if queue = NULL then (RHINO_NULL_PTR, None)
      else if info = NULL then (RHINO_NULL_PTR, None)
      else if obj_type (objs s queue) \<noteq> RHINO_QUEUE_OBJ_TYPE then (RHINO_KOBJ_TYPE_ERR, None)
      else let q = queues s queue
           in (RHINO_SUCCESS, Some \<lparr>info_queue_start = queue_start q, info_size = q_size q, info_cur_num = q_cur_num q,
                info_peak_num = q_peak_num q,
                pend_entry = (case blk_list (objs s queue) of [] \<Rightarrow> None | t # _ \<Rightarrow> Some t)\<rparr>))"

section \<open>The ring of a queue\<close>

lemma ptr_bytes [simp]: "length (ptr_bytes p) = SIZEOF_PTR" "bytes_ptr (ptr_bytes p) = p"
  using unsigned_less [of p, where 'a = nat] by (simp_all add: ptr_bytes_def bytes_ptr_def SIZEOF_PTR_def RING_BUF_LEN_def bytes_size_size_bytes)

lemma ring_count:
  assumes "q_holds q ms"
  shows "rb_freesize (q_ringbuf q) = 4 * (q_size q - length ms)" "length ms \<le> q_size q" "4 * q_size q < 2 ^ 32" "0 < q_size q"
proof -
  have h: "rb_holds (q_ringbuf q) ms" "rb_type (q_ringbuf q) = RINGBUF_TYPE_FIX" "rb_blk_size (q_ringbuf q) = 4"
    "rb_end (q_ringbuf q) = 4 * q_size q" "length ms \<le> q_size q"
    using assms by (auto simp: q_holds_def)
  have "\<forall>m \<in> set ms. length (rb_encode (q_ringbuf q) m) = 4"
    using h by (simp add: rb_holds_def rb_encode_def rb_msg_ok_def)
  then have "(\<Sum>m\<leftarrow>ms. length (rb_encode (q_ringbuf q) m)) = 4 * length ms" by (induction ms) auto
  then have "4 * q_size q - rb_freesize (q_ringbuf q) = 4 * length ms" using rb_holds_used [OF h(1)] h(4) by simp
  moreover have "rb_freesize (q_ringbuf q) \<le> 4 * q_size q" "4 * q_size q < 2 ^ 32" "0 < q_size q"
    using h(1,4) by (simp_all add: rb_holds_def rb_wf_def)
  ultimately show "rb_freesize (q_ringbuf q) = 4 * (q_size q - length ms)" "length ms \<le> q_size q" "4 * q_size q < 2 ^ 32"
    "0 < q_size q" using h(5) by auto
qed

lemma q_push:
  assumes "q_holds q ms" "q_cur_num q < q_size q"
  obtains rb where "ringbuf_push (q_ringbuf q) (ptr_bytes p) SIZEOF_PTR = Some (RHINO_SUCCESS, rb)"
    and "\<And>pk. q_cur_num q + 1 \<le> pk \<Longrightarrow> pk \<le> q_size q \<Longrightarrow>
      q_holds (q\<lparr>q_cur_num := q_cur_num q + 1, q_peak_num := pk, q_ringbuf := rb\<rparr>) (ms @ [ptr_bytes p])"
proof -
  note c = ring_count [OF assms(1)]
  have q: "rb_holds (q_ringbuf q) ms" "rb_type (q_ringbuf q) = RINGBUF_TYPE_FIX" "rb_blk_size (q_ringbuf q) = 4"
    "rb_end (q_ringbuf q) = 4 * q_size q" "q_cur_num q = length ms"
    using assms(1) by (simp_all add: q_holds_def)
  have "rb_msg_ok (q_ringbuf q) (ptr_bytes p)" using q by (simp add: rb_msg_ok_def SIZEOF_PTR_def)
  moreover have "length (rb_encode (q_ringbuf q) (ptr_bytes p)) \<le> rb_freesize (q_ringbuf q)"
    using q c(1) assms(2) by (simp add: rb_encode_def SIZEOF_PTR_def)
  ultimately
  obtain rb where "ringbuf_push (q_ringbuf q) (ptr_bytes p) SIZEOF_PTR = Some (RHINO_SUCCESS, rb)" "rb_holds rb (ms @ [ptr_bytes p])"
    "rb_type rb = RINGBUF_TYPE_FIX" "rb_blk_size rb = 4" "rb_end rb = 4 * q_size q"
    using rb_holds_push [OF q(1)] q(2-4) by (metis ptr_bytes(1))
  then show thesis using that [of rb] q by (simp add: q_holds_def)
qed

lemma q_pop:
  assumes "q_holds q (m # ms)"
  obtains rb where "ringbuf_pop (q_ringbuf q) False = Some (RHINO_SUCCESS, m, 4, rb)"
    and "q_holds (q\<lparr>q_ringbuf := rb, q_cur_num := q_cur_num q - 1\<rparr>) ms"
proof -
  have q: "rb_holds (q_ringbuf q) (m # ms)" "rb_type (q_ringbuf q) = RINGBUF_TYPE_FIX" "rb_blk_size (q_ringbuf q) = 4"
    "rb_end (q_ringbuf q) = 4 * q_size q" "q_cur_num q = length (m # ms)"
    using assms(1) by (simp_all add: q_holds_def)
  have "ringbuf_pop (q_ringbuf q) False = ringbuf_pop (q_ringbuf q) True" using q(2) by (simp add: ringbuf_pop_def)
  moreover have "length m = 4" using q(1-3) by (simp add: rb_holds_def rb_msg_ok_def)
  moreover obtain rb where "ringbuf_pop (q_ringbuf q) True = Some (RHINO_SUCCESS, m, length m, rb)" "rb_holds rb ms"
    "rb_type rb = rb_type (q_ringbuf q)" "rb_blk_size rb = rb_blk_size (q_ringbuf q)" "rb_end rb = rb_end (q_ringbuf q)"
    using rb_holds_pop [OF q(1)] by blast
  ultimately show thesis using that [of rb] q assms by (simp add: q_holds_def)
qed

lemma q_reset:
  assumes "q_holds q ms"
  shows "q_holds (q\<lparr>q_cur_num := 0, q_ringbuf := ringbuf_reset (q_ringbuf q)\<rparr>) []"
  using assms ring_count(4) [OF assms] by (auto simp: q_holds_def rb_holds_def rb_wf_def ringbuf_reset_def rb_content_def)

section \<open>The invariant\<close>

lemma queue_obj_inv:
  "obj_type (objs s i) = RHINO_QUEUE_OBJ_TYPE \<Longrightarrow>
     obj_inv s i \<longleftrightarrow> (\<exists>ms. q_holds (queues s i) ms \<and> (blk_list (objs s i) \<noteq> [] \<longrightarrow> ms = []))"
  by (simp add: obj_inv_def)

lemma queue_create_ok:
  assumes "kernel_ok s" "obj_type (objs s queue) = RHINO_OBJ_TYPE_NONE"
    and "length mem = msg_num * SIZEOF_PTR" "length mem < 2 ^ 32"
  shows "kernel_ok (snd (queue_create queue name start mem msg_num alloc s))"
proof (cases "queue = NULL \<or> start = NULL \<or> name = NULL \<or> msg_num = 0")
  case True
  then show ?thesis using assms(1) by (auto simp: queue_create_def)
next
  case False
  define rb where "rb = ringbuf_init mem RINGBUF_TYPE_FIX SIZEOF_PTR"
  have mem: "take (msg_num * SIZEOF_PTR mod 4294967296) mem = mem" using assms(3,4) by simp
  have "rb_holds rb []"
    unfolding rb_def using assms(3,4) False by (intro rb_holds_init) (auto simp: SIZEOF_PTR_def)
  moreover have "rb_type rb = RINGBUF_TYPE_FIX \<and> rb_blk_size rb = 4 \<and> rb_end rb = 4 * msg_num"
    unfolding rb_def using assms(3) by (simp add: ringbuf_init_def ringbuf_reset_def SIZEOF_PTR_def)
  ultimately have "q_holds (q\<lparr>queue_start := start, q_ringbuf := rb, q_size := msg_num, q_cur_num := 0,
      q_peak_num := 0, queue_alloc_flag := alloc\<rparr>) []" for q by (simp add: q_holds_def)
  then show ?thesis
    using False by (intro create_ok [OF assms(1,2), of "(objs s queue)\<lparr>blk_list := [], obj_name := name,
        blk_policy := BLK_POLICY_PRI, obj_type := RHINO_QUEUE_OBJ_TYPE\<rparr>"])
      (auto simp: queue_create_def upd_defs obj_inv_def mem rb_def [symmetric])
qed

lemma queue_del_ok:
  assumes "kernel_ok s" "obj_type (objs s queue) = RHINO_QUEUE_OBJ_TYPE"
  shows "kernel_ok (queue_del queue s)"
  unfolding queue_del_def Let_def
  by (rule del_resched_ok [OF assms(1), where f = "\<lambda>s. upd_queue queue (\<lambda>q. q\<lparr>q_ringbuf := ringbuf_reset (q_ringbuf q)\<rparr>)
      (s\<lparr>g_kobj_list := (g_kobj_list s)\<lparr>queue_head := remove1 queue (queue_head (g_kobj_list s))\<rparr>\<rparr>)"])
    (simp_all add: assms(2) run_frame_def upd_queue_def, rule obj_inv_same, simp_all)

lemma queue_change_ok:
  assumes "kernel_ok s" "obj_type (objs s i) = RHINO_QUEUE_OBJ_TYPE" "q_holds q ms" "blk_list (objs s i) \<noteq> [] \<longrightarrow> ms = []"
  shows "kernel_ok (s\<lparr>queues := (queues s)(i := q)\<rparr>)"
  using assms kernel_okD(1) [OF assms(1)]
  by (intro change_ok [OF assms(1), where i = i]) (auto simp: queue_obj_inv)

lemma task_msg_recv_wake:
  assumes "base_ok s" "pended (tasks s t)"
  shows "task_msg_recv msg t s = wake t BLK_FINISH (upd_task t (\<lambda>k. k\<lparr>task_msg := msg\<rparr>) s)"
proof -
  have n: "neutral (\<lambda>k. k\<lparr>task_msg := msg\<rparr>)" by (simp add: neutral_def)
  show ?thesis
    unfolding task_msg_recv_def using assms base_ok_neutral [OF assms(1) n]
    by (intro pend_task_wakeup_wake(1)) (auto simp: upd_task_def pended_def)
qed

lemma msg_send_ok:
  assumes "kernel_ok s"
  shows "kernel_ok (snd (msg_send queue msg all s))"
proof (cases "obj_type (objs s queue) = RHINO_QUEUE_OBJ_TYPE \<and> q_cur_num (queues s queue) < q_size (queues s queue)")
  case False
  then show ?thesis using assms by (auto simp: msg_send_def)
next
  case T: True
  then have nm: "\<not> is_mutex (objs s) queue" by simp
  have n: "neutral (\<lambda>k. k\<lparr>task_msg := msg\<rparr>)" by (simp add: neutral_def)
  show ?thesis
  proof (cases "blk_list (objs s queue)")
    case Nil
    let ?q = "queues s queue"
    obtain ms where h: "q_holds ?q ms" using kernel_okD(4) [OF assms] queue_obj_inv T by blast
    then obtain rb where push: "ringbuf_push (q_ringbuf ?q) (ptr_bytes msg) SIZEOF_PTR = Some (RHINO_SUCCESS, rb)"
      and rb: "\<And>pk. q_cur_num ?q + 1 \<le> pk \<Longrightarrow> pk \<le> q_size ?q \<Longrightarrow>
        q_holds (?q\<lparr>q_cur_num := q_cur_num ?q + 1, q_peak_num := pk, q_ringbuf := rb\<rparr>) (ms @ [ptr_bytes msg])"
      using q_push T by blast
    define pk where "pk = max (q_peak_num ?q) (q_cur_num ?q + 1)"
    have "kernel_ok (s\<lparr>queues := (queues s)(queue := ?q\<lparr>q_cur_num := q_cur_num ?q + 1, q_peak_num := pk, q_ringbuf := rb\<rparr>)\<rparr>)"
      using T Nil h by (intro queue_change_ok [OF assms _ rb]) (auto simp: pk_def q_holds_def)
    then show ?thesis
      using T Nil push assms
      by (cases "q_cur_num ?q + 1 > q_peak_num ?q") (simp_all add: msg_send_def Let_def upd_queue_def pk_def max_def)
  next
    case (Cons t ts)
    have "kernel_ok (core_sched (task_msg_recv msg t s))"
      unfolding task_msg_recv_def using Cons nm
      by (intro wake_one_ok [where i = queue] neutral_ok [OF assms n]) (simp_all add: upd_task_def)
    moreover have "kernel_ok (core_sched (wake_all (task_msg_recv msg) queue s))"
      using wake_every_ok [OF task_msg_recv_wake n assms nm] .
    ultimately show ?thesis using T Cons assms by (simp add: msg_send_def Let_def)
  qed
qed

lemma put_word_ok [simp]: "kernel_ok (put_word p v s) = kernel_ok s"
  by (simp add: put_word_def)

lemma queue_pop_ok:
  assumes "kernel_ok s" "obj_type (objs s queue) = RHINO_QUEUE_OBJ_TYPE" "q_cur_num (queues s queue) > 0"
    and "ringbuf_pop (q_ringbuf (queues s queue)) False = r"
  shows "case r of None \<Rightarrow> False | Some (st, bs, n, rb) \<Rightarrow> st = RHINO_SUCCESS
    \<and> kernel_ok (upd_queue queue (\<lambda>q. q\<lparr>q_ringbuf := rb, q_cur_num := q_cur_num q - 1\<rparr>) (put_word p v s))"
proof -
  obtain ms where h: "q_holds (queues s queue) ms" "blk_list (objs s queue) \<noteq> [] \<longrightarrow> ms = []"
    using kernel_okD(4) [OF assms(1)] queue_obj_inv [OF assms(2)] by blast
  then obtain m ns where ms: "ms = m # ns" using assms(3) by (cases ms) (auto simp: q_holds_def)
  obtain rb where rb: "ringbuf_pop (q_ringbuf (queues s queue)) False = Some (RHINO_SUCCESS, m, 4, rb)"
    "q_holds ((queues s queue)\<lparr>q_ringbuf := rb, q_cur_num := q_cur_num (queues s queue) - 1\<rparr>) ns"
    using q_pop h(1) unfolding ms by blast
  have "kernel_ok (upd_queue queue (\<lambda>q. q\<lparr>q_ringbuf := rb, q_cur_num := q_cur_num q - 1\<rparr>) (put_word p v s))"
    unfolding upd_queue_def using assms(1,2) h(2) rb(2) ms
    by (intro queue_change_ok [where ms = ns]) (auto simp: put_word_def)
  then show ?thesis using rb(1) assms(4) by auto
qed

lemma krhino_queue_recv_ok:
  assumes "kernel_ok s" "g_intrpt_nested_level s = 0 \<Longrightarrow> ticks \<noteq> RHINO_NO_WAIT \<Longrightarrow> may_block s"
  shows "kernel_ok (snd (krhino_queue_recv queue ticks msg s))"
proof (cases "obj_type (objs s queue) = RHINO_QUEUE_OBJ_TYPE")
  case False
  then show ?thesis using assms(1) by (simp add: krhino_queue_recv_def)
next
  case True
  let ?q = "queues s queue"
  show ?thesis
  proof (cases "q_cur_num ?q > 0")
    case pos: True
    then show ?thesis
      using True assms(1) queue_pop_ok [OF assms(1) True pos refl]
      by (auto simp: krhino_queue_recv_def Let_def split: option.splits)
  next
    case False
    have "kernel_ok (core_sched (pend_to_blk_obj queue (g_active_task s) ticks s))"
      if "\<not> (0 < g_intrpt_nested_level s \<and> ticks \<noteq> RHINO_NO_WAIT)" "ticks \<noteq> RHINO_NO_WAIT" "\<not> 0 < g_sched_lock s"
    proof -
      have z: "g_intrpt_nested_level s = 0" "g_sched_lock s = 0" using that by (auto simp: word_gt_0)
      note b = may_blockD [OF assms(2) [OF z(1) that(2)]]
      have s: "upd_task (g_active_task s) (\<lambda>k. k) s = s" by (simp add: upd_task_def)
      note bf = block_frame [OF kinvD(1) [OF b(2)] b(3) kinv_other [OF b(2,4)], where i = queue and timeout = ticks]
      have "\<exists>ms. q_holds ?q ms \<and> ms = []"
        using kernel_okD(4) [OF assms(1), of queue] False queue_obj_inv [OF True] by (auto simp: q_holds_def)
      then have "obj_inv (pend_to_blk_obj queue (g_active_task s) ticks s) queue"
        using True by (auto simp: queue_obj_inv bf)
      then show ?thesis
        using block_ok [OF b(1) z b(4), of queue "\<lambda>k. k" ticks] True by (simp add: s)
    qed
    then show ?thesis using True False assms(1) by (simp add: krhino_queue_recv_def)
  qed
qed

lemma krhino_queue_recv_end_ok: "kernel_ok s \<Longrightarrow> kernel_ok (snd (krhino_queue_recv_end msg s))"
  by (cases "blk_state (tasks s (g_active_task s))") (simp_all add: krhino_queue_recv_end_def pend_state_end_proc_def err_ok)

lemma krhino_queue_flush_ok:
  assumes "kernel_ok s"
  shows "kernel_ok (snd (krhino_queue_flush queue s))"
proof (cases "obj_type (objs s queue) = RHINO_QUEUE_OBJ_TYPE")
  case True
  then obtain ms where "q_holds (queues s queue) ms" using kernel_okD(4) [OF assms] queue_obj_inv by blast
  from queue_change_ok [OF assms True q_reset [OF this]] show ?thesis
    using assms by (simp add: krhino_queue_flush_def upd_queue_def)
qed (simp add: krhino_queue_flush_def assms)

end
