(* ===== verification/Rhino_BufQueue.thy ===== *)
theory Rhino_BufQueue
  imports Rhino_Queue
begin

text \<open>
  Buffer queues: \<^verbatim>\<open>kernel/rhino/core/k_buf_queue.c\<close>.  They carry messages by value, of any length up
  to a maximum or of one fixed length.

  \<open>data\<close> is the memory the caller's pointer \<^verbatim>\<open>msg\<close> points to.  A copy that reads more than that is
  a fault; a queue of fixed blocks does so when the caller passes less than a block.
\<close>

section \<open>Operations\<close>

definition buf_queue_create ::
    "oid \<Rightarrow> ptr \<Rightarrow> ptr \<Rightarrow> byte list \<Rightarrow> nat \<Rightarrow> nat \<Rightarrow> u8 \<Rightarrow> nat \<Rightarrow> kernel \<Rightarrow> kstat \<times> kernel" where
  "buf_queue_create queue name buf mem sz max_msg alloc type s =
     (if queue = NULL then (RHINO_NULL_PTR, s)
      else if buf = NULL then (RHINO_NULL_PTR, s)
      else if name = NULL then (RHINO_NULL_PTR, s)
      else if max_msg = 0 then (RHINO_INV_PARAM, s)
      else if sz = 0 then (RHINO_BUF_QUEUE_SIZE_ZERO, s)
      else let s = upd_obj queue (\<lambda>b. b\<lparr>blk_list := [], obj_name := name, blk_policy := BLK_POLICY_PRI\<rparr>) s;
               s = upd_buf_queue queue (\<lambda>q. q\<lparr>bq_buf := buf, bq_cur_num := 0, bq_peak_num := 0, max_msg_size := max_msg,
                     bq_alloc_flag := alloc\<rparr>) s;
               s = s\<lparr>g_kobj_list := (g_kobj_list s)\<lparr>buf_queue_head := buf_queue_head (g_kobj_list s) @ [queue]\<rparr>\<rparr>;
               s = upd_obj queue (\<lambda>b. b\<lparr>obj_type := RHINO_BUF_QUEUE_OBJ_TYPE\<rparr>) s;
               s = upd_buf_queue queue (\<lambda>q. q\<lparr>bq_ringbuf := ringbuf_init (take sz mem) type max_msg\<rparr>) s;
               s = upd_buf_queue queue (\<lambda>q. q\<lparr>min_free_buf_size := rb_freesize (bq_ringbuf q)\<rparr>) s
           in (RHINO_SUCCESS, s))"

definition krhino_buf_queue_create ::
    "oid \<Rightarrow> ptr \<Rightarrow> ptr \<Rightarrow> byte list \<Rightarrow> nat \<Rightarrow> nat \<Rightarrow> kernel \<Rightarrow> kstat \<times> kernel" where
  "krhino_buf_queue_create queue name buf mem sz max_msg s =
     buf_queue_create queue name buf mem sz max_msg K_OBJ_STATIC_ALLOC RINGBUF_TYPE_DYN s"

definition krhino_fix_buf_queue_create ::
    "oid \<Rightarrow> ptr \<Rightarrow> ptr \<Rightarrow> byte list \<Rightarrow> nat \<Rightarrow> nat \<Rightarrow> kernel \<Rightarrow> kstat \<times> kernel" where
  "krhino_fix_buf_queue_create queue name buf mem msg_size msg_num s =
     buf_queue_create queue name buf mem (msg_size * msg_num mod 2 ^ 32) msg_size K_OBJ_STATIC_ALLOC RINGBUF_TYPE_FIX s"

definition buf_queue_del :: "oid \<Rightarrow> kernel \<Rightarrow> kernel" where
  "buf_queue_del queue s =
     (let s = upd_obj queue (\<lambda>b. b\<lparr>obj_type := RHINO_OBJ_TYPE_NONE\<rparr>) s;
          s = wake_all pend_task_rm queue s;
          s = s\<lparr>g_kobj_list := (g_kobj_list s)\<lparr>buf_queue_head := remove1 queue (buf_queue_head (g_kobj_list s))\<rparr>\<rparr>;
          s = upd_buf_queue queue (\<lambda>q. q\<lparr>bq_ringbuf := ringbuf_reset (bq_ringbuf q)\<rparr>) s
      in core_sched s)"

definition krhino_buf_queue_del :: "oid \<Rightarrow> kernel \<Rightarrow> kstat \<times> kernel" where
  "krhino_buf_queue_del queue s =
     (if queue = NULL then (RHINO_NULL_PTR, s)
      else if g_intrpt_nested_level s > 0 then (RHINO_NOT_CALLED_BY_INTRPT, s)
      else if obj_type (objs s queue) \<noteq> RHINO_BUF_QUEUE_OBJ_TYPE then (RHINO_KOBJ_TYPE_ERR, s)
      else if bq_alloc_flag (buf_queues s queue) \<noteq> K_OBJ_STATIC_ALLOC then (RHINO_KOBJ_DEL_ERR, s)
      else (RHINO_SUCCESS, buf_queue_del queue s))"

text \<open>\<open>queue_obj\<close> and \<open>buf\<close> are the addresses the two calls of \<^verbatim>\<open>krhino_mm_alloc\<close> returned.\<close>

definition krhino_buf_queue_dyn_create ::
    "ptr \<Rightarrow> ptr \<Rightarrow> nat \<Rightarrow> nat \<Rightarrow> oid \<Rightarrow> ptr \<Rightarrow> byte list \<Rightarrow> kernel \<Rightarrow> kstat \<times> oid option \<times> kernel" where
  "krhino_buf_queue_dyn_create queue name sz max_msg queue_obj buf mem s =
     (if queue = NULL then (RHINO_NULL_PTR, None, s)
      else if sz = 0 then (RHINO_BUF_QUEUE_SIZE_ZERO, None, s)
      else if queue_obj = NULL then (RHINO_NO_MEM, None, s)
      else if buf = NULL then (RHINO_NO_MEM, None, upd_buf_queue queue_obj (\<lambda>q. q\<lparr>bq_buf := buf\<rparr>) s)
      else let s = upd_buf_queue queue_obj (\<lambda>q. q\<lparr>bq_buf := buf\<rparr>) s;
               (stat, s) = buf_queue_create queue_obj name buf mem sz max_msg K_OBJ_DYN_ALLOC RINGBUF_TYPE_DYN s
           in if stat \<noteq> RHINO_SUCCESS then (stat, None, s) else (RHINO_SUCCESS, Some queue_obj, s))"

definition krhino_buf_queue_dyn_del :: "oid \<Rightarrow> kernel \<Rightarrow> kstat \<times> kernel" where
  "krhino_buf_queue_dyn_del queue s =
     (if queue = NULL then (RHINO_NULL_PTR, s)
      else if g_intrpt_nested_level s > 0 then (RHINO_NOT_CALLED_BY_INTRPT, s)
      else if obj_type (objs s queue) \<noteq> RHINO_BUF_QUEUE_OBJ_TYPE then (RHINO_KOBJ_TYPE_ERR, s)
      else if bq_alloc_flag (buf_queues s queue) \<noteq> K_OBJ_DYN_ALLOC then (RHINO_KOBJ_DEL_ERR, s)
      else (RHINO_SUCCESS, buf_queue_del queue s))"

text \<open>\<open>put_buf\<close> copies bytes to a buffer of a caller.\<close>

definition put_buf :: "ptr \<Rightarrow> byte list \<Rightarrow> kernel \<Rightarrow> kernel" where
  "put_buf p bs s = s\<lparr>user_bufs := (user_bufs s)(p := bs @ drop (length bs) (user_bufs s p))\<rparr>"

definition buf_queue_send :: "oid \<Rightarrow> byte list \<Rightarrow> nat \<Rightarrow> kernel \<Rightarrow> kstat \<times> kernel" where
  "buf_queue_send queue data msg_size s =
     (if obj_type (objs s queue) \<noteq> RHINO_BUF_QUEUE_OBJ_TYPE then (RHINO_KOBJ_TYPE_ERR, s)
      else if msg_size > max_msg_size (buf_queues s queue) then (RHINO_BUF_QUEUE_MSG_SIZE_OVERFLOW, s)
      else if msg_size = 0 then (RHINO_INV_PARAM, s)
      else case blk_list (objs s queue) of
        [] \<Rightarrow>
          (case ringbuf_push (bq_ringbuf (buf_queues s queue)) data msg_size of
             None \<Rightarrow> (RHINO_SUCCESS, fault s)
           | Some (err, rb) \<Rightarrow>
               let s = upd_buf_queue queue (\<lambda>q. q\<lparr>bq_ringbuf := rb\<rparr>) s
               in if err \<noteq> RHINO_SUCCESS then (if err = RHINO_RINGBUF_FULL then RHINO_BUF_QUEUE_FULL else err, s)
                  else let s = upd_buf_queue queue (\<lambda>q. q\<lparr>bq_cur_num := (bq_cur_num q + 1) mod 2 ^ 32\<rparr>) s;
                           s = upd_buf_queue queue (\<lambda>q. if bq_peak_num q < bq_cur_num q then q\<lparr>bq_peak_num := bq_cur_num q\<rparr> else q) s;
                           s = upd_buf_queue queue (\<lambda>q. if min_free_buf_size q > rb_freesize (bq_ringbuf q)
                                 then q\<lparr>min_free_buf_size := rb_freesize (bq_ringbuf q)\<rparr> else q) s
                       in (RHINO_SUCCESS, s))
      | task # _ \<Rightarrow>
          if length data < msg_size then (RHINO_SUCCESS, fault s)
          else let s = put_buf (task_msg (tasks s task)) (take msg_size data) s;
                   s = upd_task task (\<lambda>k. k\<lparr>bq_msg_size := msg_size\<rparr>) s;
                   s = pend_task_wakeup task s
               in (RHINO_SUCCESS, core_sched s))"

definition krhino_buf_queue_send :: "oid \<Rightarrow> ptr \<Rightarrow> byte list \<Rightarrow> nat \<Rightarrow> kernel \<Rightarrow> kstat \<times> kernel" where
  "krhino_buf_queue_send queue msg data sz s =
     (if queue = NULL then (RHINO_NULL_PTR, s)
      else if msg = NULL then (RHINO_NULL_PTR, s)
      else buf_queue_send queue data sz s)"

definition krhino_buf_queue_recv :: "oid \<Rightarrow> tick_t \<Rightarrow> ptr \<Rightarrow> ptr \<Rightarrow> kernel \<Rightarrow> outcome \<times> kernel" where
  "krhino_buf_queue_recv queue ticks msg sz s =
     (if queue = NULL then (Ret RHINO_NULL_PTR, s)
      else if msg = NULL then (Ret RHINO_NULL_PTR, s)
      else if sz = NULL then (Ret RHINO_NULL_PTR, s)
      else if g_intrpt_nested_level s > 0 \<and> ticks \<noteq> RHINO_NO_WAIT then (Ret RHINO_NOT_CALLED_BY_INTRPT, s)
      else if obj_type (objs s queue) \<noteq> RHINO_BUF_QUEUE_OBJ_TYPE then (Ret RHINO_KOBJ_TYPE_ERR, s)
      else if \<not> ringbuf_is_empty (bq_ringbuf (buf_queues s queue)) then
        (case ringbuf_pop (bq_ringbuf (buf_queues s queue)) True of
           None \<Rightarrow> (Ret RHINO_SUCCESS, fault s)
         | Some (st, bs, n, rb) \<Rightarrow>
             let s = (if st = RHINO_SUCCESS then put_word sz (of_nat n) (put_buf msg bs s) else s);
                 s = upd_buf_queue queue (\<lambda>q. q\<lparr>bq_ringbuf := rb, bq_cur_num := (bq_cur_num q + (2 ^ 32 - 1)) mod 2 ^ 32\<rparr>) s
             in (Ret RHINO_SUCCESS, s))
      else if ticks = RHINO_NO_WAIT then (Ret RHINO_NO_PEND_WAIT, put_word sz 0 s)
      else if g_sched_lock s > 0 then (Ret RHINO_SCHED_DISABLE, put_word sz 0 s)
      else let s = upd_task (g_active_task s) (\<lambda>k. k\<lparr>task_msg := msg\<rparr>) s;
               s = pend_to_blk_obj queue (g_active_task s) ticks s
           in (Pending, core_sched s))"

text \<open>The rest of \<^verbatim>\<open>krhino_buf_queue_recv\<close>, run by the task when it is scheduled again.\<close>

definition krhino_buf_queue_recv_end :: "ptr \<Rightarrow> kernel \<Rightarrow> kstat \<times> kernel" where
  "krhino_buf_queue_recv_end sz s =
     (let t = g_active_task s;
          (ret, s) = pend_state_end_proc t s
      in (ret, put_word sz (if ret = RHINO_SUCCESS then of_nat (bq_msg_size (tasks s t)) else 0) s))"

definition krhino_buf_queue_flush :: "oid \<Rightarrow> kernel \<Rightarrow> kstat \<times> kernel" where
  "krhino_buf_queue_flush queue s =
     (if queue = NULL then (RHINO_NULL_PTR, s)
      else if g_intrpt_nested_level s > 0 then (RHINO_NOT_CALLED_BY_INTRPT, s)
      else if obj_type (objs s queue) \<noteq> RHINO_BUF_QUEUE_OBJ_TYPE then (RHINO_KOBJ_TYPE_ERR, s)
      else let s = upd_buf_queue queue (\<lambda>q. q\<lparr>bq_ringbuf := ringbuf_reset (bq_ringbuf q), bq_cur_num := 0, bq_peak_num := 0\<rparr>) s;
               s = upd_buf_queue queue (\<lambda>q. q\<lparr>min_free_buf_size := rb_freesize (bq_ringbuf q)\<rparr>) s
           in (RHINO_SUCCESS, s))"

record kbuf_queue_info =
  info_buf_size :: nat
  info_max_msg_size :: nat
  info_bq_cur_num :: nat
  info_bq_peak_num :: nat
  info_free_buf_size :: nat
  info_min_free_buf_size :: nat

definition krhino_buf_queue_info_get :: "oid \<Rightarrow> ptr \<Rightarrow> kernel \<Rightarrow> kstat \<times> kbuf_queue_info option" where
  "krhino_buf_queue_info_get queue info s =
     (if queue = NULL then (RHINO_NULL_PTR, None)
      else if info = NULL then (RHINO_NULL_PTR, None)
      else if obj_type (objs s queue) \<noteq> RHINO_BUF_QUEUE_OBJ_TYPE then (RHINO_KOBJ_TYPE_ERR, None)
      else let q = buf_queues s queue
           in (RHINO_SUCCESS, Some \<lparr>info_buf_size = rb_end (bq_ringbuf q), info_max_msg_size = max_msg_size q,
                info_bq_cur_num = bq_cur_num q, info_bq_peak_num = bq_peak_num q,
                info_free_buf_size = rb_freesize (bq_ringbuf q), info_min_free_buf_size = min_free_buf_size q\<rparr>))"

section \<open>The ring of a buffer queue\<close>

text \<open>Only the bytes of the message are read from the caller.\<close>

definition sent_bytes :: "k_ringbuf \<Rightarrow> nat \<Rightarrow> nat" where
  "sent_bytes rb len = (if rb_type rb = RINGBUF_TYPE_FIX then rb_blk_size rb else len)"

lemma memcpy_to_take: "n \<le> k \<Longrightarrow> k \<le> length src \<Longrightarrow> memcpy_to mem off (take k src) n = memcpy_to mem off src n"
  by (simp add: memcpy_to_def min_absorb1)

lemma put_split_take: "n \<le> length src \<Longrightarrow> put_split N h mem t (take n src) n = put_split N h mem t src n"
  by (auto simp: put_split_def memcpy_to_take drop_take)

lemma ringbuf_push_take:
  assumes "sent_bytes rb len \<le> length data"
  shows "ringbuf_push rb data len = ringbuf_push rb (take (sent_bytes rb len) data) len"
proof (cases "rb_type rb = RINGBUF_TYPE_FIX")
  case True
  then show ?thesis
    using assms by (simp add: ringbuf_push_def ringbuf_push_fix_def sent_bytes_def memcpy_to_take)
next
  case False
  then have "len \<le> length data" using assms by (simp add: sent_bytes_def)
  then show ?thesis
    using False ringbuf_push_dyn_put_split [of len rb data] ringbuf_push_dyn_put_split [of len rb "take len data"]
    by (cases "len = 0 \<or> len \<ge> 2 ^ 32 - 1 \<or> rb_freesize rb < (RING_BUF_LEN + len) mod 2 ^ 32")
      (auto simp: ringbuf_push_def sent_bytes_def put_split_take not_le not_less ringbuf_push_dyn_def [of _ _ len])
qed

lemma bq_count:
  assumes "bq_holds q ms"
  shows "length ms < 2 ^ 32"
proof -
  have h: "rb_holds (bq_ringbuf q) ms" using assms by (simp add: bq_holds_def)
  have "1 \<le> length (rb_encode (bq_ringbuf q) m)" if "m \<in> set ms" for m
    using h that by (auto simp: rb_holds_def rb_encode_def rb_msg_ok_def Suc_le_eq)
  then have "length ms \<le> (\<Sum>m\<leftarrow>ms. length (rb_encode (bq_ringbuf q) m))"
    using sum_list_mono [of ms "\<lambda>_. 1::nat"] by (simp add: sum_list_triv)
  then have "length ms \<le> rb_end (bq_ringbuf q) - rb_freesize (bq_ringbuf q)" using rb_holds_used [OF h] by simp
  moreover have "rb_end (bq_ringbuf q) < 2 ^ 32" using h by (simp add: rb_holds_def rb_wf_def)
  ultimately show ?thesis by linarith
qed

text \<open>What a sender relies on: it owns the bytes it sends, a whole block for a queue of fixed blocks.\<close>

definition may_send :: "kbuf_queue \<Rightarrow> byte list \<Rightarrow> nat \<Rightarrow> bool" where
  "may_send q data len \<longleftrightarrow> len \<le> length data \<and> sent_bytes (bq_ringbuf q) len \<le> length data \<and> len + RING_BUF_LEN < 2 ^ 32"

lemma bq_push:
  assumes "bq_holds q ms" "0 < len" "len \<le> max_msg_size q" "may_send q data len"
  defines "m \<equiv> take (sent_bytes (bq_ringbuf q) len) data"
  obtains (full) "ringbuf_push (bq_ringbuf q) data len = Some (RHINO_RINGBUF_FULL, bq_ringbuf q)"
  | (stored) rb where "ringbuf_push (bq_ringbuf q) data len = Some (RHINO_SUCCESS, rb)" "length ms + 1 < 2 ^ 32"
    and "\<And>pk mf. length ms + 1 \<le> pk \<Longrightarrow> mf \<le> rb_freesize rb \<Longrightarrow>
      bq_holds (q\<lparr>bq_ringbuf := rb, bq_cur_num := length ms + 1, bq_peak_num := pk, min_free_buf_size := mf\<rparr>) (ms @ [m])"
proof -
  let ?rb = "bq_ringbuf q"
  have h: "rb_holds ?rb ms" "rb_type ?rb = RINGBUF_TYPE_FIX \<longrightarrow> rb_blk_size ?rb = max_msg_size q"
    "\<forall>m \<in> set ms. length m \<le> max_msg_size q"
    using assms(1) by (simp_all add: bq_holds_def)
  have "rb_blk_size ?rb < 2 ^ 32" if "rb_type ?rb = RINGBUF_TYPE_FIX"
    using h(1) that dvd_imp_le [of "rb_blk_size ?rb" "rb_end ?rb"] by (auto simp: rb_holds_def rb_wf_def)
  then have m: "rb_msg_ok ?rb m" "length (rb_encode ?rb m) < 2 ^ 32" "length m \<le> max_msg_size q"
    using assms(2-4) h(2) by (auto simp: m_def may_send_def sent_bytes_def rb_msg_ok_def rb_encode_def RING_BUF_LEN_def)
  have push: "ringbuf_push ?rb data len = ringbuf_push ?rb m (length m)"
    using ringbuf_push_take [of ?rb len data] assms(4)
    by (cases "rb_type ?rb = RINGBUF_TYPE_FIX") (auto simp: m_def may_send_def sent_bytes_def ringbuf_push_def)
  show thesis
  proof (cases "length (rb_encode ?rb m) \<le> rb_freesize ?rb")
    case False
    then show thesis using full ringbuf_push_full [OF h(1) m(1) _ m(2)] push by simp
  next
    case True
    then obtain rb where rb: "ringbuf_push ?rb m (length m) = Some (RHINO_SUCCESS, rb)" "rb_holds rb (ms @ [m])"
      "rb_type rb = rb_type ?rb" "rb_blk_size rb = rb_blk_size ?rb"
      using rb_holds_push [OF h(1) m(1)] by blast
    then have H: "bq_holds (q\<lparr>bq_ringbuf := rb, bq_cur_num := length ms + 1, bq_peak_num := pk, min_free_buf_size := mf\<rparr>) (ms @ [m])"
      if "length ms + 1 \<le> pk" "mf \<le> rb_freesize rb" for pk mf
      using that h(2,3) m(3) by (simp add: bq_holds_def)
    show thesis using stored [of rb] push rb(1) H bq_count [OF H, OF le_refl le_refl] by simp
  qed
qed

lemma bq_pop:
  assumes "bq_holds q ms" "\<not> ringbuf_is_empty (bq_ringbuf q)"
  obtains m ns rb where "ms = m # ns" "ringbuf_pop (bq_ringbuf q) True = Some (RHINO_SUCCESS, m, length m, rb)"
    and "bq_holds (q\<lparr>bq_ringbuf := rb, bq_cur_num := (bq_cur_num q + (2 ^ 32 - 1)) mod 2 ^ 32\<rparr>) ns"
proof -
  have h: "rb_holds (bq_ringbuf q) ms" using assms(1) by (simp add: bq_holds_def)
  then obtain m ns where ms: "ms = m # ns" using assms(2) rb_holds_empty by (cases ms) auto
  then obtain rb where rb: "ringbuf_pop (bq_ringbuf q) True = Some (RHINO_SUCCESS, m, length m, rb)" "rb_holds rb ns"
    "rb_type rb = rb_type (bq_ringbuf q)" "rb_blk_size rb = rb_blk_size (bq_ringbuf q)"
    "rb_freesize rb = rb_freesize (bq_ringbuf q) + length (rb_encode (bq_ringbuf q) m)"
    using rb_holds_pop h by blast
  have "(bq_cur_num q + (2 ^ 32 - 1)) mod 2 ^ 32 = length ns"
    using assms(1) bq_count [OF assms(1)] ms by (simp add: bq_holds_def)
  then show thesis using that [OF ms rb(1)] assms(1) rb ms by (auto simp: bq_holds_def)
qed

section \<open>The invariant\<close>

lemma buf_queue_obj_inv:
  "obj_type (objs s i) = RHINO_BUF_QUEUE_OBJ_TYPE \<Longrightarrow>
     obj_inv s i \<longleftrightarrow> (\<exists>ms. bq_holds (buf_queues s i) ms \<and> (blk_list (objs s i) \<noteq> [] \<longrightarrow> ms = []))"
  by (simp add: obj_inv_def)

lemma buf_queue_create_ok:
  assumes "kernel_ok s" "obj_type (objs s queue) = RHINO_OBJ_TYPE_NONE" "length mem = sz" "sz < 2 ^ 32"
    and "type = RINGBUF_TYPE_FIX \<Longrightarrow> max_msg dvd sz"
  shows "kernel_ok (snd (buf_queue_create queue name buf mem sz max_msg alloc type s))"
proof (cases "queue = NULL \<or> buf = NULL \<or> name = NULL \<or> max_msg = 0 \<or> sz = 0")
  case True
  then show ?thesis using assms(1) by (auto simp: buf_queue_create_def)
next
  case False
  define rb where "rb = ringbuf_init (take sz mem) type max_msg"
  have "rb_holds rb []"
    unfolding rb_def using assms(3-5) False by (intro rb_holds_init) auto
  then have "bq_holds (q\<lparr>bq_buf := buf, bq_cur_num := 0, bq_peak_num := 0, max_msg_size := max_msg, bq_alloc_flag := alloc,
      bq_ringbuf := rb, min_free_buf_size := rb_freesize rb\<rparr>) []" for q
    by (simp add: bq_holds_def) (simp add: rb_def ringbuf_init_def ringbuf_reset_def)
  then show ?thesis
    using False by (intro create_ok [OF assms(1,2), of "(objs s queue)\<lparr>blk_list := [], obj_name := name,
        blk_policy := BLK_POLICY_PRI, obj_type := RHINO_BUF_QUEUE_OBJ_TYPE\<rparr>"])
      (auto simp: buf_queue_create_def upd_defs obj_inv_def rb_def [symmetric])
qed

lemma buf_queue_del_ok:
  assumes "kernel_ok s" "obj_type (objs s queue) = RHINO_BUF_QUEUE_OBJ_TYPE"
  shows "kernel_ok (buf_queue_del queue s)"
  unfolding buf_queue_del_def Let_def
  by (rule del_resched_ok [OF assms(1), where f = "\<lambda>s. upd_buf_queue queue (\<lambda>q. q\<lparr>bq_ringbuf := ringbuf_reset (bq_ringbuf q)\<rparr>)
      (s\<lparr>g_kobj_list := (g_kobj_list s)\<lparr>buf_queue_head := remove1 queue (buf_queue_head (g_kobj_list s))\<rparr>\<rparr>)"])
    (simp_all add: assms(2) run_frame_def upd_buf_queue_def, rule obj_inv_same, simp_all)

lemma buf_queue_change_ok:
  assumes "kernel_ok s" "obj_type (objs s i) = RHINO_BUF_QUEUE_OBJ_TYPE" "bq_holds q ms" "blk_list (objs s i) \<noteq> [] \<longrightarrow> ms = []"
  shows "kernel_ok (s\<lparr>buf_queues := (buf_queues s)(i := q)\<rparr>)"
  using assms kernel_okD(1) [OF assms(1)]
  by (intro change_ok [OF assms(1), where i = i]) (auto simp: buf_queue_obj_inv)

lemma put_buf_ok [simp]: "kernel_ok (put_buf p bs s) = kernel_ok s"
  by (simp add: put_buf_def)

lemma buf_queue_wake_ok:
  assumes "kernel_ok s" "obj_type (objs s queue) = RHINO_BUF_QUEUE_OBJ_TYPE" "blk_list (objs s queue) = t # ts"
  shows "kernel_ok (core_sched (pend_task_wakeup t (upd_task t (\<lambda>k. k\<lparr>bq_msg_size := n\<rparr>) (put_buf p bs s))))"
  using assms by (intro wake_one_ok [where i = queue] neutral_ok) (simp_all add: put_buf_def upd_task_def neutral_def)

lemma buf_queue_send_ok:
  assumes "kernel_ok s" "may_send (buf_queues s queue) data len"
  shows "kernel_ok (snd (buf_queue_send queue data len s))"
proof (cases "obj_type (objs s queue) = RHINO_BUF_QUEUE_OBJ_TYPE \<and> 0 < len \<and> len \<le> max_msg_size (buf_queues s queue)")
  case False
  then show ?thesis using assms by (auto simp: buf_queue_send_def)
next
  case T: True
  let ?q = "buf_queues s queue"
  obtain ms where h: "bq_holds ?q ms" using kernel_okD(4) [OF assms(1)] buf_queue_obj_inv T by blast
  show ?thesis
  proof (cases "blk_list (objs s queue)")
    case Nil
    have cn: "bq_cur_num ?q = length ms" "bq_cur_num ?q \<le> bq_peak_num ?q" using h by (simp_all add: bq_holds_def)
    show ?thesis
    proof (rule bq_push [OF h _ _ assms(2)])
      assume "ringbuf_push (bq_ringbuf ?q) data len = Some (RHINO_RINGBUF_FULL, bq_ringbuf ?q)"
      then show ?thesis using T Nil assms(1) by (simp add: buf_queue_send_def upd_buf_queue_def)
    next
      fix rb
      assume push: "ringbuf_push (bq_ringbuf ?q) data len = Some (RHINO_SUCCESS, rb)" and c: "length ms + 1 < 2 ^ 32"
        and rb: "\<And>pk mf. length ms + 1 \<le> pk \<Longrightarrow> mf \<le> rb_freesize rb \<Longrightarrow>
          bq_holds (?q\<lparr>bq_ringbuf := rb, bq_cur_num := length ms + 1, bq_peak_num := pk, min_free_buf_size := mf\<rparr>)
            (ms @ [take (sent_bytes (bq_ringbuf ?q) len) data])"
      define q' where "q' = ?q\<lparr>bq_ringbuf := rb, bq_cur_num := length ms + 1, bq_peak_num := max (bq_peak_num ?q) (length ms + 1),
        min_free_buf_size := min (min_free_buf_size ?q) (rb_freesize rb)\<rparr>"
      have "kernel_ok (s\<lparr>buf_queues := (buf_queues s)(queue := q')\<rparr>)"
        unfolding q'_def using T Nil by (intro buf_queue_change_ok [OF assms(1) _ rb]) auto
      moreover have "snd (buf_queue_send queue data len s) = s\<lparr>buf_queues := (buf_queues s)(queue := q')\<rparr>"
        using T Nil push c cn by (simp add: buf_queue_send_def upd_buf_queue_def Let_def q'_def max_def min_def)
      ultimately show ?thesis by simp
    qed (use T in simp_all)
  next
    case (Cons t ts)
    then show ?thesis
      using T assms buf_queue_wake_ok [OF assms(1) _ Cons] by (simp add: buf_queue_send_def Let_def may_send_def)
  qed
qed

lemma buf_queue_pop_ok:
  assumes "kernel_ok s" "obj_type (objs s queue) = RHINO_BUF_QUEUE_OBJ_TYPE" "\<not> ringbuf_is_empty (bq_ringbuf (buf_queues s queue))"
    and "ringbuf_pop (bq_ringbuf (buf_queues s queue)) True = r"
  shows "case r of None \<Rightarrow> False | Some (st, bs, n, rb) \<Rightarrow> st = RHINO_SUCCESS
    \<and> kernel_ok (upd_buf_queue queue (\<lambda>q. q\<lparr>bq_ringbuf := rb, bq_cur_num := (bq_cur_num q + (2 ^ 32 - 1)) mod 2 ^ 32\<rparr>)
        (put_word p v (put_buf p' bs s)))"
proof -
  obtain ms where h: "bq_holds (buf_queues s queue) ms" "blk_list (objs s queue) \<noteq> [] \<longrightarrow> ms = []"
    using kernel_okD(4) [OF assms(1)] buf_queue_obj_inv [OF assms(2)] by blast
  obtain m ns rb where ms: "ms = m # ns" and rb: "ringbuf_pop (bq_ringbuf (buf_queues s queue)) True = Some (RHINO_SUCCESS, m, length m, rb)"
    "bq_holds ((buf_queues s queue)\<lparr>bq_ringbuf := rb, bq_cur_num := (bq_cur_num (buf_queues s queue) + (2 ^ 32 - 1)) mod 2 ^ 32\<rparr>) ns"
    using bq_pop [OF h(1) assms(3)] .
  have "kernel_ok (upd_buf_queue queue (\<lambda>q. q\<lparr>bq_ringbuf := rb, bq_cur_num := (bq_cur_num q + (2 ^ 32 - 1)) mod 2 ^ 32\<rparr>)
      (put_word p v (put_buf p' m s)))"
    unfolding upd_buf_queue_def using assms(1,2) h(2) rb(2) ms
    by (intro buf_queue_change_ok [where ms = ns]) (auto simp: put_word_def put_buf_def)
  then show ?thesis using rb(1) assms(4) by auto
qed

lemma krhino_buf_queue_recv_ok:
  assumes "kernel_ok s" "g_intrpt_nested_level s = 0 \<Longrightarrow> ticks \<noteq> RHINO_NO_WAIT \<Longrightarrow> may_block s"
  shows "kernel_ok (snd (krhino_buf_queue_recv queue ticks msg sz s))"
proof (cases "obj_type (objs s queue) = RHINO_BUF_QUEUE_OBJ_TYPE")
  case False
  then show ?thesis using assms(1) by (simp add: krhino_buf_queue_recv_def)
next
  case True
  let ?q = "buf_queues s queue" and ?g = "\<lambda>k. k\<lparr>task_msg := msg\<rparr>" and ?t = "g_active_task s"
  show ?thesis
  proof (cases "ringbuf_is_empty (bq_ringbuf ?q)")
    case False
    then show ?thesis
      using True assms(1) buf_queue_pop_ok [OF assms(1) True False refl]
      by (auto simp: krhino_buf_queue_recv_def Let_def split: option.splits)
  next
    case e: True
    define s1 where "s1 = upd_task ?t ?g s"
    have act: "g_active_task s1 = ?t" by (simp add: s1_def upd_task_def)
    have "kernel_ok (core_sched (pend_to_blk_obj queue ?t ticks s1))"
      if "\<not> (0 < g_intrpt_nested_level s \<and> ticks \<noteq> RHINO_NO_WAIT)" "ticks \<noteq> RHINO_NO_WAIT" "\<not> 0 < g_sched_lock s"
    proof -
      have z: "g_intrpt_nested_level s = 0" "g_sched_lock s = 0" using that by (auto simp: word_gt_0)
      note b = may_blockD [OF assms(2) [OF z(1) that(2)]]
      have neutral: "neutral ?g" by (simp add: neutral_def)
      have k1: "kinv s1" unfolding s1_def using neutral_kinvx [OF b(2) neutral] .
      have t1: "ready (tasks s1 ?t)" "prio (tasks s1 ?t) \<noteq> RHINO_IDLE_PRI" "obj_type (objs s1 queue) = RHINO_BUF_QUEUE_OBJ_TYPE"
        "buf_queues s1 = buf_queues s"
        using b(3,4) True by (auto simp: s1_def upd_task_def ready_def)
      note bf = block_frame [OF kinvD(1) [OF k1] t1(1) kinv_other [OF k1 t1(2)], where i = queue and timeout = ticks]
      have "\<exists>ms. bq_holds ?q ms \<and> ms = []"
        using kernel_okD(4) [OF assms(1), of queue] e rb_holds_empty buf_queue_obj_inv [OF True] by (auto simp: bq_holds_def)
      then have "obj_inv (pend_to_blk_obj queue ?t ticks s1) queue"
        using t1(3,4) by (auto simp: buf_queue_obj_inv bf)
      then show ?thesis
        unfolding s1_def using block_ok [OF b(1) z b(4), of queue ?g ticks] True neutral by simp
    qed
    then show ?thesis
      using True e assms(1) unfolding krhino_buf_queue_recv_def Let_def s1_def [symmetric] act by simp
  qed
qed

lemma krhino_buf_queue_recv_end_ok: "kernel_ok s \<Longrightarrow> kernel_ok (snd (krhino_buf_queue_recv_end sz s))"
  by (cases "blk_state (tasks s (g_active_task s))") (simp_all add: krhino_buf_queue_recv_end_def pend_state_end_proc_def err_ok)

lemma krhino_buf_queue_flush_ok:
  assumes "kernel_ok s"
  shows "kernel_ok (snd (krhino_buf_queue_flush queue s))"
proof (cases "obj_type (objs s queue) = RHINO_BUF_QUEUE_OBJ_TYPE")
  case True
  let ?q = "buf_queues s queue"
  obtain ms where h: "bq_holds ?q ms" using kernel_okD(4) [OF assms] buf_queue_obj_inv [OF True] by blast
  let ?rb = "ringbuf_reset (bq_ringbuf ?q)"
  have "rb_end (bq_ringbuf ?q) \<noteq> 0" using h by (auto simp: bq_holds_def rb_holds_def rb_wf_def)
  then have "bq_holds (?q\<lparr>bq_ringbuf := ?rb, bq_cur_num := 0, bq_peak_num := 0, min_free_buf_size := rb_freesize ?rb\<rparr>) []"
    using h by (auto simp: bq_holds_def rb_holds_def rb_wf_def ringbuf_reset_def rb_content_def)
  from buf_queue_change_ok [OF assms True this] show ?thesis
    using assms by (simp add: krhino_buf_queue_flush_def upd_buf_queue_def Let_def)
qed (simp add: krhino_buf_queue_flush_def assms)

end
