(* ===== verification/Rhino_Stack.thy ===== *)
theory Rhino_Stack
  imports Rhino_Kernel
begin

text \<open>
  The stack of a task: the part of \<^verbatim>\<open>task_create\<close> (\<^verbatim>\<open>k_task.c\<close>) that clears it and marks its
  end, the initial frame that \<^verbatim>\<open>cpu_task_stack_init\<close> of the Cortex-M4 port builds, and the
  operations that measure and check a stack (\<^verbatim>\<open>k_task.c\<close>, \<^verbatim>\<open>k_stats.c\<close>).

  Memory is a function from addresses to words, and addresses wrap around as the 32-bit
  pointers do.
\<close>

section \<open>Operations\<close>

type_synonym mem = "ptr \<Rightarrow> u32"

definition RHINO_CONFIG_STK_CHK_WORDS :: nat where
  "RHINO_CONFIG_STK_CHK_WORDS = 1"

definition RHINO_TASK_STACK_OVF_MAGIC :: u32 where
  "RHINO_TASK_STACK_OVF_MAGIC = 0xdeadbeaf"

text \<open>Words written upwards from an address, and words pushed downwards (\<^verbatim>\<open>*(--stk) = w\<close>).\<close>

fun write_words :: "ptr \<Rightarrow> u32 list \<Rightarrow> mem \<Rightarrow> mem" where
  "write_words p [] m = m"
| "write_words p (w # ws) m = write_words (p + 4) ws (m(p := w))"

fun push_words :: "u32 list \<Rightarrow> ptr \<Rightarrow> mem \<Rightarrow> ptr \<times> mem" where
  "push_words [] stk m = (stk, m)"
| "push_words (w # ws) stk m = push_words ws (stk - 4) (m(stk - 4 := w))"

definition cpu_task_stack_init :: "ptr \<Rightarrow> size_t \<Rightarrow> ptr \<Rightarrow> ptr \<Rightarrow> ptr \<Rightarrow> mem \<Rightarrow> ptr \<times> mem" where
  "cpu_task_stack_init stack_base stack_sz arg entry deathbed m =
     (let temp = stack_base + 4 * stack_sz;
          stk = temp AND 0xfffffff8
      in push_words [0x01000000, entry, deathbed, 0x12121212, 0x03030303, 0x02020202, 0x01010101, arg,
           0xFFFFFFFD,
           0x11111111, 0x10101010, 0x09090909, 0x08080808, 0x07070707, 0x06060606, 0x05050505, 0x04040404] stk m)"

definition task_stack_setup :: "ptr \<Rightarrow> size_t \<Rightarrow> ptr \<Rightarrow> ptr \<Rightarrow> ptr \<Rightarrow> mem \<Rightarrow> ptr \<times> mem" where
  "task_stack_setup stack_buf stack_sz arg entry deathbed m =
     (let m = write_words stack_buf (replicate (unat (stack_sz * 4) div 4) 0) m;
          m = write_words stack_buf (replicate RHINO_CONFIG_STK_CHK_WORDS RHINO_TASK_STACK_OVF_MAGIC) m
      in cpu_task_stack_init stack_buf stack_sz arg entry deathbed m)"

partial_function (option) free_scan :: "mem \<Rightarrow> ptr \<Rightarrow> nat \<Rightarrow> nat option" where
  "free_scan m stk free_stk =
     (if m stk = 0 then free_scan m (stk + 4) (free_stk + 1) else Some free_stk)"

text \<open>The outer option is the end of the scan, the inner one the value stored through \<^verbatim>\<open>free\<close>.\<close>

definition krhino_task_stack_min_free :: "tid \<Rightarrow> ptr \<Rightarrow> kernel \<Rightarrow> (kstat \<times> nat option) option" where
  "krhino_task_stack_min_free task free s =
     (if task = NULL then Some (RHINO_NULL_PTR, None)
      else if free = NULL then Some (RHINO_NULL_PTR, None)
      else if task_state (tasks s task) = K_DELETED then Some (RHINO_INV_TASK_STATE, None)
      else map_option (\<lambda>n. (RHINO_SUCCESS, Some n))
        (free_scan (stack_mem s) (task_stack_base (tasks s task) + 4 * of_nat RHINO_CONFIG_STK_CHK_WORDS) 0))"

text \<open>\<open>cur_sp\<close> is the stack pointer \<^verbatim>\<open>soc_get_cur_sp\<close> reads.\<close>

definition krhino_task_stack_cur_free :: "tid \<Rightarrow> ptr \<Rightarrow> kernel \<Rightarrow> kstat \<times> nat option \<times> kernel" where
  "krhino_task_stack_cur_free task cur_sp s =
     (let (task, sp) = (if task = NULL \<or> task = g_active_task s then (g_active_task s, cur_sp)
                        else (task, task_stack (tasks s task)));
          top = task_stack_base (tasks s task) + 4 * stack_size (tasks s task)
      in if sp = 0 then (RHINO_SYS_SP_ERR, None, k_err_proc RHINO_SYS_SP_ERR s)
         else if top < sp then (RHINO_TASK_STACK_OVF, None, k_err_proc RHINO_TASK_STACK_OVF s)
         else (RHINO_SUCCESS, Some (unat (top - sp) div 4), s))"

fun magic_check :: "nat \<Rightarrow> ptr \<Rightarrow> kernel \<Rightarrow> kernel" where
  "magic_check 0 stack_start s = s"
| "magic_check (Suc n) stack_start s =
     magic_check n (stack_start + 4)
       (if stack_mem s stack_start \<noteq> RHINO_TASK_STACK_OVF_MAGIC then k_err_proc RHINO_TASK_STACK_OVF s else s)"

definition krhino_stack_ovf_check :: "kernel \<Rightarrow> kernel" where
  "krhino_stack_ovf_check s =
     (let k = tasks s (g_active_task s);
          stack_start = task_stack_base k;
          s = magic_check RHINO_CONFIG_STK_CHK_WORDS stack_start s;
          stack_start = stack_start + 4 * of_nat RHINO_CONFIG_STK_CHK_WORDS
      in if task_stack k < stack_start then k_err_proc RHINO_TASK_STACK_OVF s else s)"

section \<open>Words in memory\<close>

definition word_at :: "ptr \<Rightarrow> nat \<Rightarrow> ptr" where
  "word_at p i = p + 4 * of_nat i"

lemma word_at_simps [simp]:
  "word_at p 0 = p" "word_at (p + 4) i = word_at p (Suc i)" "word_at p (Suc i) - 4 = word_at p i"
  "word_at p i + 4 = word_at p (Suc i)" "word_at (word_at p i) j = word_at p (i + j)"
  by (simp_all add: word_at_def algebra_simps)

lemma unat_word_at: "unat p + 4 * i < 2 ^ 32 \<Longrightarrow> unat (word_at p i) = unat p + 4 * i"
proof -
  assume a: "unat p + 4 * i < 2 ^ 32"
  then have "unat (4 * of_nat i :: ptr) = 4 * i" by (simp add: unat_word_ariths unat_of_nat)
  then show ?thesis using a by (simp add: word_at_def unat_word_ariths)
qed

lemma word_at_eq:
  assumes "unat p + 4 * n \<le> 2 ^ 32" "i < n" "j < n"
  shows "word_at p i = word_at p j \<longleftrightarrow> i = j"
proof
  assume eq: "word_at p i = word_at p j"
  have "unat p + 4 * i = unat (word_at p i)" using assms by (intro unat_word_at [symmetric]) linarith
  also have "\<dots> = unat p + 4 * j" unfolding eq using assms by (intro unat_word_at) linarith
  finally show "i = j" by simp
qed simp

lemma write_words_other: "(\<And>j. j < length ws \<Longrightarrow> a \<noteq> word_at p j) \<Longrightarrow> write_words p ws m a = m a"
proof (induction ws arbitrary: p m)
  case (Cons w ws)
  have "a \<noteq> word_at (p + 4) j" if "j < length ws" for j
    using Cons.prems [of "Suc j"] that by simp
  moreover have "a \<noteq> p" using Cons.prems [of 0] by simp
  ultimately show ?case using Cons.IH by simp
qed simp

lemma write_words_at:
  assumes "unat p + 4 * n \<le> 2 ^ 32" "length ws \<le> n" "i < n"
  shows "write_words p ws m (word_at p i) = (if i < length ws then ws ! i else m (word_at p i))"
  using assms(2)
proof (induction ws arbitrary: m rule: rev_induct)
  case (snoc w ws)
  have app: "write_words q (xs @ ys) m = write_words (word_at q (length xs)) ys (write_words q xs m)" for q xs ys m
    by (induction xs arbitrary: q m) simp_all
  show ?case
    using snoc.IH [of m] snoc.prems word_at_eq [OF assms(1,3), of "length ws"]
    by (auto simp: app nth_append less_Suc_eq)
qed simp

lemma push_words_at:
  assumes "unat p + 4 * N \<le> 2 ^ 32" "n \<le> N" "length ws \<le> n"
  shows "fst (push_words ws (word_at p n) m) = word_at p (n - length ws)"
    and "i < N \<Longrightarrow> snd (push_words ws (word_at p n) m) (word_at p i)
      = (if n - length ws \<le> i \<and> i < n then ws ! (n - 1 - i) else m (word_at p i))"
proof -
  have "fst (push_words ws (word_at p n) m) = word_at p (n - length ws)
    \<and> (\<forall>i < N. snd (push_words ws (word_at p n) m) (word_at p i)
      = (if n - length ws \<le> i \<and> i < n then ws ! (n - 1 - i) else m (word_at p i)))"
    using assms(2,3)
  proof (induction ws arbitrary: n m)
    case (Cons w ws)
    then obtain k where n: "n = Suc k" by (cases n) auto
    define m' where "m' = m(word_at p k := w)"
    have IH: "fst (push_words ws (word_at p k) m') = word_at p (k - length ws)
      \<and> (\<forall>i < N. snd (push_words ws (word_at p k) m') (word_at p i)
        = (if k - length ws \<le> i \<and> i < k then ws ! (k - 1 - i) else m' (word_at p i)))"
      using Cons.prems n by (intro Cons.IH) auto
    have "snd (push_words (w # ws) (word_at p n) m) (word_at p i)
      = (if n - length (w # ws) \<le> i \<and> i < n then (w # ws) ! (n - 1 - i) else m (word_at p i))" if "i < N" for i
    proof -
      have "word_at p i = word_at p k \<longleftrightarrow> i = k" using word_at_eq [OF assms(1) that, of k] Cons.prems n by simp
      then show ?thesis
        using IH [THEN conjunct2, rule_format, OF that] Cons.prems n
        by (auto simp: nth_Cons' m'_def [symmetric]) (auto simp: m'_def)
    qed
    then show ?case using IH n by (simp add: m'_def)
  qed auto
  then show "fst (push_words ws (word_at p n) m) = word_at p (n - length ws)"
    and "i < N \<Longrightarrow> snd (push_words ws (word_at p n) m) (word_at p i)
      = (if n - length ws \<le> i \<and> i < n then ws ! (n - 1 - i) else m (word_at p i))"
    by auto
qed

text \<open>Rounding down to a multiple of eight.\<close>

lemma and_align8: "unat (x AND 0xfffffff8 :: ptr) = 8 * (unat x div 8)"
proof -
  have n: "(0xfffffff8 :: ptr) = NOT (mask 3)" by (simp add: mask_eq_exp_minus_1)
  have "x AND 0xfffffff8 = push_bit 3 (drop_bit 3 x)"
    unfolding n by (auto intro!: bit_word_eqI simp: bit_simps)
  moreover have "8 * (unat x div 8) < 2 ^ 32" using unsigned_less [of x, where 'a = nat] by simp
  ultimately show ?thesis
    by (simp add: push_bit_eq_mult drop_bit_eq_div unat_word_ariths unat_div_distrib)
qed

section \<open>The stack of a new task\<close>

text \<open>The number of words below the initial frame, whose top is aligned to eight bytes.\<close>

definition stack_room :: "ptr \<Rightarrow> size_t \<Rightarrow> nat" where
  "stack_room base sz = (if (unat base + 4 * unat sz) mod 8 = 0 then unat sz else unat sz - 1) - 17"

definition stack_fits :: "ptr \<Rightarrow> size_t \<Rightarrow> bool" where
  "stack_fits base sz \<longleftrightarrow> unat base mod 4 = 0 \<and> unat base + 4 * unat sz < 2 ^ 32 \<and> 19 \<le> unat sz"

lemma aligned_top:
  assumes "stack_fits base sz"
  shows "(base + 4 * sz) AND 0xfffffff8 = word_at base (stack_room base sz + 17)"
proof -
  let ?b = "unat base" and ?n = "unat sz"
  have s: "?b mod 4 = 0" "?b + 4 * ?n < 2 ^ 32" "19 \<le> ?n" using assms by (auto simp: stack_fits_def)
  then have t: "unat (base + 4 * sz) = ?b + 4 * ?n" using unat_word_at [of base ?n] by (simp add: word_at_def)
  have "8 * ((?b + 4 * ?n) div 8) = ?b + 4 * (stack_room base sz + 17)"
  proof -
    obtain k where k: "?b = 4 * k" using s(1) by (meson dvdE mod_eq_0_iff_dvd)
    define j where "j = k + ?n"
    have t4: "?b + 4 * ?n = 4 * j" by (simp add: k j_def)
    have "8 * (4 * j div 8) = (if even j then 4 * j else 4 * (j - 1))" "4 * j mod 8 = 0 \<longleftrightarrow> even j"
      by (auto elim!: evenE oddE simp: mult_mod_right [of 4 _ 2, simplified])
    then show ?thesis using s(3) k unfolding stack_room_def t4 by (auto simp: j_def)
  qed
  then have "unat ((base + 4 * sz) AND 0xfffffff8) = ?b + 4 * (stack_room base sz + 17)"
    by (simp add: and_align8 t)
  also have "\<dots> = unat (word_at base (stack_room base sz + 17))"
    using s by (intro unat_word_at [symmetric]) (auto simp: stack_room_def)
  finally show ?thesis by (simp only: unsigned_word_eqI)
qed

lemma task_stack_setup_spec:
  fixes arg entry deathbed :: ptr and m :: mem
  assumes "stack_fits base sz"
  defines "r \<equiv> task_stack_setup base sz arg entry deathbed m" and "n \<equiv> stack_room base sz"
  shows "fst r = word_at base n" "0 < n" "snd r base = RHINO_TASK_STACK_OVF_MAGIC"
    and "0 < i \<Longrightarrow> i < n \<Longrightarrow> snd r (word_at base i) = 0" "snd r (word_at base n) = 0x04040404"
proof -
  let ?N = "unat sz"
  have s: "unat base + 4 * ?N < 2 ^ 32" "19 \<le> ?N" using assms by (auto simp: stack_fits_def)
  have N: "unat base + 4 * ?N \<le> 2 ^ 32" "unat (sz * 4) div 4 = ?N" using s(1) by (simp_all add: unat_word_ariths)
  have n: "0 < n" "n + 17 \<le> ?N" using s(2) by (auto simp: n_def stack_room_def)
  define m1 where "m1 = write_words base (replicate ?N 0) m"
  define m2 where "m2 = write_words base [RHINO_TASK_STACK_OVF_MAGIC] m1"
  define ws :: "u32 list" where "ws = [0x01000000, entry, deathbed, 0x12121212, 0x03030303, 0x02020202, 0x01010101, arg,
           0xFFFFFFFD, 0x11111111, 0x10101010, 0x09090909, 0x08080808, 0x07070707, 0x06060606, 0x05050505, 0x04040404]"
  have r: "r = push_words ws (word_at base (n + 17)) m2"
    using aligned_top [OF assms(1)]
    by (simp add: r_def task_stack_setup_def cpu_task_stack_init_def Let_def N(2) m1_def m2_def ws_def n_def
      RHINO_CONFIG_STK_CHK_WORDS_def)
  have len: "length ws = 17" by (simp add: ws_def)
  note P = push_words_at [OF N(1) n(2), where ws = ws and m = m2]
  have m1: "m1 (word_at base i) = 0" if "i < ?N" for i
    using write_words_at [OF N(1) _ that, of "replicate ?N 0" m] that by (simp add: m1_def)
  have m2: "m2 (word_at base i) = (if i = 0 then RHINO_TASK_STACK_OVF_MAGIC else 0)" if "i < ?N" for i
    using write_words_at [OF N(1) _ that, of "[RHINO_TASK_STACK_OVF_MAGIC]" m1] m1 [OF that] s(2) by (simp add: m2_def)
  have low: "snd r (word_at base i) = (if i = 0 then RHINO_TASK_STACK_OVF_MAGIC else 0)" if "i < n" for i
    using P(2) [of i] m2 [of i] len that n by (simp add: r)
  show "fst r = word_at base n" using P(1) len by (simp add: r)
  show "0 < n" by (rule n(1))
  show "snd r base = RHINO_TASK_STACK_OVF_MAGIC" using low [OF n(1)] by simp
  show "snd r (word_at base i) = 0" if "0 < i" "i < n" using low [OF that(2)] that(1) by simp
  show "snd r (word_at base n) = 0x04040404"
    using P(2) [of n] len n by (simp add: r) (simp add: ws_def)
qed

lemma free_scan_stop:
  assumes "\<And>i. i < n \<Longrightarrow> m (word_at p i) = 0" "m (word_at p n) \<noteq> 0"
  shows "free_scan m p k = Some (k + n)"
  using assms
proof (induction n arbitrary: p k)
  case 0
  then show ?case by (simp add: free_scan.simps)
next
  case (Suc n)
  have "free_scan m p k = free_scan m (p + 4) (k + 1)" using Suc.prems(1) [of 0] by (simp add: free_scan.simps [of _ p])
  also have "\<dots> = Some (k + 1 + n)" using Suc.prems(2) Suc.prems(1) [of "Suc _"] by (intro Suc.IH) simp_all
  finally show ?case by simp
qed

end
