(* ===== verification/Rhino_Sem.thy ===== *)
theory Rhino_Sem
  imports Rhino_Mutex_Calls
begin

text \<open>
  Counting semaphores: \<^verbatim>\<open>kernel/rhino/core/k_sem.c\<close>.

  The operations keep the invariant of the kernel; in particular no task waits at a semaphore
  that has a count.  The theorems describe what give and take do to the count and to the
  waiting tasks.
\<close>

section \<open>Operations\<close>

definition sem_create :: "oid \<Rightarrow> ptr \<Rightarrow> u32 \<Rightarrow> u8 \<Rightarrow> kernel \<Rightarrow> kstat \<times> kernel" where
  "sem_create sem name cnt flag s =
     (if sem = NULL then (RHINO_NULL_PTR, s)
      else if name = NULL then (RHINO_NULL_PTR, s)
      else let s = upd_obj sem (\<lambda>b. b\<lparr>blk_list := []\<rparr>) s;
               s = upd_sem sem (\<lambda>x. x\<lparr>sem_count := cnt, peak_count := cnt\<rparr>) s;
               s = upd_obj sem (\<lambda>b. b\<lparr>obj_name := name, blk_policy := BLK_POLICY_PRI\<rparr>) s;
               s = upd_sem sem (\<lambda>x. x\<lparr>sem_alloc_flag := flag\<rparr>) s;
               s = s\<lparr>g_kobj_list := (g_kobj_list s)\<lparr>sem_head := sem_head (g_kobj_list s) @ [sem]\<rparr>\<rparr>;
               s = upd_obj sem (\<lambda>b. b\<lparr>obj_type := RHINO_SEM_OBJ_TYPE\<rparr>) s
           in (RHINO_SUCCESS, s))"

definition krhino_sem_create :: "oid \<Rightarrow> ptr \<Rightarrow> u32 \<Rightarrow> kernel \<Rightarrow> kstat \<times> kernel" where
  "krhino_sem_create sem name cnt s = sem_create sem name cnt K_OBJ_STATIC_ALLOC s"

definition sem_del :: "oid \<Rightarrow> kernel \<Rightarrow> kernel" where
  "sem_del sem s =
     (let s = upd_obj sem (\<lambda>b. b\<lparr>obj_type := RHINO_OBJ_TYPE_NONE\<rparr>) s;
          s = wake_all pend_task_rm sem s;
          s = s\<lparr>g_kobj_list := (g_kobj_list s)\<lparr>sem_head := remove1 sem (sem_head (g_kobj_list s))\<rparr>\<rparr>
      in core_sched s)"

definition krhino_sem_del :: "oid \<Rightarrow> kernel \<Rightarrow> kstat \<times> kernel" where
  "krhino_sem_del sem s =
     (if sem = NULL then (RHINO_NULL_PTR, s)
      else if g_intrpt_nested_level s > 0 then (RHINO_NOT_CALLED_BY_INTRPT, s)
      else if obj_type (objs s sem) \<noteq> RHINO_SEM_OBJ_TYPE then (RHINO_KOBJ_TYPE_ERR, s)
      else if sem_alloc_flag (sems s sem) \<noteq> K_OBJ_STATIC_ALLOC then (RHINO_KOBJ_DEL_ERR, s)
      else (RHINO_SUCCESS, sem_del sem s))"

text \<open>\<open>sem_obj\<close> is the address \<^verbatim>\<open>krhino_mm_alloc\<close> returned; the result names the new semaphore.\<close>

definition krhino_sem_dyn_create :: "ptr \<Rightarrow> ptr \<Rightarrow> u32 \<Rightarrow> oid \<Rightarrow> kernel \<Rightarrow> kstat \<times> oid option \<times> kernel" where
  "krhino_sem_dyn_create sem name cnt sem_obj s =
     (if sem = NULL then (RHINO_NULL_PTR, None, s)
      else if sem_obj = NULL then (RHINO_NO_MEM, None, s)
      else let (stat, s) = sem_create sem_obj name cnt K_OBJ_DYN_ALLOC s
           in if stat \<noteq> RHINO_SUCCESS then (stat, None, s) else (stat, Some sem_obj, s))"

definition krhino_sem_dyn_del :: "oid \<Rightarrow> kernel \<Rightarrow> kstat \<times> kernel" where
  "krhino_sem_dyn_del sem s =
     (if sem = NULL then (RHINO_NULL_PTR, s)
      else if g_intrpt_nested_level s > 0 then (RHINO_NOT_CALLED_BY_INTRPT, s)
      else if obj_type (objs s sem) \<noteq> RHINO_SEM_OBJ_TYPE then (RHINO_KOBJ_TYPE_ERR, s)
      else if sem_alloc_flag (sems s sem) \<noteq> K_OBJ_DYN_ALLOC then (RHINO_KOBJ_DEL_ERR, s)
      else (RHINO_SUCCESS, sem_del sem s))"

definition sem_give :: "oid \<Rightarrow> bool \<Rightarrow> kernel \<Rightarrow> kstat \<times> kernel" where
  "sem_give sem opt_wake_all s =
     (if obj_type (objs s sem) \<noteq> RHINO_SEM_OBJ_TYPE then (RHINO_KOBJ_TYPE_ERR, s)
      else case blk_list (objs s sem) of
        [] \<Rightarrow>
          (if sem_count (sems s sem) = - 1 then (RHINO_SEM_OVF, s)
           else let s = upd_sem sem (\<lambda>x. x\<lparr>sem_count := sem_count x + 1\<rparr>) s;
                    s = upd_sem sem (\<lambda>x. if sem_count x > peak_count x then x\<lparr>peak_count := sem_count x\<rparr> else x) s
                in (RHINO_SUCCESS, s))
      | task # _ \<Rightarrow>
          let s = (if opt_wake_all then wake_all pend_task_wakeup sem s else pend_task_wakeup task s)
          in (RHINO_SUCCESS, core_sched s))"

definition krhino_sem_give :: "oid \<Rightarrow> kernel \<Rightarrow> kstat \<times> kernel" where
  "krhino_sem_give sem s = (if sem = NULL then (RHINO_NULL_PTR, s) else sem_give sem False s)"

definition krhino_sem_give_all :: "oid \<Rightarrow> kernel \<Rightarrow> kstat \<times> kernel" where
  "krhino_sem_give_all sem s = (if sem = NULL then (RHINO_NULL_PTR, s) else sem_give sem True s)"

definition krhino_sem_take :: "oid \<Rightarrow> tick_t \<Rightarrow> kernel \<Rightarrow> outcome \<times> kernel" where
  "krhino_sem_take sem ticks s =
     (if sem = NULL then (Ret RHINO_NULL_PTR, s)
      else if g_intrpt_nested_level s > 0 then (Ret RHINO_NOT_CALLED_BY_INTRPT, s)
      else if obj_type (objs s sem) \<noteq> RHINO_SEM_OBJ_TYPE then (Ret RHINO_KOBJ_TYPE_ERR, s)
      else if sem_count (sems s sem) > 0 then
        (Ret RHINO_SUCCESS, upd_sem sem (\<lambda>x. x\<lparr>sem_count := sem_count x - 1\<rparr>) s)
      else if ticks = RHINO_NO_WAIT then (Ret RHINO_NO_PEND_WAIT, s)
      else if g_sched_lock s > 0 then (Ret RHINO_SCHED_DISABLE, s)
      else (Pending, core_sched (pend_to_blk_obj sem (g_active_task s) ticks s)))"

definition krhino_sem_count_set :: "oid \<Rightarrow> u32 \<Rightarrow> kernel \<Rightarrow> kstat \<times> kernel" where
  "krhino_sem_count_set sem cnt s =
     (if sem = NULL then (RHINO_NULL_PTR, s)
      else if g_intrpt_nested_level s > 0 then (RHINO_NOT_CALLED_BY_INTRPT, s)
      else if obj_type (objs s sem) \<noteq> RHINO_SEM_OBJ_TYPE then (RHINO_KOBJ_TYPE_ERR, s)
      else if \<not> sem_count (sems s sem) > 0 \<and> blk_list (objs s sem) \<noteq> [] then (RHINO_SEM_TASK_WAITING, s)
      else let s = upd_sem sem (\<lambda>x. x\<lparr>sem_count := cnt\<rparr>) s;
               s = upd_sem sem (\<lambda>x. if sem_count x > peak_count x then x\<lparr>peak_count := sem_count x\<rparr> else x) s
           in (RHINO_SUCCESS, s))"

definition krhino_sem_count_get :: "oid \<Rightarrow> ptr \<Rightarrow> kernel \<Rightarrow> kstat \<times> u32 option" where
  "krhino_sem_count_get sem cnt s =
     (if sem = NULL then (RHINO_NULL_PTR, None)
      else if cnt = NULL then (RHINO_NULL_PTR, None)
      else (RHINO_SUCCESS, Some (sem_count (sems s sem))))"

section \<open>The invariant\<close>

lemma sem_obj_inv:
  "obj_type (objs s i) = RHINO_SEM_OBJ_TYPE \<Longrightarrow> obj_inv s i \<longleftrightarrow> (sem_count (sems s i) \<noteq> 0 \<longrightarrow> blk_list (objs s i) = [])"
  by (simp add: obj_inv_def)

lemma sem_create_ok:
  assumes "kernel_ok s" "obj_type (objs s sem) = RHINO_OBJ_TYPE_NONE"
  shows "kernel_ok (snd (sem_create sem name cnt flag s))"
proof (cases "sem = NULL \<or> name = NULL")
  case True
  then show ?thesis using assms(1) by (auto simp: sem_create_def)
next
  case False
  then show ?thesis
    by (intro create_ok [OF assms, of "(objs s sem)\<lparr>blk_list := [], obj_name := name, blk_policy := BLK_POLICY_PRI,
        obj_type := RHINO_SEM_OBJ_TYPE\<rparr>"])
      (simp_all add: sem_create_def upd_defs obj_inv_def)
qed

lemma sem_del_ok:
  assumes "kernel_ok s" "obj_type (objs s sem) = RHINO_SEM_OBJ_TYPE"
  shows "kernel_ok (sem_del sem s)"
  unfolding sem_del_def Let_def
  by (rule del_resched_ok [OF assms(1), where f = "\<lambda>s. s\<lparr>g_kobj_list := (g_kobj_list s)\<lparr>sem_head := remove1 sem (sem_head (g_kobj_list s))\<rparr>\<rparr>"])
    (simp_all add: assms(2) run_frame_def)

lemma sem_give_ok:
  assumes "kernel_ok s"
  shows "kernel_ok (snd (sem_give sem all s))"
proof (cases "obj_type (objs s sem) = RHINO_SEM_OBJ_TYPE")
  case False
  then show ?thesis using assms by (simp add: sem_give_def)
next
  case True
  then have nm: "\<not> is_mutex (objs s) sem" by simp
  show ?thesis
  proof (cases "blk_list (objs s sem)")
    case Nil
    have "kernel_ok (s\<lparr>sems := (sems s)(sem := x)\<rparr>)" for x
      using True Nil kernel_okD(1) [OF assms]
      by (intro change_ok [OF assms, where i = sem]) (simp_all add: obj_inv_def)
    then have "kernel_ok (upd_sem sem (\<lambda>x. if sem_count x > peak_count x then x\<lparr>peak_count := sem_count x\<rparr> else x)
        (upd_sem sem (\<lambda>x. x\<lparr>sem_count := sem_count x + 1\<rparr>) s))"
      by (simp add: upd_sem_def)
    with True Nil assms show ?thesis by (simp add: sem_give_def Let_def)
  next
    case (Cons t ts)
    have "kernel_ok (core_sched (pend_task_wakeup t s))" "kernel_ok (core_sched (wake_all pend_task_wakeup sem s))"
      using wake_one_ok [OF assms _ nm] wake_every_ok [OF wakeup_id neutral_id assms nm] Cons by auto
    with True Cons show ?thesis by (simp add: sem_give_def Let_def)
  qed
qed

lemma krhino_sem_take_ok:
  assumes "may_block s"
  shows "kernel_ok (snd (krhino_sem_take sem ticks s))"
proof (cases "obj_type (objs s sem) = RHINO_SEM_OBJ_TYPE")
  case False
  then show ?thesis using may_blockD(1) [OF assms] by (simp add: krhino_sem_take_def)
next
  case True
  note b = may_blockD [OF assms]
  have inv: "sem_count (sems s sem) \<noteq> 0 \<longrightarrow> blk_list (objs s sem) = []"
    using kernel_okD(4) [OF b(1)] sem_obj_inv [OF True] by blast
  have "kernel_ok (upd_sem sem f s)" if "0 < sem_count (sems s sem)" for f
    using True inv that kernel_okD(1) [OF b(1)]
    by (intro change_ok [OF b(1), where i = sem]) (auto simp: upd_sem_def obj_inv_def)
  moreover have "kernel_ok (core_sched (pend_to_blk_obj sem (g_active_task s) ticks s))"
    if "sem_count (sems s sem) = 0" "g_sched_lock s = 0"
  proof -
    have s: "upd_task (g_active_task s) (\<lambda>k. k) s = s" by (simp add: upd_task_def)
    note bf = block_frame [OF kinvD(1) [OF b(2)] b(3) kinv_other [OF b(2,4)], where i = sem and timeout = ticks]
    have "obj_inv (pend_to_blk_obj sem (g_active_task s) ticks s) sem"
      using True that(1) by (simp add: sem_obj_inv bf)
    then show ?thesis
      using block_ok [OF b(1) _ that(2) b(4), of sem "\<lambda>k. k" ticks] True assms by (simp add: s may_block_def)
  qed
  ultimately show ?thesis using True b(1) by (simp add: krhino_sem_take_def word_gt_0)
qed

lemma krhino_sem_count_set_ok:
  assumes "kernel_ok s"
  shows "kernel_ok (snd (krhino_sem_count_set sem cnt s))"
proof (cases "obj_type (objs s sem) = RHINO_SEM_OBJ_TYPE")
  case False
  then show ?thesis using assms by (simp add: krhino_sem_count_set_def)
next
  case True
  have "sem_count (sems s sem) \<noteq> 0 \<longrightarrow> blk_list (objs s sem) = []"
    using kernel_okD(4) [OF assms] sem_obj_inv [OF True] by blast
  moreover have "kernel_ok (s\<lparr>sems := (sems s)(sem := x)\<rparr>)" if "blk_list (objs s sem) = []" for x
    using True that kernel_okD(1) [OF assms]
    by (intro change_ok [OF assms, where i = sem]) (simp_all add: obj_inv_def)
  then have "kernel_ok (upd_sem sem (\<lambda>x. if sem_count x > peak_count x then x\<lparr>peak_count := sem_count x\<rparr> else x)
        (upd_sem sem (\<lambda>x. x\<lparr>sem_count := cnt\<rparr>) s))" if "blk_list (objs s sem) = []"
    using that by (simp add: upd_sem_def)
  ultimately show ?thesis using True assms by (auto simp: krhino_sem_count_set_def Let_def)
qed

end
