(* ===== verification/Rhino_Task.thy ===== *)
theory Rhino_Task
  imports Rhino_Stack Rhino_Sem
begin

text \<open>
  Tasks: \<^verbatim>\<open>kernel/rhino/core/k_task.c\<close>, except for the measuring of stacks (theory \<open>Rhino_Stack\<close>)
  and the loop of \<^verbatim>\<open>task_pri_change\<close> (theory \<open>Rhino_Mutex\<close>).

  The life of a task: created ready or suspended, put to sleep, suspended and resumed, its
  waiting aborted, its priority changed, and deleted.  A deleted task hands the mutexes it
  holds over to the first task that waits for each.
\<close>

section \<open>Creation\<close>

definition RHINO_CONFIG_TIME_SLICE_DEFAULT :: u32 where
  "RHINO_CONFIG_TIME_SLICE_DEFAULT = 50"

definition RHINO_CONFIG_TASK_INFO_NUM :: nat where
  "RHINO_CONFIG_TASK_INFO_NUM = 2"

text \<open>The block after \<^verbatim>\<open>memset(task, 0, sizeof(ktask_t))\<close>.\<close>

definition zero_task :: ktask where
  "zero_task = \<lparr>task_stack = 0, task_name = 0, user_info = replicate RHINO_CONFIG_TASK_INFO_NUM 0, task_stack_base = 0,
     stack_size = 0, suspend_count = 0, mutex_list = 0, tick_match = 0, tick_remain = 0, tick_head = False, task_msg = 0,
     bq_msg_size = 0, task_state = K_SEED, blk_state = BLK_FINISH, blk_obj = 0, task_sem_obj = 0, time_slice = 0,
     time_total = 0, pend_flags = 0, pend_info = 0, pend_option = 0, sched_policy = 0, cpu_num = 0, prio = 0, b_prio = 0,
     task_alloc_flag = 0\<rparr>"

definition new_task :: "ptr \<Rightarrow> nat \<Rightarrow> tick_t \<Rightarrow> ptr \<Rightarrow> size_t \<Rightarrow> u8 \<Rightarrow> u8 \<Rightarrow> u8 \<Rightarrow> ptr \<Rightarrow> ktask" where
  "new_task name pri ticks stack_buf stack_sz autorun alloc cpu stk =
     (let total = (if ticks > 0 then ucast ticks else RHINO_CONFIG_TIME_SLICE_DEFAULT);
          k = zero_task\<lparr>time_total := total, time_slice := total, sched_policy := KSCHED_RR\<rparr>;
          k = (if autorun > 0 then k\<lparr>task_state := K_RDY\<rparr> else k\<lparr>task_state := K_SUSPENDED, suspend_count := 1\<rparr>)
      in k\<lparr>task_stack_base := stack_buf, task_name := name, prio := pri, b_prio := pri, stack_size := stack_sz,
           task_alloc_flag := alloc, cpu_num := cpu, task_stack := stk\<rparr>)"

definition task_create ::
    "tid \<Rightarrow> ptr \<Rightarrow> ptr \<Rightarrow> nat \<Rightarrow> tick_t \<Rightarrow> ptr \<Rightarrow> size_t \<Rightarrow> ptr \<Rightarrow> u8 \<Rightarrow> u8 \<Rightarrow> u8 \<Rightarrow> kernel \<Rightarrow> kstat \<times> kernel" where
  "task_create task name arg pri ticks stack_buf stack_sz entry autorun alloc cpu s =
     (if task = NULL then (RHINO_NULL_PTR, s)
      else if name = NULL then (RHINO_NULL_PTR, s)
      else if entry = NULL then (RHINO_NULL_PTR, s)
      else if stack_buf = NULL then (RHINO_NULL_PTR, s)
      else if stack_sz = 0 then (RHINO_TASK_INV_STACK_SIZE, s)
      else if pri \<ge> RHINO_CONFIG_PRI_MAX then (RHINO_BEYOND_MAX_PRI, s)
      else if g_intrpt_nested_level s > 0 then (RHINO_NOT_CALLED_BY_INTRPT, s)
      else if pri = RHINO_IDLE_PRI \<and> g_idle_task_spawned s > 0 then (RHINO_IDLE_TASK_EXIST, s)
      else let s = (if pri = RHINO_IDLE_PRI then s\<lparr>g_idle_task_spawned := 1\<rparr> else s);
               (stk, mem) = task_stack_setup stack_buf stack_sz arg entry (deathbed_addr s) (stack_mem s);
               s = s\<lparr>stack_mem := mem\<rparr>;
               s = upd_task task (\<lambda>_. new_task name pri ticks stack_buf stack_sz autorun alloc cpu stk) s;
               s = s\<lparr>g_kobj_list := (g_kobj_list s)\<lparr>task_head := task_head (g_kobj_list s) @ [task]\<rparr>\<rparr>
           in if autorun > 0 then
                let s = ready_list_add_tail task s
                in if g_sys_stat s = RHINO_RUNNING then (RHINO_SUCCESS, core_sched s) else (RHINO_SUCCESS, s)
              else (RHINO_SUCCESS, s))"

definition krhino_task_create ::
    "tid \<Rightarrow> ptr \<Rightarrow> ptr \<Rightarrow> nat \<Rightarrow> tick_t \<Rightarrow> ptr \<Rightarrow> size_t \<Rightarrow> ptr \<Rightarrow> u8 \<Rightarrow> kernel \<Rightarrow> kstat \<times> kernel" where
  "krhino_task_create task name arg pri ticks stack_buf stack_sz entry autorun s =
     task_create task name arg pri ticks stack_buf stack_sz entry autorun K_OBJ_STATIC_ALLOC 0 s"

text \<open>
  \<open>stack_obj\<close> and \<open>task_obj\<close> are the addresses the two calls of \<^verbatim>\<open>krhino_mm_alloc\<close> returned.  The
  second component is the value stored through \<^verbatim>\<open>task\<close>, if any.
\<close>

definition task_dyn_create ::
    "ptr \<Rightarrow> ptr \<Rightarrow> ptr \<Rightarrow> nat \<Rightarrow> tick_t \<Rightarrow> size_t \<Rightarrow> ptr \<Rightarrow> u8 \<Rightarrow> u8 \<Rightarrow> ptr \<Rightarrow> tid \<Rightarrow> kernel \<Rightarrow> kstat \<times> ptr option \<times> kernel" where
  "task_dyn_create task name arg pri ticks stack entry cpu autorun stack_obj task_obj s =
     (if task = NULL then (RHINO_NULL_PTR, None, s)
      else if stack = 0 then (RHINO_INV_PARAM, None, s)
      else if stack_obj = NULL then (RHINO_NO_MEM, None, s)
      else if task_obj = NULL then (RHINO_NO_MEM, None, s)
      else let (ret, s) = task_create task_obj name arg pri ticks stack_obj stack entry autorun K_OBJ_DYN_ALLOC cpu s
           in if ret \<noteq> RHINO_SUCCESS \<and> ret \<noteq> RHINO_STOPPED then (ret, Some NULL, s) else (ret, Some task_obj, s))"

definition krhino_task_dyn_create ::
    "ptr \<Rightarrow> ptr \<Rightarrow> ptr \<Rightarrow> nat \<Rightarrow> tick_t \<Rightarrow> size_t \<Rightarrow> ptr \<Rightarrow> u8 \<Rightarrow> ptr \<Rightarrow> tid \<Rightarrow> kernel \<Rightarrow> kstat \<times> ptr option \<times> kernel" where
  "krhino_task_dyn_create task name arg pri ticks stack entry autorun stack_obj task_obj s =
     task_dyn_create task name arg pri ticks stack entry 0 autorun stack_obj task_obj s"

section \<open>Sleeping, yielding, suspending\<close>

definition krhino_task_sleep :: "tick_t \<Rightarrow> kernel \<Rightarrow> outcome \<times> kernel" where
  "krhino_task_sleep ticks s =
     (if ticks = 0 then (Ret RHINO_INV_PARAM, s)
      else if g_intrpt_nested_level s > 0 then (Ret RHINO_NOT_CALLED_BY_INTRPT, s)
      else if g_sched_lock s > 0 then (Ret RHINO_SCHED_DISABLE, s)
      else let s = upd_task (g_active_task s) (\<lambda>k. k\<lparr>task_state := K_SLEEP\<rparr>) s;
               s = tick_list_insert (g_active_task s) ticks s;
               s = ready_list_rm (g_active_task s) s
           in (Pending, core_sched s))"

definition krhino_task_yield :: "kernel \<Rightarrow> kstat \<times> kernel" where
  "krhino_task_yield s =
     (let s = ready_list_head_to_tail (g_active_task s) s
      in (RHINO_SUCCESS, core_sched s))"

definition krhino_cur_task_get :: "kernel \<Rightarrow> tid" where
  "krhino_cur_task_get s = g_active_task s"

definition task_suspend :: "tid \<Rightarrow> kernel \<Rightarrow> kstat \<times> kernel" where
  "task_suspend task s =
     (if task = g_active_task s \<and> g_sched_lock s > 0 then (RHINO_SCHED_DISABLE, s)
      else case task_state (tasks s task) of
        K_RDY \<Rightarrow>
          (let s = upd_task task (\<lambda>k. k\<lparr>suspend_count := 1, task_state := K_SUSPENDED\<rparr>) s;
               s = ready_list_rm task s
           in (RHINO_SUCCESS, core_sched s))
      | K_SLEEP \<Rightarrow>
          (RHINO_SUCCESS, core_sched (upd_task task (\<lambda>k. k\<lparr>suspend_count := 1, task_state := K_SLEEP_SUSPENDED\<rparr>) s))
      | K_PEND \<Rightarrow>
          (RHINO_SUCCESS, core_sched (upd_task task (\<lambda>k. k\<lparr>suspend_count := 1, task_state := K_PEND_SUSPENDED\<rparr>) s))
      | K_SEED \<Rightarrow> (RHINO_INV_TASK_STATE, s)
      | K_DELETED \<Rightarrow> (RHINO_INV_TASK_STATE, s)
      | _ \<Rightarrow>
          (if suspend_count (tasks s task) = - 1 then (RHINO_SUSPENDED_COUNT_OVF, s)
           else (RHINO_SUCCESS, core_sched (upd_task task (\<lambda>k. k\<lparr>suspend_count := suspend_count k + 1\<rparr>) s))))"

definition krhino_task_suspend :: "tid \<Rightarrow> kernel \<Rightarrow> kstat \<times> kernel" where
  "krhino_task_suspend task s =
     (if task = NULL then (RHINO_NULL_PTR, s)
      else if prio (tasks s task) = RHINO_IDLE_PRI then (RHINO_TASK_SUSPEND_NOT_ALLOWED, s)
      else task_suspend task s)"

definition task_resume :: "tid \<Rightarrow> kernel \<Rightarrow> kstat \<times> kernel" where
  "task_resume task s =
     (case task_state (tasks s task) of
        K_SUSPENDED \<Rightarrow>
          (let s = upd_task task (\<lambda>k. k\<lparr>suspend_count := suspend_count k - 1\<rparr>) s;
               s = (if suspend_count (tasks s task) = 0
                    then ready_list_add task (upd_task task (\<lambda>k. k\<lparr>task_state := K_RDY\<rparr>) s) else s)
           in (RHINO_SUCCESS, core_sched s))
      | K_SLEEP_SUSPENDED \<Rightarrow>
          (let s = upd_task task (\<lambda>k. k\<lparr>suspend_count := suspend_count k - 1\<rparr>) s;
               s = (if suspend_count (tasks s task) = 0 then upd_task task (\<lambda>k. k\<lparr>task_state := K_SLEEP\<rparr>) s else s)
           in (RHINO_SUCCESS, core_sched s))
      | K_PEND_SUSPENDED \<Rightarrow>
          (let s = upd_task task (\<lambda>k. k\<lparr>suspend_count := suspend_count k - 1\<rparr>) s;
               s = (if suspend_count (tasks s task) = 0 then upd_task task (\<lambda>k. k\<lparr>task_state := K_PEND\<rparr>) s else s)
           in (RHINO_SUCCESS, core_sched s))
      | K_SEED \<Rightarrow> (RHINO_INV_TASK_STATE, s)
      | K_DELETED \<Rightarrow> (RHINO_INV_TASK_STATE, s)
      | _ \<Rightarrow> (RHINO_TASK_NOT_SUSPENDED, s))"

definition krhino_task_resume :: "tid \<Rightarrow> kernel \<Rightarrow> kstat \<times> kernel" where
  "krhino_task_resume task s = (if task = NULL then (RHINO_NULL_PTR, s) else task_resume task s)"

section \<open>Priority\<close>

text \<open>The second component is the value stored through \<^verbatim>\<open>old_pri\<close>, if any.\<close>

definition krhino_task_pri_change :: "tid \<Rightarrow> nat \<Rightarrow> ptr \<Rightarrow> kernel \<Rightarrow> kstat \<times> nat option \<times> kernel" where
  "krhino_task_pri_change task pri old_pri s =
     (if task = NULL then (RHINO_NULL_PTR, None, s)
      else if old_pri = NULL then (RHINO_NULL_PTR, None, s)
      else if prio (tasks s task) \<ge> RHINO_IDLE_PRI then (RHINO_PRI_CHG_NOT_ALLOWED, None, s)
      else if pri \<ge> RHINO_IDLE_PRI then (RHINO_PRI_CHG_NOT_ALLOWED, None, s)
      else if task_state (tasks s task) = K_DELETED then (RHINO_INV_TASK_STATE, None, s)
      else if g_intrpt_nested_level s > 0 then (RHINO_NOT_CALLED_BY_INTRPT, None, s)
      else case mutex_pri_limit task pri s of
        None \<Rightarrow> (RHINO_SUCCESS, None, fault s)
      | Some pri_limit \<Rightarrow>
          let old = prio (tasks s task);
              s = upd_task task (\<lambda>k. k\<lparr>b_prio := pri\<rparr>) s
          in (case task_pri_change task pri_limit s of
                None \<Rightarrow> (RHINO_SUCCESS, Some old, fault s)
              | Some (err, s) \<Rightarrow>
                  if err \<noteq> RHINO_SUCCESS then (err, Some old, s) else (RHINO_SUCCESS, Some old, core_sched s)))"

section \<open>Abort of waiting\<close>

definition krhino_task_wait_abort :: "tid \<Rightarrow> kernel \<Rightarrow> kstat \<times> kernel" where
  "krhino_task_wait_abort task s =
     (if task = NULL then (RHINO_NULL_PTR, s)
      else if g_intrpt_nested_level s > 0 then (RHINO_NOT_CALLED_BY_INTRPT, s)
      else if task_state (tasks s task) = K_SEED \<or> task_state (tasks s task) = K_DELETED then (RHINO_INV_TASK_STATE, s)
      else
        let s = (if task_state (tasks s task) = K_RDY then s
                 else if task_state (tasks s task) = K_SUSPENDED then
                   ready_list_add task (upd_task task (\<lambda>k. k\<lparr>task_state := K_RDY\<rparr>) s)
                 else if task_state (tasks s task) = K_SLEEP \<or> task_state (tasks s task) = K_SLEEP_SUSPENDED then
                   let s = tick_list_rm task s;
                       s = ready_list_add task s
                   in upd_task task (\<lambda>k. k\<lparr>task_state := K_RDY, blk_state := BLK_ABORT\<rparr>) s
                 else
                   let s = tick_list_rm task s;
                       s = blk_list_rm task s;
                       s = ready_list_add task s;
                       s = upd_task task (\<lambda>k. k\<lparr>task_state := K_RDY, blk_state := BLK_ABORT\<rparr>) s;
                       s = mutex_task_pri_reset task s
                   in upd_task task (\<lambda>k. k\<lparr>blk_obj := NULL\<rparr>) s)
        in (RHINO_SUCCESS, core_sched s))"

section \<open>Deletion\<close>

partial_function (option) mutex_free_loop :: "oid \<Rightarrow> kernel \<Rightarrow> kernel option" where
  "mutex_free_loop mutex s =
     (if mutex = NULL then Some s
      else let next_mutex = mutex_next (mutexes s mutex)
           in case blk_list (objs s mutex) of
                next_task # _ \<Rightarrow>
                  (let s = pend_task_wakeup next_task s;
                       s = upd_mutex mutex (\<lambda>x. x\<lparr>mutex_task := next_task, mutex_next := mutex_list (tasks s next_task)\<rparr>) s;
                       s = upd_task next_task (\<lambda>k. k\<lparr>mutex_list := mutex\<rparr>) s
                   in mutex_free_loop next_mutex s)
              | [] \<Rightarrow> mutex_free_loop next_mutex (upd_mutex mutex (\<lambda>x. x\<lparr>mutex_task := NULL\<rparr>) s))"

definition task_mutex_free :: "tid \<Rightarrow> kernel \<Rightarrow> kernel" where
  "task_mutex_free task s = (case mutex_free_loop (mutex_list (tasks s task)) s of None \<Rightarrow> fault s | Some s' \<Rightarrow> s')"

text \<open>The switch of the two deletions, \<open>None\<close> for its default.\<close>

definition task_unlink :: "tid \<Rightarrow> kernel \<Rightarrow> kernel option" where
  "task_unlink task s =
     (let del = upd_task task (\<lambda>k. k\<lparr>task_state := K_DELETED\<rparr>)
      in case task_state (tasks s task) of
           K_RDY \<Rightarrow> Some (del (ready_list_rm task s))
         | K_SUSPENDED \<Rightarrow> Some (del s)
         | K_SLEEP \<Rightarrow> Some (del (tick_list_rm task s))
         | K_SLEEP_SUSPENDED \<Rightarrow> Some (del (tick_list_rm task s))
         | K_PEND \<Rightarrow> Some (mutex_task_pri_reset task (del (blk_list_rm task (tick_list_rm task s))))
         | K_PEND_SUSPENDED \<Rightarrow> Some (mutex_task_pri_reset task (del (blk_list_rm task (tick_list_rm task s))))
         | _ \<Rightarrow> None)"

definition res_free_addr :: "tid \<Rightarrow> kernel \<Rightarrow> ptr" where
  "res_free_addr task s = task_stack_base (tasks s task) + 4 * of_nat RHINO_CONFIG_STK_CHK_WORDS"

definition krhino_task_del :: "tid \<Rightarrow> kernel \<Rightarrow> kstat \<times> kernel" where
  "krhino_task_del task s =
     (if g_intrpt_nested_level s > 0 then (RHINO_NOT_CALLED_BY_INTRPT, s)
      else let task = (if task = NULL then g_active_task s else task)
      in if prio (tasks s task) = RHINO_IDLE_PRI then (RHINO_TASK_DEL_NOT_ALLOWED, s)
      else if task_alloc_flag (tasks s task) \<noteq> K_OBJ_STATIC_ALLOC then (RHINO_KOBJ_DEL_ERR, s)
      else if task = g_active_task s \<and> g_sched_lock s > 0 then (RHINO_SCHED_DISABLE, s)
      else let s = task_mutex_free task s
      in case task_unlink task s of
           None \<Rightarrow> (RHINO_INV_TASK_STATE, s)
         | Some s \<Rightarrow>
             let s = s\<lparr>g_kobj_list := (g_kobj_list s)\<lparr>task_head := remove1 task (task_head (g_kobj_list s))\<rparr>\<rparr>;
                 s = s\<lparr>stack_mem := (stack_mem s)(res_free_addr task s := 0)\<rparr>
             in (RHINO_SUCCESS, core_sched s))"

definition krhino_task_dyn_del :: "tid \<Rightarrow> kernel \<Rightarrow> kstat \<times> kernel" where
  "krhino_task_dyn_del task s =
     (if g_intrpt_nested_level s > 0 then (RHINO_NOT_CALLED_BY_INTRPT, s)
      else let task = (if task = NULL then g_active_task s else task)
      in if prio (tasks s task) = RHINO_IDLE_PRI then (RHINO_TASK_DEL_NOT_ALLOWED, s)
      else if task_alloc_flag (tasks s task) \<noteq> K_OBJ_DYN_ALLOC then (RHINO_KOBJ_DEL_ERR, s)
      else if task = g_active_task s \<and> g_sched_lock s > 0 then (RHINO_SCHED_DISABLE, s)
      else if task_state (tasks s task) = K_DELETED then (RHINO_INV_TASK_STATE, s)
      else let base = task_stack_base (tasks s task);
               s = s\<lparr>g_sched_lock := g_sched_lock s + 1\<rparr>;
               s = s\<lparr>g_res_list := g_res_list s @ [[base, task]]\<rparr>;
               s = s\<lparr>stack_mem := write_words (res_free_addr task s) [2, base, task] (stack_mem s)\<rparr>;
               (ret, s) = krhino_sem_give (g_res_sem s) s;
               s = s\<lparr>g_sched_lock := g_sched_lock s - 1\<rparr>
      in if ret \<noteq> RHINO_SUCCESS then (ret, k_err_proc RHINO_SYS_SP_ERR s)
      else let s = task_mutex_free task s;
               s = (case task_unlink task s of None \<Rightarrow> s | Some s \<Rightarrow> s);
               s = s\<lparr>g_kobj_list := (g_kobj_list s)\<lparr>task_head := remove1 task (task_head (g_kobj_list s))\<rparr>\<rparr>
           in (RHINO_SUCCESS, core_sched s))"

definition krhino_task_deathbed :: "kernel \<Rightarrow> kstat \<times> kernel" where
  "krhino_task_deathbed s =
     (if task_alloc_flag (tasks s (krhino_cur_task_get s)) = K_OBJ_DYN_ALLOC then krhino_task_dyn_del NULL s
      else krhino_task_del NULL s)"

section \<open>Time slice, policy and user information\<close>

definition krhino_task_time_slice_set :: "tid \<Rightarrow> size_t \<Rightarrow> kernel \<Rightarrow> kstat \<times> kernel" where
  "krhino_task_time_slice_set task slice_len s =
     (if task = NULL then (RHINO_NULL_PTR, s)
      else if g_intrpt_nested_level s > 0 then (RHINO_NOT_CALLED_BY_INTRPT, s)
      else let s = upd_task task (\<lambda>k. k\<lparr>time_total := (if slice_len > 0 then slice_len else RHINO_CONFIG_TIME_SLICE_DEFAULT)\<rparr>) s;
               s = upd_task task (\<lambda>k. k\<lparr>time_slice := time_total k\<rparr>) s
           in (RHINO_SUCCESS, s))"

definition krhino_sched_policy_set :: "tid \<Rightarrow> u8 \<Rightarrow> kernel \<Rightarrow> kstat \<times> kernel" where
  "krhino_sched_policy_set task policy s =
     (if task = NULL then (RHINO_NULL_PTR, s)
      else if policy \<noteq> KSCHED_FIFO \<and> policy \<noteq> KSCHED_RR then (RHINO_INV_SCHED_WAY, s)
      else if g_intrpt_nested_level s > 0 then (RHINO_NOT_CALLED_BY_INTRPT, s)
      else (RHINO_SUCCESS, upd_task task (\<lambda>k. k\<lparr>sched_policy := policy\<rparr>) s))"

definition krhino_sched_policy_get :: "tid \<Rightarrow> ptr \<Rightarrow> kernel \<Rightarrow> kstat \<times> u8 option" where
  "krhino_sched_policy_get task policy s =
     (if task = NULL then (RHINO_NULL_PTR, None)
      else if policy = NULL then (RHINO_NULL_PTR, None)
      else if g_intrpt_nested_level s > 0 then (RHINO_NOT_CALLED_BY_INTRPT, None)
      else (RHINO_SUCCESS, Some (sched_policy (tasks s task))))"

definition krhino_task_info_set :: "tid \<Rightarrow> nat \<Rightarrow> ptr \<Rightarrow> kernel \<Rightarrow> kstat \<times> kernel" where
  "krhino_task_info_set task idx info s =
     (if task = NULL then (RHINO_NULL_PTR, s)
      else if idx \<ge> RHINO_CONFIG_TASK_INFO_NUM then (RHINO_INV_PARAM, s)
      else (RHINO_SUCCESS, upd_task task (\<lambda>k. k\<lparr>user_info := (user_info k)[idx := info]\<rparr>) s))"

definition krhino_task_info_get :: "tid \<Rightarrow> nat \<Rightarrow> ptr \<Rightarrow> kernel \<Rightarrow> kstat \<times> ptr option" where
  "krhino_task_info_get task idx info s =
     (if task = NULL then (RHINO_NULL_PTR, None)
      else if info = NULL then (RHINO_NULL_PTR, None)
      else if idx \<ge> RHINO_CONFIG_TASK_INFO_NUM then (RHINO_INV_PARAM, None)
      else (RHINO_SUCCESS, Some (user_info (tasks s task) ! idx)))"

end
