(* ===== verification/Rhino_Task_Inv.thy ===== *)
theory Rhino_Task_Inv
  imports Rhino_Task
begin

text \<open>
  The task operations keep the invariant of the kernel: creation, sleep, yield, suspension and
  resumption, the change of a priority, and the setting of the other fields of a task.
  Deletion and the abort of waiting are in the theory \<open>Rhino_Task_Del\<close>.
\<close>

section \<open>Changes of the state of one task\<close>

text \<open>Rescheduling when the running task may have stopped being ready.\<close>

lemma resched_any:
  assumes "kernel_ok s" "kinv s'" "objs_ok s'" "g_sched_lock s' = g_sched_lock s" "g_active_task s' = g_active_task s"
    and "g_sys_stat s' = g_sys_stat s" "g_idle_task_spawned s' = g_idle_task_spawned s"
    and "g_sched_lock s > 0 \<Longrightarrow> ready (tasks s' (g_active_task s))"
  shows "kernel_ok (core_sched s')"
proof -
  have "sched_ok (core_sched s')"
    using assms kernel_okD(2) [OF assms(1)] by (intro core_sched_sched_ok [OF assms(2)]) (simp_all add: sched_ok_def)
  moreover have "objs_ok (core_sched s')"
    by (rule obj_frame_ok [OF _ assms(3)]) (simp add: obj_frame_def)
  ultimately show ?thesis using core_sched_kinv [OF assms(2)] by (simp add: kernel_ok_def)
qed

definition same_pend :: "ktask \<Rightarrow> ktask \<Rightarrow> bool" where
  "same_pend k k' \<longleftrightarrow> pend_option k' = pend_option k \<and> pend_flags k' = pend_flags k"

definition same_pri :: "ktask \<Rightarrow> ktask \<Rightarrow> bool" where
  "same_pri k k' \<longleftrightarrow> prio k' = prio k \<and> b_prio k' = b_prio k \<and> mutex_list k' = mutex_list k"

text \<open>\<open>move\<close> changes the block of a task and puts other ready and tick lists in place.\<close>

definition move :: "tid \<Rightarrow> ktask \<Rightarrow> runqueue \<Rightarrow> tid list \<Rightarrow> kernel \<Rightarrow> kernel" where
  "move t k q ts s = s\<lparr>g_ready_queue := q, g_tick_head := ts, tasks := (tasks s)(t := k)\<rparr>"

lemma move_simps [simp]:
  "tasks (move t k q ts s) = (tasks s)(t := k)" "objs (move t k q ts s) = objs s" "mutexes (move t k q ts s) = mutexes s"
  "g_ready_queue (move t k q ts s) = q" "g_tick_head (move t k q ts s) = ts" "g_active_task (move t k q ts s) = g_active_task s"
  "g_sched_lock (move t k q ts s) = g_sched_lock s" "g_sys_stat (move t k q ts s) = g_sys_stat s"
  "g_idle_task_spawned (move t k q ts s) = g_idle_task_spawned s"
  "g_intrpt_nested_level (move t k q ts s) = g_intrpt_nested_level s" "g_tick_count (move t k q ts s) = g_tick_count s"
  "k_fault (move t k q ts s) = k_fault s" "sems (move t k q ts s) = sems s" "g_kobj_list (move t k q ts s) = g_kobj_list s"
  "events (move t k q ts s) = events s" "queues (move t k q ts s) = queues s" "buf_queues (move t k q ts s) = buf_queues s"
  by (simp_all add: move_def)

lemma move_eqs:
  "s\<lparr>tasks := (tasks s)(t := k), g_ready_queue := q\<rparr> = move t k q (g_tick_head s) s"
  "s\<lparr>g_ready_queue := q, tasks := (tasks s)(t := k)\<rparr> = move t k q (g_tick_head s) s"
  "s\<lparr>g_tick_head := ts, tasks := (tasks s)(t := k), g_ready_queue := q\<rparr> = move t k q ts s"
  "s\<lparr>g_tick_head := ts, g_ready_queue := q, tasks := (tasks s)(t := k)\<rparr> = move t k q ts s"
  by (rule kernel.equality; simp add: move_def)+

lemma move_obj_frame: "same_pend (tasks s t) k \<Longrightarrow> obj_frame s (move t k q ts s)"
  by (auto simp: obj_frame_def move_def same_pend_def)

lemma move_kinv:
  assumes "kinv s" "base_ok (move t k q ts s)" "live (tasks s t)" "live k" "same_pri (tasks s t) k"
    and "\<not> ready (tasks s t) \<or> prio (tasks s t) \<noteq> RHINO_IDLE_PRI \<or> ready k"
  shows "kinv (move t k q ts s)"
proof (rule kinv_mutex_frame [OF assms(1) _ assms(2)])
  show "mutex_frame s (move t k q ts s)" using assms(3-5) by (auto simp: mutex_frame_def move_def same_pri_def)
  show "none_ok {} (objs (move t k q ts s))" using kinvD(2) [OF assms(1)] by simp
  show "ready (tasks (move t k q ts s) u)" if "idle_task_ok s u" for u
    using that idle_prio [OF kinvD(4) [OF assms(1)] that] assms(6) by (auto simp: idle_task_ok_def)
qed

lemma move_ok:
  assumes "kernel_ok s" "base_ok (move t k q ts s)" "live (tasks s t)" "live k" "same_pri (tasks s t) k" "same_pend (tasks s t) k"
    and "\<not> ready (tasks s t) \<or> prio (tasks s t) \<noteq> RHINO_IDLE_PRI \<or> ready k" "t \<noteq> g_active_task s \<or> g_sched_lock s = 0 \<or> ready k"
  shows "kernel_ok (core_sched (move t k q ts s))"
proof (rule resched_any [OF assms(1)])
  show "kinv (move t k q ts s)" using move_kinv [OF kernel_okD(1) [OF assms(1)] assms(2-5,7)] .
  show "objs_ok (move t k q ts s)" using obj_frame_ok [OF move_obj_frame [OF assms(6)] kernel_okD(3) [OF assms(1)]] .
  show "ready (tasks (move t k q ts s) (g_active_task s))" if "g_sched_lock s > 0"
    using assms(8) that kernel_okD(2) [OF assms(1)] by (auto simp: sched_ok_def)
qed simp_all

text \<open>The lists after such changes.\<close>

lemma base_ok_move:
  assumes "base_ok s" "rdy_ok q ((tasks s)(t := k))" "tick_ok ts (g_tick_count s) ((tasks s)(t := k))"
    and "pended k = pended (tasks s t)" "pended (tasks s t) \<Longrightarrow> blk_obj k = blk_obj (tasks s t)"
    and "prio k = prio (tasks s t)" "live (tasks s t)"
  shows "base_ok (move t k q ts s)"
proof -
  note D = base_okD [OF assms(1)]
  have "blk_ok (objs s) ((tasks s)(t := k))" using assms D(2) by (intro blk_ok_same) auto
  moreover have "prio_ok ((tasks s)(t := k))" using D(4) assms(6,7) by (auto simp: prio_ok_def)
  ultimately show ?thesis using assms(2,3) D(5) by (simp add: base_ok_def)
qed

lemma base_ok_prio: "base_ok s \<Longrightarrow> live (tasks s t) \<Longrightarrow> prio (tasks s t) < RHINO_CONFIG_PRI_MAX"
  by (auto simp: base_ok_def prio_ok_def)

lemma base_ok_not_ticking: "base_ok s \<Longrightarrow> \<not> pended (tasks s t) \<Longrightarrow> \<not> sleeping (tasks s t) \<Longrightarrow> \<not> tick_head (tasks s t) \<and> t \<notin> set (g_tick_head s)"
  using tick_okD(2,3) [OF base_okD(3), of s t] by blast

text \<open>A task that is made ready.\<close>

lemma base_ok_make_ready:
  assumes "base_ok s" "live (tasks s t)" "\<not> ready (tasks s t)" "\<not> pended (tasks s t)"
    and "ready k" "\<not> tick_head k" "prio k = prio (tasks s t)"
  shows "base_ok (move t k (rq_add b (g_ready_queue s) (prio (tasks s t)) t) (remove1 t (g_tick_head s)) s)"
proof (rule base_ok_move [OF assms(1)])
  note D = base_okD [OF assms(1)]
  show "rdy_ok (rq_add b (g_ready_queue s) (prio (tasks s t)) t) ((tasks s)(t := k))"
    using assms base_ok_prio [OF assms(1,2)] by (intro rdy_ok_rq_add [OF D(1)]) auto
  show "tick_ok (remove1 t (g_tick_head s)) (g_tick_count s) ((tasks s)(t := k))"
    using assms(5,6) by (intro tick_ok_drop [OF D(3)]) (auto simp: state_defs)
qed (use assms in \<open>auto simp: state_defs\<close>)

text \<open>A task that stays on its lists.\<close>

lemma base_ok_stay:
  assumes "base_ok s" "\<not> ready (tasks s t)" "\<not> ready k" "live (tasks s t)" "pended k = pended (tasks s t)" "sleeping k = sleeping (tasks s t)"
    and "blk_obj k = blk_obj (tasks s t)" "prio k = prio (tasks s t)"
    and "tick_head k = tick_head (tasks s t)" "tick_match k = tick_match (tasks s t)"
  shows "base_ok (move t k (g_ready_queue s) (g_tick_head s) s)"
proof (rule base_ok_move [OF assms(1)])
  note D = base_okD [OF assms(1)]
  show "rdy_ok (g_ready_queue s) ((tasks s)(t := k))" using rdy_ok_idle_change [OF D(1) assms(2,3)] .
  show "tick_ok (g_tick_head s) (g_tick_count s) ((tasks s)(t := k))"
    using tick_okD(3,4) [OF D(3), of t] assms by (intro tick_ok_same [OF D(3)]) auto
qed (use assms in auto)

section \<open>Sleep\<close>

definition asleep :: "tick_t \<Rightarrow> tick_t \<Rightarrow> ktask \<Rightarrow> ktask" where
  "asleep now ticks k = k\<lparr>task_state := K_SLEEP, tick_match := now + ticks, tick_remain := ticks, tick_head := True\<rparr>"

lemma krhino_task_sleep_eq:
  assumes "may_block s" "ticks \<noteq> 0" "g_sched_lock s = 0"
  shows "\<exists>q ts. krhino_task_sleep ticks s
      = (Pending, core_sched (move (g_active_task s) (asleep (g_tick_count s) ticks (tasks s (g_active_task s))) q ts s))
    \<and> base_ok (move (g_active_task s) (asleep (g_tick_count s) ticks (tasks s (g_active_task s))) q ts s)"
proof -
  note b = may_blockD [OF assms(1)]
  let ?t = "g_active_task s"
  note base = kinvD(1) [OF b(2)]
  note D = base_okD [OF base]
  let ?k = "asleep (g_tick_count s) ticks (tasks s ?t)"
  have nt: "\<not> tick_head (tasks s ?t)" "?t \<notin> set (g_tick_head s)"
    using base_ok_not_ticking [OF base, of ?t] b(3) by (auto simp: state_defs)
  obtain q where q: "rq_rm (g_ready_queue s) (prio (tasks s ?t)) ?t = Some q" "\<And>k. \<not> ready k \<Longrightarrow> rdy_ok q ((tasks s)(?t := k))"
    using rdy_ok_rm [OF D(1) b(3) kinv_other [OF b(2,4)]] by blast
  define ts where "ts = insert_before_first (\<lambda>q. tick_match (tasks s q) - g_tick_count s > ticks) ?t (g_tick_head s)"
  have pos: "0 < ticks" "g_intrpt_nested_level s = 0" using assms(1,2) by (auto simp: word_gt_0 may_block_def)
  have "krhino_task_sleep ticks s = (Pending, core_sched (move ?t ?k q ts s))"
    using assms(2,3) nt pos
    by (simp add: krhino_task_sleep_def upd_task_def tick_list_insert_eq [where m = "\<lambda>q. tick_match (tasks s q)"]
      ready_list_rm_def q(1) move_eqs asleep_def ts_def)
  moreover have "base_ok (move ?t ?k q ts s)"
  proof (rule base_ok_move [OF base])
    show "rdy_ok q ((tasks s)(?t := ?k))" using q(2) by (simp add: asleep_def ready_def)
    show "tick_ok ts (g_tick_count s) ((tasks s)(?t := ?k))"
      unfolding ts_def using nt assms(2) by (intro tick_ok_insert [OF D(3)]) (simp_all add: asleep_def sleeping_def)
  qed (use b(3) in \<open>auto simp: asleep_def state_defs\<close>)
  ultimately show ?thesis by blast
qed

lemma krhino_task_sleep_ok:
  assumes "may_block s"
  shows "kernel_ok (snd (krhino_task_sleep ticks s))"
proof (cases "ticks = 0 \<or> g_sched_lock s > 0")
  case True
  then show ?thesis using may_blockD(1) [OF assms] assms by (auto simp: krhino_task_sleep_def may_block_def)
next
  case False
  note b = may_blockD [OF assms]
  have "ticks \<noteq> 0" "g_sched_lock s = 0" using False by (auto simp: word_gt_0)
  then obtain q ts where "krhino_task_sleep ticks s
      = (Pending, core_sched (move (g_active_task s) (asleep (g_tick_count s) ticks (tasks s (g_active_task s))) q ts s))"
    "base_ok (move (g_active_task s) (asleep (g_tick_count s) ticks (tasks s (g_active_task s))) q ts s)"
    using krhino_task_sleep_eq [OF assms] by blast
  then show ?thesis
    using b \<open>g_sched_lock s = 0\<close>
    by (simp, intro move_ok) (simp_all add: asleep_def same_pri_def same_pend_def state_defs)
qed

section \<open>Yield\<close>

lemma krhino_task_yield_ok:
  assumes "kernel_ok s" "g_intrpt_nested_level s = 0"
  shows "kernel_ok (snd (krhino_task_yield s))"
proof -
  let ?t = "g_active_task s"
  note k = kernel_okD(1) [OF assms(1)]
  note base = kinvD(1) [OF k]
  have rdy: "ready (tasks s ?t)" using active_ready [OF assms] .
  have "cur_list_item (g_ready_queue s) (prio (tasks s ?t)) \<noteq> []"
    using rdy rdy_ok_mem [OF base_okD(1) [OF base], of ?t "prio (tasks s ?t)"] by auto
  from rdy_ok_rotate [OF base_okD(1) [OF base] this] obtain q where
    q: "rq_head_to_tail (g_ready_queue s) (prio (tasks s ?t)) = Some q" "rdy_ok q (tasks s)" by blast
  have eq: "snd (krhino_task_yield s) = core_sched (move ?t (tasks s ?t) q (g_tick_head s) s)"
    by (simp add: krhino_task_yield_def ready_list_head_to_tail_def q(1) move_def)
  have "base_ok (move ?t (tasks s ?t) q (g_tick_head s) s)"
    using base q(2) by (simp add: base_ok_def)
  then show ?thesis
    unfolding eq using rdy by (intro move_ok [OF assms(1)]) (simp_all add: same_pri_def same_pend_def state_defs)
qed

section \<open>Suspension and resumption\<close>

text \<open>A task that is not ready and changes its state within the same lists.\<close>

definition twin :: "task_stat \<Rightarrow> task_stat \<Rightarrow> bool" where
  "twin a b \<longleftrightarrow> a = b \<or> a = K_SLEEP \<and> b = K_SLEEP_SUSPENDED \<or> a = K_SLEEP_SUSPENDED \<and> b = K_SLEEP
     \<or> a = K_PEND \<and> b = K_PEND_SUSPENDED \<or> a = K_PEND_SUSPENDED \<and> b = K_PEND"

lemma stay_ok:
  assumes "kernel_ok s" "\<not> ready (tasks s t)" "live (tasks s t)"
    and "k = (tasks s t)\<lparr>suspend_count := c, task_state := st\<rparr>" "twin st (task_state (tasks s t))"
  shows "kernel_ok (core_sched (s\<lparr>tasks := (tasks s)(t := k)\<rparr>))"
proof -
  have eq: "s\<lparr>tasks := (tasks s)(t := k)\<rparr> = move t k (g_ready_queue s) (g_tick_head s) s" by (simp add: move_def)
  have "base_ok (move t k (g_ready_queue s) (g_tick_head s) s)"
    using assms(2-5) by (intro base_ok_stay [OF kinvD(1) [OF kernel_okD(1) [OF assms(1)]]]) (auto simp: state_defs twin_def)
  moreover have "t \<noteq> g_active_task s \<or> g_sched_lock s = 0"
    using assms(2) kernel_okD(2) [OF assms(1)] by (auto simp: sched_ok_def word_gt_0)
  ultimately show ?thesis
    unfolding eq using assms(2-5)
    by (intro move_ok [OF assms(1)]) (auto simp: same_pri_def same_pend_def state_defs twin_def)
qed

lemma task_suspend_ok:
  assumes "kernel_ok s" "prio (tasks s t) \<noteq> RHINO_IDLE_PRI"
  shows "kernel_ok (snd (task_suspend t s))"
proof (cases "t = g_active_task s \<and> g_sched_lock s > 0 \<or> \<not> live (tasks s t)")
  case True
  then show ?thesis using assms(1) by (auto simp: task_suspend_def live_def)
next
  case False
  note k = kernel_okD(1) [OF assms(1)]
  note base = kinvD(1) [OF k]
  have act: "t \<noteq> g_active_task s \<or> g_sched_lock s = 0" using False by (auto simp: word_gt_0)
  show ?thesis
  proof (cases "task_state (tasks s t) = K_RDY")
    case True
    then have rdy: "ready (tasks s t)" by (simp add: ready_def)
    obtain q where q: "rq_rm (g_ready_queue s) (prio (tasks s t)) t = Some q" "\<And>k. \<not> ready k \<Longrightarrow> rdy_ok q ((tasks s)(t := k))"
      using rdy_ok_rm [OF base_okD(1) [OF base] rdy kinv_other [OF k assms(2)]] by blast
    define k where "k = (tasks s t)\<lparr>suspend_count := 1, task_state := K_SUSPENDED\<rparr>"
    have eq: "snd (task_suspend t s) = core_sched (move t k q (g_tick_head s) s)"
      using True False by (auto simp: task_suspend_def upd_task_def ready_list_rm_def q(1) move_eqs k_def)
    have "base_ok (move t k q (g_tick_head s) s)"
    proof (rule base_ok_move [OF base])
      show "rdy_ok q ((tasks s)(t := k))" using q(2) by (simp add: k_def ready_def)
      show "tick_ok (g_tick_head s) (g_tick_count s) ((tasks s)(t := k))"
        using base_ok_not_ticking [OF base, of t] rdy
        by (intro tick_ok_same [OF base_okD(3) [OF base]]) (auto simp: k_def state_defs)
    qed (use rdy in \<open>auto simp: k_def state_defs\<close>)
    then show ?thesis
      unfolding eq using rdy act assms(2)
      by (intro move_ok [OF assms(1)]) (auto simp: k_def same_pri_def same_pend_def state_defs)
  next
    case nr: False
    have lv: "live (tasks s t)" using False by simp
    have "\<not> ready (tasks s t)" using nr by (simp add: ready_def)
    note c = stay_ok [OF assms(1) this lv refl]
    have "kernel_ok (core_sched (upd_task t (\<lambda>k. k\<lparr>suspend_count := suspend_count k + 1\<rparr>) s))"
      using c [of "task_state (tasks s t)" "suspend_count (tasks s t) + 1"] by (simp add: upd_task_def twin_def)
    then show ?thesis
      using c [of K_SLEEP_SUSPENDED 1] c [of K_PEND_SUSPENDED 1] assms(1) nr
      by (cases "task_state (tasks s t)") (simp_all add: task_suspend_def upd_task_def twin_def)
  qed
qed

lemma krhino_task_suspend_ok: "kernel_ok s \<Longrightarrow> kernel_ok (snd (krhino_task_suspend t s))"
  using task_suspend_ok [of s t] by (simp add: krhino_task_suspend_def)

text \<open>A task that waits for nothing becomes ready.\<close>

lemma make_ready_ok:
  assumes "kernel_ok s" "live (tasks s t)" "\<not> ready (tasks s t)" "\<not> pended (tasks s t)"
    and "ready k" "\<not> tick_head k" "same_pri (tasks s t) k" "same_pend (tasks s t) k"
  shows "kernel_ok (core_sched (move t k (rq_add b (g_ready_queue s) (prio (tasks s t)) t) (remove1 t (g_tick_head s)) s))"
  using assms base_ok_make_ready [OF kinvD(1) [OF kernel_okD(1) [OF assms(1)]] assms(2-6)]
  by (intro move_ok) (auto simp: same_pri_def state_defs)

lemma krhino_task_resume_ok:
  assumes "kernel_ok s"
  shows "kernel_ok (snd (krhino_task_resume t s))"
proof -
  note base = kinvD(1) [OF kernel_okD(1) [OF assms]]
  let ?c = "suspend_count (tasks s t) - 1"
  have s: "kernel_ok (core_sched (s\<lparr>tasks := (tasks s)(t := (tasks s t)\<lparr>suspend_count := ?c, task_state := st\<rparr>)\<rparr>))"
    if "task_state (tasks s t) \<in> {K_SUSPENDED, K_SLEEP_SUSPENDED, K_PEND_SUSPENDED}" "twin st (task_state (tasks s t))" for st
    using that by (intro stay_ok [OF assms]) (auto simp: state_defs)
  have s0: "kernel_ok (core_sched (s\<lparr>tasks := (tasks s)(t := (tasks s t)\<lparr>suspend_count := ?c\<rparr>)\<rparr>))"
    if "task_state (tasks s t) \<in> {K_SUSPENDED, K_SLEEP_SUSPENDED, K_PEND_SUSPENDED}"
    using s [OF that, of "task_state (tasks s t)"] by (simp add: twin_def)
  show ?thesis
  proof (cases "task_state (tasks s t) = K_SUSPENDED \<and> ?c = 0")
    case True
    have nt: "\<not> tick_head (tasks s t)" "t \<notin> set (g_tick_head s)"
      using base_ok_not_ticking [OF base, of t] True by (auto simp: state_defs)
    have "snd (task_resume t s) = core_sched (move t ((tasks s t)\<lparr>suspend_count := 0, task_state := K_RDY\<rparr>)
        (rq_add (prio (tasks s t) = prio (tasks s (g_active_task s))) (g_ready_queue s) (prio (tasks s t)) t) (remove1 t (g_tick_head s)) s)"
      using True nt by (simp add: task_resume_def ready_list_add_eq upd_task_def move_eqs remove1_idem)
    moreover have "kernel_ok \<dots>"
      using True nt by (intro make_ready_ok [OF assms]) (simp_all add: same_pri_def same_pend_def state_defs)
    ultimately show ?thesis using assms by (simp add: krhino_task_resume_def)
  next
    case False
    then show ?thesis
      using s0 s [of K_SLEEP] s [of K_PEND] assms
      by (cases "suspend_count (tasks s t) = 1"; cases "task_state (tasks s t)") (simp_all add: krhino_task_resume_def task_resume_def upd_task_def twin_def Let_def)
  qed
qed

section \<open>Setting the other fields\<close>

lemma krhino_task_setters_ok:
  assumes "kernel_ok s"
  shows "kernel_ok (snd (krhino_task_time_slice_set t n s))" "kernel_ok (snd (krhino_sched_policy_set t policy s))"
    and "kernel_ok (snd (krhino_task_info_set t idx info s))"
  using assms
  by (auto simp: krhino_task_time_slice_set_def krhino_sched_policy_set_def krhino_task_info_set_def neutral_def
    intro!: neutral_ok)

section \<open>Creation\<close>

text \<open>
  A task that comes to life at an address where there is none.  The parts of the invariant are
  kept one by one, since before the start of the kernel there is no idle task yet.
\<close>

definition newborn :: "ktask \<Rightarrow> bool" where
  "newborn k \<longleftrightarrow> (ready k \<or> task_state k = K_SUSPENDED) \<and> b_prio k = prio k \<and> prio k < RHINO_CONFIG_PRI_MAX
     \<and> mutex_list k = NULL \<and> \<not> tick_head k"

definition born :: "tid \<Rightarrow> ktask \<Rightarrow> kernel \<Rightarrow> kernel" where
  "born t k s = move t k (if ready k then rq_add_tail (g_ready_queue s) (prio k) t else g_ready_queue s) (g_tick_head s) s"

lemma dead_not: "\<not> live k \<Longrightarrow> \<not> ready k \<and> \<not> pended k \<and> \<not> sleeping k"
  by (auto simp: state_defs)

lemma newborn_not: "newborn k \<Longrightarrow> live k \<and> \<not> pended k \<and> \<not> sleeping k"
  by (auto simp: newborn_def state_defs)

lemma born_base:
  assumes "base_ok s" "\<not> live (tasks s t)" "newborn k"
  shows "base_ok (born t k s)"
proof -
  note D = base_okD [OF assms(1)] and d = dead_not [OF assms(2)] and n = newborn_not [OF assms(3)]
  have "\<not> tick_head (tasks s t)" using tick_okD(3) [OF D(3)] d by blast
  then have "tick_ok (g_tick_head s) (g_tick_count s) ((tasks s)(t := k))"
    using n assms(3) by (intro tick_ok_same [OF D(3)]) (auto simp: newborn_def)
  moreover have "blk_ok (objs s) ((tasks s)(t := k))" using d n by (intro blk_ok_same [OF D(2)]) auto
  moreover have "rdy_ok (g_ready_queue (born t k s)) ((tasks s)(t := k))"
    using d assms(3) rdy_ok_add(1) [OF D(1), of t k] rdy_ok_idle_change [OF D(1), of t k] by (simp add: born_def newborn_def)
  moreover have "prio_ok ((tasks s)(t := k))" using assms(3) by (intro prio_ok_upd [OF D(4)]) (simp add: newborn_def)
  ultimately show ?thesis using D(5) by (simp add: base_ok_def born_def)
qed

lemma dead_owns_nothing:
  assumes "s_mtx_ok s" "\<not> live (tasks s t)" "t \<noteq> NULL"
  shows "s_owned s t = {}"
  using mtx_okD(3) [OF assms(1)] assms(2,3) by (auto simp: owned_def mutex_wf_def)

lemma born_mtx:
  assumes "s_mtx_ok s" "\<not> live (tasks s t)" "t \<noteq> NULL" "newborn k"
  shows "s_mtx_ok (born t k s)"
proof -
  have "mtx_ok (objs s) (mutexes s) ((tasks s)(t := k))"
    unfolding mtx_ok_def
  proof (intro conjI allI impI)
    fix u
    assume l: "live (((tasks s)(t := k)) u)"
    then show "u \<noteq> NULL" using mtx_okD(2) [OF assms(1), of u] assms(3) by (auto split: if_splits)
    show "\<exists>ms. chain_of (mutexes s) (((tasks s)(t := k)) u) ms \<and> set ms = s_owned s u"
      using l mtx_okD(1) [OF assms(1), of u] dead_owns_nothing [OF assms(1-3)] assms(4)
      by (cases "u = t") (auto simp: chain_of_def newborn_def intro!: exI [of _ "[]"])
  next
    fix m
    assume "is_mutex (objs s) m"
    then show "mutex_wf (objs s) (mutexes s) ((tasks s)(t := k)) m"
      using mtx_okD(3) [OF assms(1)] newborn_not [OF assms(4)] by (auto simp: mutex_wf_def)
  qed
  then show ?thesis by (simp add: born_def)
qed

lemma born_pi:
  assumes "base_ok s" "s_mtx_ok s" "s_pi_ok s" "\<not> live (tasks s t)" "t \<noteq> NULL" "newborn k"
  shows "s_pi_ok (born t k s)"
  unfolding pi_ok_def
proof (intro allI impI)
  fix u
  assume l: "live (tasks (born t k s) u)"
  have nw: "t \<notin> s_waiters s u"
    using waiters_iff [OF base_okD(2) [OF assms(1)], of t u] dead_not [OF assms(4)] by blast
  show "pi_exact no_extra (objs (born t k s)) (mutexes (born t k s)) (tasks (born t k s)) u"
  proof (cases "u = t")
    case True
    with dead_owns_nothing [OF assms(2,4,5)] assms(6) show ?thesis
      by (simp add: pi_exact_def pri_target_def waiters_def born_def newborn_def)
  next
    case False
    have "(\<lambda>w. prio (((tasks s)(t := k)) w)) ` s_waiters s u = (\<lambda>w. prio (tasks s w)) ` s_waiters s u"
      using nw by (intro image_cong) auto
    with False l assms(3) show ?thesis by (simp add: pi_ok_def pi_exact_def pri_target_def born_def)
  qed
qed

lemma born_kinv:
  assumes "kinv s" "\<not> live (tasks s t)" "t \<noteq> NULL" "newborn k" "prio k < RHINO_IDLE_PRI"
  shows "kinv (born t k s)"
proof (rule kinvI)
  note K = kinvD [OF assms(1)]
  show "base_ok (born t k s)" using born_base [OF K(1) assms(2,4)] .
  show "s_mtx_ok (born t k s)" using born_mtx [OF K(3) assms(2-4)] .
  show "s_pi_ok (born t k s)" using born_pi [OF K(1,3,4) assms(2-4)] .
  show "none_ok {} (objs (born t k s))" using K(2) by (simp add: born_def)
  obtain u where u: "idle_task_ok s u" using K(5) by (auto simp: idle_ok_def)
  then have "u \<noteq> t" using dead_not [OF assms(2)] by (auto simp: idle_task_ok_def)
  then have "idle_task_ok (born t k s) u" using u assms(4,5) by (auto simp: idle_task_ok_def born_def newborn_def)
  then show "idle_ok (born t k s)" by (auto simp: idle_ok_def)
qed

lemma born_obj_frame:
  assumes "base_ok s" "\<not> live (tasks s t)"
  shows "obj_frame s (born t k s)"
proof -
  have "t \<notin> set (blk_list (objs s i))" for i
    using blk_okD(2) [OF base_okD(2) [OF assms(1)], of t i] dead_not [OF assms(2)] by blast
  then show ?thesis by (auto simp: obj_frame_def born_def)
qed

lemma new_task_newborn:
  assumes "pri < RHINO_CONFIG_PRI_MAX"
  shows "newborn (new_task name pri ticks buf n autorun alloc cpu stk)"
    and "ready (new_task name pri ticks buf n autorun alloc cpu stk) \<longleftrightarrow> autorun > 0"
    and "prio (new_task name pri ticks buf n autorun alloc cpu stk) = pri"
    and "b_prio (new_task name pri ticks buf n autorun alloc cpu stk) = pri"
  using assms by (simp_all add: newborn_def new_task_def zero_task_def state_defs Let_def)

text \<open>Where creation is not refused, it is a birth, and the scheduler runs if the task may.\<close>

definition enrolled :: "tid \<Rightarrow> nat \<Rightarrow> (ptr \<Rightarrow> u32) \<Rightarrow> kernel \<Rightarrow> kernel" where
  "enrolled t pri mem s = s\<lparr>g_idle_task_spawned := (if pri = RHINO_IDLE_PRI then 1 else g_idle_task_spawned s), stack_mem := mem,
     g_kobj_list := (g_kobj_list s)\<lparr>task_head := task_head (g_kobj_list s) @ [t]\<rparr>\<rparr>"

lemma born_enrolled:
  assumes "ready k \<longleftrightarrow> autorun" "prio k = pri"
  shows "born t k (enrolled t pri mem s) =
     (let s1 = upd_task t (\<lambda>_. k) ((if pri = RHINO_IDLE_PRI then s\<lparr>g_idle_task_spawned := 1\<rparr> else s)\<lparr>stack_mem := mem\<rparr>);
          s1 = s1\<lparr>g_kobj_list := (g_kobj_list s1)\<lparr>task_head := task_head (g_kobj_list s1) @ [t]\<rparr>\<rparr>
      in if autorun then ready_list_add_tail t s1 else s1)"
  using assms by (cases autorun; cases "pri = RHINO_IDLE_PRI";
    intro kernel.equality; simp add: enrolled_def born_def move_def upd_task_def ready_list_add_tail_def Let_def)

lemma task_create_eq:
  assumes "fst (task_create t name arg pri ticks buf n entry autorun alloc cpu s) = RHINO_SUCCESS"
  shows "t \<noteq> NULL" "pri < RHINO_CONFIG_PRI_MAX" "g_intrpt_nested_level s = 0" "pri = RHINO_IDLE_PRI \<Longrightarrow> g_idle_task_spawned s = 0"
    and "\<exists>stk mem. let s1 = born t (new_task name pri ticks buf n autorun alloc cpu stk) (enrolled t pri mem s)
      in snd (task_create t name arg pri ticks buf n entry autorun alloc cpu s)
        = (if autorun > 0 \<and> g_sys_stat s = RHINO_RUNNING then core_sched s1 else s1)"
proof -
  have g: "t \<noteq> NULL" "name \<noteq> NULL" "entry \<noteq> NULL" "buf \<noteq> NULL" "n \<noteq> 0" "\<not> pri \<ge> RHINO_CONFIG_PRI_MAX"
    "\<not> g_intrpt_nested_level s > 0" "\<not> (pri = RHINO_IDLE_PRI \<and> g_idle_task_spawned s > 0)"
    by (rule notI; use assms in \<open>simp add: task_create_def split: if_splits\<close>)+
  then show "t \<noteq> NULL" "pri < RHINO_CONFIG_PRI_MAX" "g_intrpt_nested_level s = 0" "pri = RHINO_IDLE_PRI \<Longrightarrow> g_idle_task_spawned s = 0"
    by (auto simp: word_gt_0)
  obtain stk mem where st: "task_stack_setup buf n arg entry (deathbed_addr s) (stack_mem s) = (stk, mem)" by force
  define s0 where "s0 = (if pri = RHINO_IDLE_PRI then s\<lparr>g_idle_task_spawned := 1\<rparr> else s)"
  have d: "deathbed_addr s0 = deathbed_addr s" "stack_mem s0 = stack_mem s" "g_sys_stat s0 = g_sys_stat s" by (auto simp: s0_def)
  let ?k = "new_task name pri ticks buf n autorun alloc cpu stk"
  have k: "ready ?k \<longleftrightarrow> autorun > 0" "prio ?k = pri" using new_task_newborn g by (auto simp: not_le)
  have st0: "g_sys_stat (ready_list_add_tail t s') = g_sys_stat s'" "g_sys_stat (upd_task t f s') = g_sys_stat s'" for f s'
    by (simp_all add: ready_list_add_tail_def upd_task_def)
  have "snd (task_create t name arg pri ticks buf n entry autorun alloc cpu s)
        = (let s1 = born t ?k (enrolled t pri mem s)
           in if autorun > 0 \<and> g_sys_stat s = RHINO_RUNNING then core_sched s1 else s1)"
    unfolding task_create_def born_enrolled [OF k] if_not_P [OF g(1)] if_not_P [OF g(2)] if_not_P [OF g(3)] if_not_P [OF g(4)]
      if_not_P [OF g(5)] if_not_P [OF g(6)] if_not_P [OF g(7)] if_not_P [OF g(8)] s0_def [symmetric]
    by (cases "autorun > 0") (simp_all add: Let_def d st st0)
  then show "\<exists>stk mem. let s1 = born t (new_task name pri ticks buf n autorun alloc cpu stk) (enrolled t pri mem s)
      in snd (task_create t name arg pri ticks buf n entry autorun alloc cpu s)
        = (if autorun > 0 \<and> g_sys_stat s = RHINO_RUNNING then core_sched s1 else s1)"
    unfolding Let_def by blast
qed

lemma task_create_refused:
  "fst (task_create t name arg pri ticks buf n entry autorun alloc cpu s) \<noteq> RHINO_SUCCESS \<Longrightarrow>
     snd (task_create t name arg pri ticks buf n entry autorun alloc cpu s) = s"
  by (auto simp: task_create_def Let_def split: if_splits prod.splits)

lemma enrolled_simps [simp]:
  "tasks (enrolled t p mem s) = tasks s" "objs (enrolled t p mem s) = objs s" "mutexes (enrolled t p mem s) = mutexes s"
  "g_ready_queue (enrolled t p mem s) = g_ready_queue s" "g_sys_stat (enrolled t p mem s) = g_sys_stat s"
  "base_ok (enrolled t p mem s) = base_ok s" "kinvx X (enrolled t p mem s) = kinvx X s" "objs_ok (enrolled t p mem s) = objs_ok s"
  "g_idle_task_spawned (enrolled t p mem s) = (if p = RHINO_IDLE_PRI then 1 else g_idle_task_spawned s)"
  by (simp_all add: enrolled_def objs_ok_def)

lemma enrolled_ok: "kernel_ok s \<Longrightarrow> kernel_ok (enrolled t p mem s)"
  by (simp add: kernel_ok_def) (simp add: sched_ok_def enrolled_def)

lemma task_create_ok:
  assumes "kernel_ok s" "\<not> live (tasks s t)"
  shows "kernel_ok (snd (task_create t name arg pri ticks buf n entry autorun alloc cpu s))"
proof (cases "fst (task_create t name arg pri ticks buf n entry autorun alloc cpu s) = RHINO_SUCCESS")
  case False
  with task_create_refused assms(1) show ?thesis by metis
next
  case True
  note g = task_create_eq [OF True]
  obtain stk mem where eq: "snd (task_create t name arg pri ticks buf n entry autorun alloc cpu s)
      = (if autorun > 0 \<and> g_sys_stat s = RHINO_RUNNING
         then core_sched (born t (new_task name pri ticks buf n autorun alloc cpu stk) (enrolled t pri mem s))
         else born t (new_task name pri ticks buf n autorun alloc cpu stk) (enrolled t pri mem s))"
    using g(5) unfolding Let_def by blast
  define k where "k = new_task name pri ticks buf n autorun alloc cpu stk"
  define s0 where "s0 = enrolled t pri mem s"
  have run: "g_sys_stat s = RHINO_RUNNING" and "g_idle_task_spawned s > 0" using kernel_okD(2) [OF assms(1)] by (auto simp: sched_ok_def)
  then have "pri \<noteq> RHINO_IDLE_PRI" using g(4) by auto
  then have pri: "pri < RHINO_IDLE_PRI" using g(2) by (simp add: RHINO_IDLE_PRI_def RHINO_CONFIG_PRI_MAX_def)
  note k = new_task_newborn [OF g(2), of name ticks buf n autorun alloc cpu stk, folded k_def]
  have s0: "kernel_ok s0" "\<not> live (tasks s0 t)" using enrolled_ok [OF assms(1)] assms(2) by (simp_all add: s0_def)
  note s0k = kernel_okD(1) [OF s0(1)]
  have b: "kinv (born t k s0)" using k pri by (intro born_kinv [OF s0k s0(2) g(1)]) auto
  have "objs_ok (born t k s0)" using obj_frame_ok [OF born_obj_frame [OF kinvD(1) [OF s0k] s0(2)] kernel_okD(3) [OF s0(1)]] .
  moreover have rd: "ready (tasks s0 u) \<Longrightarrow> ready (tasks (born t k s0) u)" for u
    using s0(2) dead_not by (auto simp: born_def)
  moreover from rd have "run_frame s0 (born t k s0)" by (simp add: run_frame_def born_def)
  ultimately have "kernel_ok (core_sched (born t k s0))" "sched_ok (born t k s0) \<Longrightarrow> kernel_ok (born t k s0)"
    using resched_ok [OF s0(1) b] b by (auto simp: kernel_ok_def)
  moreover have "sched_ok (born t k s0)" if "\<not> autorun > 0"
    using that k(2) rd by (intro sched_ok_same [OF kernel_okD(2) [OF s0(1)]]) (auto simp: born_def)
  ultimately show ?thesis using eq run by (simp add: k_def s0_def)
qed

lemma krhino_task_create_ok:
  "kernel_ok s \<Longrightarrow> \<not> live (tasks s t) \<Longrightarrow> kernel_ok (snd (krhino_task_create t name arg pri ticks buf n entry autorun s))"
  by (simp add: krhino_task_create_def task_create_ok)

lemma krhino_task_dyn_create_ok:
  assumes "kernel_ok s" "\<not> live (tasks s task_obj)"
  shows "kernel_ok (snd (snd (krhino_task_dyn_create t name arg pri ticks n entry autorun stack_obj task_obj s)))"
  using assms task_create_ok [OF assms, of name arg pri ticks stack_obj n entry autorun K_OBJ_DYN_ALLOC 0]
  by (auto simp: krhino_task_dyn_create_def task_dyn_create_def Let_def split: prod.splits)

section \<open>Change of the priority\<close>

text \<open>The new base priority, and the priority that goes with it.\<close>

lemma rebase_ok:
  assumes "kinv s" "live (tasks s t)" "prio (tasks s t) < RHINO_IDLE_PRI" "p < RHINO_IDLE_PRI"
  defines "s1 \<equiv> upd_task t (\<lambda>k. k\<lparr>b_prio := p\<rparr>) s"
  shows "pri_pre no_extra t (s_target no_extra s1 t) s1" "s_mtx_ok s1" "none_ok {} (objs s1)" "idle_ok s1"
    and "mutex_pri_limit t p s = Some (s_target no_extra s1 t)"
proof -
  note K = kinvD [OF assms(1)]
  have T: "prio (tasks s1 u) = prio (tasks s u)" "task_state (tasks s1 u) = task_state (tasks s u)"
    "mutex_list (tasks s1 u) = mutex_list (tasks s u)" "live (tasks s1 u) = live (tasks s u)" "ready (tasks s1 u) = ready (tasks s u)"
    "b_prio (tasks s1 u) = (if u = t then p else b_prio (tasks s u))" "objs s1 = objs s" "mutexes s1 = mutexes s" for u
    by (simp_all add: s1_def upd_task_def state_defs)
  have b1: "base_ok s1" unfolding s1_def upd_task_def by (rule base_ok_task [OF K(1)]) simp_all
  show m1: "s_mtx_ok s1" using K(3) unfolding mtx_ok_def chain_of_def mutex_wf_def T .
  show "none_ok {} (objs s1)" using K(2) by (simp add: T)
  obtain u where u: "idle_task_ok s u" using K(5) by (auto simp: idle_ok_def)
  have "u \<noteq> t" using idle_other(1) [OF K(4) u, of t] assms(3) by auto
  then have "idle_task_ok s1 u" using u assms(4) by (simp add: idle_task_ok_def T)
  then show i1: "idle_ok s1" by (auto simp: idle_ok_def)
  have "pi_exact no_extra (objs s1) (mutexes s1) (tasks s1) u" if "u \<noteq> t" "live (tasks s1 u)" for u
    using K(4) that unfolding pi_ok_def pi_exact_def pri_target_def T by simp
  then show "pri_pre no_extra t (s_target no_extra s1 t) s1"
    using b1 m1 i1 assms(2,4) by (intro pri_preI) (auto simp: T)
  obtain ms where ms: "chain_of (mutexes s) (tasks s t) ms" "set ms = s_owned s t" using mtx_okD(1) [OF K(3) assms(2)] by blast
  have fb: "first_blk_pri s1 m a = first_blk_pri s m a" for m a by (simp add: first_blk_pri_def T split: list.split)
  have "mutex_pri_limit t p s = Some (chain_pri s p ms)"
    unfolding mutex_pri_limit_def using ms(1) by (intro pri_limit_loop_chain) (simp_all add: chain_of_def)
  also have "chain_pri s p ms = chain_pri s1 (b_prio (tasks s1 t)) ms" by (simp add: chain_pri_def fb T)
  also have "\<dots> = s_target no_extra s1 t"
    using ms(2) by (intro chain_pri_target [OF base_okD(2) [OF b1] m1]) (simp add: T)
  finally show "mutex_pri_limit t p s = Some (s_target no_extra s1 t)" .
qed

lemma krhino_task_pri_change_ok:
  assumes "kernel_ok s" "task_state (tasks s t) \<noteq> K_SEED"
  shows "kernel_ok (snd (snd (krhino_task_pri_change t p old s)))"
proof (cases "t = NULL \<or> old = NULL \<or> prio (tasks s t) \<ge> RHINO_IDLE_PRI \<or> p \<ge> RHINO_IDLE_PRI
    \<or> task_state (tasks s t) = K_DELETED \<or> g_intrpt_nested_level s > 0")
  case True
  then show ?thesis using assms(1) by (auto simp: krhino_task_pri_change_def)
next
  case False
  define s1 where "s1 = upd_task t (\<lambda>k. k\<lparr>b_prio := p\<rparr>) s"
  have "live (tasks s t)" using False assms(2) by (simp add: live_def)
  then have pre: "pri_pre no_extra t (s_target no_extra s1 t) s1" "s_mtx_ok s1" "none_ok {} (objs s1)" "idle_ok s1"
    "mutex_pri_limit t p s = Some (s_target no_extra s1 t)"
    using rebase_ok [OF kernel_okD(1) [OF assms(1)], of t p] False unfolding s1_def by auto
  obtain s2 where s2: "task_pri_change t (s_target no_extra s1 t) s1 = Some (RHINO_SUCCESS, s2)" "pri_post no_extra s1 s2"
    using task_pri_change_exact [OF pre(1)] by blast
  have k2: "kinv s2" using kinv_pri_post [OF s2(2) pre(2-4)] .
  have re: "reprio s1 s2" using s2(2) by (simp add: pri_post_def)
  have "obj_frame s s1" "run_frame s s1" by (auto simp: s1_def upd_task_def obj_frame_def run_frame_def ready_def)
  then have "obj_frame s s2" "run_frame s s2" using reprio_frames [OF re] obj_frame_trans run_frame_trans by blast+
  then have "kernel_ok (core_sched s2)" using obj_frame_ok kernel_okD(3) [OF assms(1)] by (intro resched_ok [OF assms(1) k2]) auto
  then show ?thesis using False pre(5) s2(1) by (simp add: krhino_task_pri_change_def s1_def)
qed

section \<open>A task that gives up waiting\<close>

lemma left_base:
  assumes "base_ok s" "pended (tasks s t)" "\<not> pended k" "\<not> sleeping k" "\<not> tick_head k" "prio k = prio (tasks s t)"
  shows "base_ok (left_state t k (if ready k then rq_add b (g_ready_queue s) (prio (tasks s t)) t else g_ready_queue s)
    (remove1 t (g_tick_head s)) s)"
proof -
  note D = base_okD [OF assms(1)]
  have n: "\<not> ready (tasks s t)" and p: "prio (tasks s t) < RHINO_CONFIG_PRI_MAX"
    using assms(2) base_ok_prio [OF assms(1) pended_live [OF assms(2)]] by (auto simp: state_defs)
  have "rdy_ok (if ready k then rq_add b (g_ready_queue s) (prio (tasks s t)) t else g_ready_queue s) ((tasks s)(t := k))"
    using rdy_ok_rq_add [OF D(1) n] rdy_ok_idle_change [OF D(1) n] assms(6) p by simp
  moreover note blk_ok_rm [OF D(2) assms(2,3) refl] tick_ok_drop [OF D(3) assms(5,4)]
  moreover have "prio_ok ((tasks s)(t := k))" using p assms(6) by (intro prio_ok_upd [OF D(4)]) simp
  ultimately show ?thesis using D(5) by (simp add: base_ok_def left_state_def)
qed

lemma left_frames:
  assumes "blk_ok (objs s) (tasks s)" "pended (tasks s t)"
  shows "obj_frame s (left_state t k q ts s)" "\<not> live k \<or> run_frame s (left_state t k q ts s)"
    and "g_active_task (left_state t k q ts s) = g_active_task s" "g_sched_lock (left_state t k q ts s) = g_sched_lock s"
    and "g_sys_stat (left_state t k q ts s) = g_sys_stat s" "g_idle_task_spawned (left_state t k q ts s) = g_idle_task_spawned s"
proof -
  show "obj_frame s (left_state t k q ts s)"
    using left_state_blk [OF assms(1), of t k q ts] by (simp add: obj_frame_def) (simp add: left_state_def)
  show "\<not> live k \<or> run_frame s (left_state t k q ts s)"
    using assms(2) by (auto simp: run_frame_def left_state_def state_defs)
qed (simp_all add: left_state_def)

text \<open>The task is off its lists, the priority of the owner is adjusted, and the object is forgotten.\<close>

lemma forget_kinv:
  assumes "kinv s" "\<not> pended (tasks s t)"
  shows "kinv (upd_task t (\<lambda>k. k\<lparr>blk_obj := NULL\<rparr>) s)"
proof (rule kinv_mutex_frame [OF assms(1)])
  let ?k = "(tasks s t)\<lparr>blk_obj := NULL\<rparr>"
  note D = base_okD [OF kinvD(1) [OF assms(1)]]
  have "blk_ok (objs s) ((tasks s)(t := ?k))" using assms(2) by (intro blk_ok_same [OF D(2)]) (auto simp: pended_def)
  moreover have "rdy_ok (g_ready_queue s) ((tasks s)(t := ?k))" by (rule rdy_ok_same [OF D(1)]) simp_all
  moreover have "tick_ok (g_tick_head s) (g_tick_count s) ((tasks s)(t := ?k))"
    using tick_okD(3,4) [OF D(3), of t] by (intro tick_ok_same [OF D(3)]) (auto simp: state_defs)
  moreover have "prio_ok ((tasks s)(t := ?k))" using D(4) by (auto simp: prio_ok_def live_def)
  ultimately show "base_ok (upd_task t (\<lambda>k. k\<lparr>blk_obj := NULL\<rparr>) s)" using D(5) by (simp add: base_ok_def upd_task_def)
  show "mutex_frame s (upd_task t (\<lambda>k. k\<lparr>blk_obj := NULL\<rparr>) s)" by (auto simp: mutex_frame_def upd_task_def live_def)
  show "none_ok {} (objs (upd_task t (\<lambda>k. k\<lparr>blk_obj := NULL\<rparr>) s))" using kinvD(2) [OF assms(1)] by (simp add: upd_task_def)
qed (auto simp: idle_task_ok_def upd_task_def ready_def)

lemma waiter_gone:
  fixes b :: bool
  assumes "kinv s" "pended (tasks s t)"
    and "live k" "\<not> pended k" "\<not> sleeping k" "\<not> tick_head k" "blk_obj k = blk_obj (tasks s t)" "same_pri (tasks s t) k"
  defines "s1 \<equiv> left_state t k (if ready k then rq_add b (g_ready_queue s) (prio (tasks s t)) t else g_ready_queue s)
    (remove1 t (g_tick_head s)) s"
  defines "s2 \<equiv> upd_task t (\<lambda>k. k\<lparr>blk_obj := NULL\<rparr>) (mutex_task_pri_reset t s1)"
  shows "kinv s2" "obj_frame s s2" "run_frame s s2"
    and "u \<noteq> t \<Longrightarrow> tasks s2 u = (tasks s u)\<lparr>prio := prio (tasks s2 u)\<rparr>" "tasks s2 t = k\<lparr>prio := prio (tasks s2 t), blk_obj := NULL\<rparr>"
    and "g_tick_head s2 = remove1 t (g_tick_head s)" "g_tick_count s2 = g_tick_count s" "mutexes s2 = mutexes s"
proof -
  have "prio k = prio (tasks s t)" using assms(8) by (simp add: same_pri_def)
  from left_base [OF kinvD(1) [OF assms(1)] assms(2,4-6) this] have b: "base_ok s1" unfolding s1_def .
  have "left_ok t k s" using assms(3,4,7,8) by (simp add: left_ok_def same_pri_def)
  note w = waiter_left [OF assms(1,2) this b [unfolded s1_def], folded s1_def]
  note r = reprio_frames [OF w(2)]
  have "\<not> pended (tasks (mutex_task_pri_reset t s1) t)"
    using assms(4) reprio_same [OF w(2)] by (simp add: s1_def pended_def)
  then show "kinv s2" unfolding s2_def by (rule forget_kinv [OF w(1)])
  note l = left_frames [OF base_okD(2) [OF kinvD(1) [OF assms(1)]] assms(2), folded s1_def]
  have "obj_frame (mutex_task_pri_reset t s1) s2" "run_frame (mutex_task_pri_reset t s1) s2"
    by (auto simp: s2_def upd_task_def obj_frame_def run_frame_def ready_def)
  moreover have "obj_frame s s1" "run_frame s s1" using l assms(3) unfolding s1_def by auto
  ultimately show "obj_frame s s2" "run_frame s s2" using r obj_frame_trans run_frame_trans by blast+
  obtain q B T where e: "mutex_task_pri_reset t s1 = s1\<lparr>g_ready_queue := q, objs := B, tasks := T\<rparr>" "\<And>u. T u = (tasks s1 u)\<lparr>prio := prio (T u)\<rparr>"
    using w(2) unfolding reprio_def by blast
  have f1: "tasks s1 = (tasks s)(t := k)" "g_tick_head s1 = remove1 t (g_tick_head s)" "g_tick_count s1 = g_tick_count s" "mutexes s1 = mutexes s"
    by (simp_all add: s1_def left_state_def)
  show "u \<noteq> t \<Longrightarrow> tasks s2 u = (tasks s u)\<lparr>prio := prio (tasks s2 u)\<rparr>"
    using e(2) [of u] by (simp add: s2_def e(1) upd_task_def f1)
  show "tasks s2 t = k\<lparr>prio := prio (tasks s2 t), blk_obj := NULL\<rparr>"
    using arg_cong [where f = "\<lambda>k. k\<lparr>blk_obj := NULL\<rparr>", OF e(2) [of t]] by (simp add: s2_def e(1) upd_task_def f1)
  show "g_tick_head s2 = remove1 t (g_tick_head s)" "g_tick_count s2 = g_tick_count s" "mutexes s2 = mutexes s"
    by (simp_all add: s2_def e(1) upd_task_def f1)
qed

subsection \<open>Abort\<close>

lemma abort_wait_ok:
  assumes "kernel_ok s" "pended (tasks s t)"
  shows "kernel_ok (core_sched (upd_task t (\<lambda>k. k\<lparr>blk_obj := NULL\<rparr>) (mutex_task_pri_reset t
    (upd_task t (\<lambda>k. k\<lparr>task_state := K_RDY, blk_state := BLK_ABORT\<rparr>) (ready_list_add t (blk_list_rm t (tick_list_rm t s)))))))"
proof -
  note k = kernel_okD(1) [OF assms(1)]
  note m = base_ok_mem(1) [OF kinvD(1) [OF k] assms(2)] base_ok_mem(2) [OF kinvD(1) [OF k], of t]
  define k' where "k' = (tasks s t)\<lparr>tick_head := False, task_state := K_RDY, blk_state := BLK_ABORT\<rparr>"
  define b where "b = (prio (tasks s t) = prio (tasks s (g_active_task s)))"
  have eq: "upd_task t (\<lambda>k. k\<lparr>task_state := K_RDY, blk_state := BLK_ABORT\<rparr>) (ready_list_add t (blk_list_rm t (tick_list_rm t s)))
      = left_state t k' (rq_add b (g_ready_queue s) (prio (tasks s t)) t) (remove1 t (g_tick_head s)) s"
    by (simp add: m tick_list_rm_eq blk_list_rm_eq ready_list_add_eq upd_task_def left_state_def k'_def b_def if_distrib [of prio] cong: if_cong)
  have k': "live k'" "\<not> pended k'" "\<not> sleeping k'" "\<not> tick_head k'" "blk_obj k' = blk_obj (tasks s t)" "same_pri (tasks s t) k'"
    by (simp_all add: k'_def state_defs same_pri_def)
  have "ready k'" by (simp add: k'_def ready_def)
  note w = waiter_gone [OF k assms(2) k', where b = b, unfolded if_P [OF this], folded eq]
  show ?thesis
    using obj_frame_ok [OF w(2) kernel_okD(3) [OF assms(1)]] by (rule resched_ok [OF assms(1) w(1,3)])
qed

lemma krhino_task_wait_abort_ok:
  assumes "kernel_ok s"
  shows "kernel_ok (snd (krhino_task_wait_abort t s))"
proof (cases "t = NULL \<or> g_intrpt_nested_level s > 0 \<or> \<not> live (tasks s t)")
  case True
  then show ?thesis using assms by (auto simp: krhino_task_wait_abort_def live_def)
next
  case False
  note base = kinvD(1) [OF kernel_okD(1) [OF assms]]
  let ?q = "rq_add (prio (tasks s t) = prio (tasks s (g_active_task s))) (g_ready_queue s) (prio (tasks s t)) t"
  consider "ready (tasks s t)" | "pended (tasks s t)" | "task_state (tasks s t) = K_SUSPENDED" | "sleeping (tasks s t)"
    using False by (cases "task_state (tasks s t)") (auto simp: state_defs)
  then show ?thesis
  proof cases
    case 1
    then have "snd (krhino_task_wait_abort t s) = core_sched s"
      using False by (auto simp: krhino_task_wait_abort_def ready_def)
    moreover have "kernel_ok (core_sched s)"
      using kernel_okD(1,3) [OF assms] by (intro resched_ok [OF assms]) auto
    ultimately show ?thesis by simp
  next
    case 2
    then have "snd (krhino_task_wait_abort t s) = core_sched (upd_task t (\<lambda>k. k\<lparr>blk_obj := NULL\<rparr>) (mutex_task_pri_reset t
        (upd_task t (\<lambda>k. k\<lparr>task_state := K_RDY, blk_state := BLK_ABORT\<rparr>) (ready_list_add t (blk_list_rm t (tick_list_rm t s))))))"
      using False by (auto simp: krhino_task_wait_abort_def Let_def pended_def)
    with abort_wait_ok [OF assms 2] show ?thesis by simp
  next
    case 3
    have nt: "\<not> tick_head (tasks s t)" "t \<notin> set (g_tick_head s)"
      using base_ok_not_ticking [OF base, of t] 3 by (auto simp: state_defs)
    have "snd (krhino_task_wait_abort t s) = core_sched (move t ((tasks s t)\<lparr>task_state := K_RDY\<rparr>) ?q (remove1 t (g_tick_head s)) s)"
      using False 3 nt by (simp add: krhino_task_wait_abort_def ready_list_add_eq upd_task_def move_eqs remove1_idem)
    moreover have "kernel_ok \<dots>"
      using 3 nt by (intro make_ready_ok [OF assms]) (simp_all add: same_pri_def same_pend_def state_defs)
    ultimately show ?thesis by simp
  next
    case 4
    have "snd (krhino_task_wait_abort t s) = core_sched
        (move t ((tasks s t)\<lparr>tick_head := False, task_state := K_RDY, blk_state := BLK_ABORT\<rparr>) ?q (remove1 t (g_tick_head s)) s)"
    proof -
      have "upd_task t (\<lambda>k. k\<lparr>task_state := K_RDY, blk_state := BLK_ABORT\<rparr>) (ready_list_add t (tick_list_rm t s))
          = move t ((tasks s t)\<lparr>tick_head := False, task_state := K_RDY, blk_state := BLK_ABORT\<rparr>) ?q (remove1 t (g_tick_head s)) s"
        by (simp add: base_ok_mem(2) [OF base, of t] tick_list_rm_eq ready_list_add_eq upd_task_def move_def
          if_distrib [of prio] cong: if_cong)
      moreover have "task_state (tasks s t) = K_SLEEP \<or> task_state (tasks s t) = K_SLEEP_SUSPENDED" using 4 by (simp add: sleeping_def)
      ultimately show ?thesis using False by (elim disjE) (simp_all add: krhino_task_wait_abort_def Let_def)
    qed
    moreover have "kernel_ok \<dots>"
      using 4 by (intro make_ready_ok [OF assms]) (auto simp: same_pri_def same_pend_def state_defs)
    ultimately show ?thesis by simp
  qed
qed

end
