(* ===== verification/Rhino_Task_Del.thy ===== *)
theory Rhino_Task_Del
  imports Rhino_Task_Inv
begin

text \<open>
  Deletion of tasks keeps the invariant of the kernel.  While \<^verbatim>\<open>task_mutex_free\<close> gives the mutexes
  of the task away, its own chain and priority are left behind; \<open>ghost\<close> is the state in which the
  rest of the chain is all the task holds and its priority is its own, and in that state the
  invariant holds at every round.
\<close>

section \<open>Giving the mutexes away\<close>

definition ghost :: "tid \<Rightarrow> oid \<Rightarrow> kernel \<Rightarrow> kernel" where
  "ghost t p s = upd_task t (\<lambda>k. k\<lparr>b_prio := prio k, mutex_list := p\<rparr>) s"

lemma ghost_simps [simp]:
  "objs (ghost t p s) = objs s" "mutexes (ghost t p s) = mutexes s" "g_ready_queue (ghost t p s) = g_ready_queue s"
  "g_tick_head (ghost t p s) = g_tick_head s" "g_tick_count (ghost t p s) = g_tick_count s"
  "prio (tasks (ghost t p s) u) = prio (tasks s u)" "task_state (tasks (ghost t p s) u) = task_state (tasks s u)"
  "blk_obj (tasks (ghost t p s) u) = blk_obj (tasks s u)" "live (tasks (ghost t p s) u) = live (tasks s u)"
  "ready (tasks (ghost t p s) u) = ready (tasks s u)" "pended (tasks (ghost t p s) u) = pended (tasks s u)"
  "u \<noteq> t \<Longrightarrow> tasks (ghost t p s) u = tasks s u" "mutex_list (tasks (ghost t p s) t) = p" "b_prio (tasks (ghost t p s) t) = prio (tasks s t)"
  "b_prio (tasks (ghost t p s) u) = (if u = t then prio (tasks s t) else b_prio (tasks s u))"
  "mutex_list (tasks (ghost t p s) u) = (if u = t then p else mutex_list (tasks s u))"
  by (simp_all add: ghost_def upd_task_def state_defs)

lemma ghost_base [simp]: "base_ok (ghost t p s) = base_ok s"
proof
  assume "base_ok s"
  then show "base_ok (ghost t p s)" unfolding ghost_def upd_task_def by (rule base_ok_task) simp_all
next
  assume "base_ok (ghost t p s)"
  then have "base_ok ((ghost t p s)\<lparr>tasks := (tasks (ghost t p s))(t := tasks s t)\<rparr>)"
    by (rule base_ok_task) (simp_all add: ghost_def upd_task_def)
  moreover have "(ghost t p s)\<lparr>tasks := (tasks (ghost t p s))(t := tasks s t)\<rparr> = s"
    by (rule kernel.equality) (simp_all add: ghost_def upd_task_def)
  ultimately show "base_ok s" by (simp only:)
qed

lemma ghost_exact:
  assumes "\<And>w. w \<in> s_waiters s t \<Longrightarrow> prio (tasks s t) \<le> prio (tasks s w)"
  shows "pri_target no_extra (objs s) (mutexes s) (tasks (ghost t p s)) t = prio (tasks s t)"
  using assms by (intro pri_target_eqI) auto

lemma ghost_start:
  assumes "kinv s" "live (tasks s t)" "prio (tasks s t) \<noteq> RHINO_IDLE_PRI"
  shows "kinv (ghost t (mutex_list (tasks s t)) s)" (is "kinv ?g")
proof (rule kinvI)
  note K = kinvD [OF assms(1)]
  have T: "mutex_list (tasks ?g u) = mutex_list (tasks s u)" for u by simp
  show "base_ok ?g" using K(1) by simp
  show "none_ok {} (objs ?g)" using K(2) by simp
  show "s_mtx_ok ?g" using K(3) unfolding mtx_ok_def chain_of_def mutex_wf_def T ghost_simps(1-12) .
  have pr: "prio (tasks s t) = s_target no_extra s t" using K(4) assms(2) by (simp add: pi_ok_def pi_exact_def)
  have "s_target no_extra ?g t = prio (tasks s t)"
    using pri_target_le(2) [where X = no_extra and T = "tasks s" and B = "objs s" and M = "mutexes s" and t = t] pr
    by (simp add: ghost_exact)
  then show "s_pi_ok ?g"
    using K(4) by (auto simp: pi_ok_def pi_exact_def) (auto simp: pri_target_def)
  obtain u where u: "idle_task_ok s u" using K(5) by (auto simp: idle_ok_def)
  have "u \<noteq> t" using idle_other(1) [OF K(4) u assms(3)] by auto
  moreover have "prio (tasks s t) < RHINO_IDLE_PRI"
    using kinv_prio_le_base [OF K(4) assms(2)] u \<open>u \<noteq> t\<close> assms(2) by (fastforce simp: idle_task_ok_def)
  ultimately have "idle_task_ok ?g u" using u by (simp add: idle_task_ok_def)
  then show "idle_ok ?g" by (auto simp: idle_ok_def)
qed

text \<open>One mutex leaves the chain.\<close>

lemma ghost_unlink:
  assumes "kinv (ghost t m s)" "live (tasks s t)" "is_mutex (objs s) m" "mutex_task (mutexes s m) = t"
    and "mchain (\<lambda>m. mutex_next (mutexes s m)) m (m # ms)" "set (m # ms) = s_owned s t"
  shows "kinvx {m} (untyped m (ghost t (mutex_next (mutexes s m)) s))"
proof -
  let ?g = "ghost t m s"
  have d: "m \<notin> set ms" using mchain_distinct [OF assms(5)] by simp
  have u: "unlinked t m [] (untyped m ?g) = untyped m (ghost t (mutex_next (mutexes s m)) s)" (is "_ = ?u")
    by (rule kernel.equality) (simp_all add: unlinked_def last_link_def untyped_def ghost_def upd_task_def)
  have ch: "chain_of (mutexes ?g) (tasks ?g t) ([] @ m # ms)" "set ([] @ ms) = s_owned ?g t - {m}"
    using assms(5,6) d by (auto simp: chain_of_def)
  note U = unlinked_ok [OF assms(1) _ _ _ ch, unfolded u]
  have U: "s_mtx_ok ?u" "none_ok {m} (objs ?u)" "idle_ok ?u" "pri_pre no_extra t (s_target no_extra ?u t) ?u"
    using U assms(2-4) by (simp_all del: untyped_simps)
  have "prio (tasks s t) = s_target no_extra ?g t" using kinvD(4) [OF assms(1)] assms(2) by (simp add: pi_ok_def pi_exact_def)
  then have le: "prio (tasks s t) \<le> prio (tasks s w)" if "w \<in> s_waiters s t" for w
    using that pri_target_le(2) [where X = no_extra and T = "tasks ?g" and B = "objs s" and M = "mutexes s" and t = t and w = w] by simp
  have "s_target no_extra ?u t = prio (tasks s t)"
    using le by (intro pri_target_eqI) (auto simp: waiters_def)
  then have "pi_exact no_extra (objs ?u) (mutexes ?u) (tasks ?u) t" by (simp add: pi_exact_def)
  moreover have "pi_exact no_extra (objs ?u) (mutexes ?u) (tasks ?u) v" if "v \<noteq> t" "live (tasks ?u v)" for v
    using U(4) that unfolding pri_pre_def by blast
  ultimately have "s_pi_ok ?u" unfolding pi_ok_def by metis
  with U show ?thesis by (intro kinvI) (simp_all add: pri_pre_def)
qed

text \<open>The mutex goes to the first task that waits for it, or to no one.\<close>

definition give_to :: "tid \<Rightarrow> oid \<Rightarrow> kernel \<Rightarrow> kernel" where
  "give_to w m s =
     (let s1 = pend_task_wakeup w s
      in s1\<lparr>mutexes := (mutexes s1)(m := (mutexes s1 m)\<lparr>mutex_task := w, mutex_next := mutex_list (tasks s1 w)\<rparr>),
            tasks := (tasks s1)(w := (tasks s1 w)\<lparr>mutex_list := m\<rparr>)\<rparr>)"

definition set_free :: "oid \<Rightarrow> kernel \<Rightarrow> kernel" where
  "set_free m s = upd_mutex m (\<lambda>x. x\<lparr>mutex_task := NULL\<rparr>) s"

definition pass_on :: "oid \<Rightarrow> kernel \<Rightarrow> kernel" where
  "pass_on m s = (case blk_list (objs s m) of w # _ \<Rightarrow> give_to w m s | [] \<Rightarrow> set_free m s)"

lemma mutex_free_loop_eq:
  "mutex_free_loop m s = (if m = NULL then Some s else mutex_free_loop (mutex_next (mutexes s m)) (pass_on m s))"
  by (subst mutex_free_loop.simps) (simp add: pass_on_def give_to_def set_free_def upd_defs Let_def split: list.split)

lemma ghost_wake: "w \<noteq> t \<Longrightarrow> wake w r (ghost t p s) = ghost t p (wake w r s)"
  by (rule kernel.equality) (simp_all add: wake_def ghost_def upd_task_def Let_def fun_eq_iff)

lemma give_kinv:
  assumes "kinvx {m} (untyped m (ghost t p s))" "is_mutex (objs s) m" "m \<noteq> NULL" "blk_policy (objs s m) = BLK_POLICY_PRI"
    and "blk_list (objs s m) = w # ws" "w \<noteq> t"
  shows "kinv (ghost t p (give_to w m s))" "base_ok s" "pended (tasks s w)" "blk_obj (tasks s w) = m"
proof -
  let ?g = "ghost t p s"
  show base: "base_ok s" using kinvD(1) [OF assms(1)] by simp
  show pw: "pended (tasks s w)" "blk_obj (tasks s w) = m"
    using blk_okD(2) [OF base_okD(2) [OF base], of w m] assms(5) by auto
  define s1 where "s1 = wake w BLK_FINISH s"
  have w: "pend_task_wakeup w s = s1" "pend_task_wakeup w ?g = ghost t p s1"
    using pend_task_wakeup_wake(1) base pw(1) ghost_wake [OF assms(6)] by (simp_all add: s1_def)
  note H = hand_over_kinv [OF assms(1), unfolded ghost_simps, OF assms(2-5), unfolded w]
  note N = nested_kinv [OF H, of m "owner_nested (mutexes s1 m)"]
  have "ghost t p (give_to w m s) = (ghost t p s1)\<lparr>tasks := (tasks (ghost t p s1))(w := (tasks (ghost t p s1) w)\<lparr>mutex_list := m\<rparr>),
    mutexes := (mutexes s1)(m := (mutexes s1 m)\<lparr>mutex_task := w, mutex_next := mutex_list (tasks (ghost t p s1) w)\<rparr>)\<rparr>"
    using assms(6) by (intro kernel.equality) (simp_all add: give_to_def w(1) ghost_def upd_task_def fun_eq_iff)
  with N show "kinv (ghost t p (give_to w m s))" by simp
qed

lemma free_kinv:
  assumes "kinvx {m} (untyped m (ghost t p s))" "is_mutex (objs s) m" "m \<noteq> NULL" "blk_policy (objs s m) = BLK_POLICY_PRI"
    and "blk_list (objs s m) = []"
  shows "kinv (ghost t p (set_free m s))"
proof -
  let ?x = "(mutexes s m)\<lparr>mutex_task := NULL\<rparr>"
  have "kinv (attached m ?x (untyped m (ghost t p s)))"
    using assms(3-5) by (intro attach [OF assms(1)]) auto
  moreover have "attached m ?x (untyped m (ghost t p s)) = ghost t p (set_free m s)"
    using assms(2) by (intro kernel.equality) (simp_all add: attached_def untyped_def ghost_def set_free_def upd_defs fun_eq_iff)
  ultimately show ?thesis by simp
qed

text \<open>What a round does, besides keeping the invariant.\<close>

lemma give_frame:
  assumes "base_ok s" "pended (tasks s w)" "blk_obj (tasks s w) = m" "objs_ok s" "is_mutex (objs s) m" "mutex_task (mutexes s m) \<noteq> NULL"
  shows "objs_ok (give_to w m s)" "run_frame s (give_to w m s)"
    and "mutexes (give_to w m s) = (mutexes s)(m := (mutexes s m)\<lparr>mutex_task := w, mutex_next := mutex_list (tasks s w)\<rparr>)"
    and "obj_type (objs (give_to w m s) i) = obj_type (objs s i)" "u \<noteq> w \<Longrightarrow> tasks (give_to w m s) u = tasks s u"
proof -
  define s1 where "s1 = wake w BLK_FINISH s"
  have w: "pend_task_wakeup w s = s1" using pend_task_wakeup_wake(1) [OF assms(1,2)] by (simp add: s1_def)
  note f = wake_frames [OF assms(1,2), of BLK_FINISH, folded s1_def]
  have e: "mutexes s1 = mutexes s" "tasks s1 = (tasks s)(w := woken BLK_FINISH (tasks s w))" "obj_type (objs s1 j) = obj_type (objs s j)" for j
    using wake_eq [of w BLK_FINISH s, folded s1_def] by auto
  show "run_frame s (give_to w m s)"
    using f(2) by (auto simp: run_frame_def give_to_def Let_def w ready_def)
  show "mutexes (give_to w m s) = (mutexes s)(m := (mutexes s m)\<lparr>mutex_task := w, mutex_next := mutex_list (tasks s w)\<rparr>)"
    "obj_type (objs (give_to w m s) i) = obj_type (objs s i)" "u \<noteq> w \<Longrightarrow> tasks (give_to w m s) u = tasks s u"
    by (simp_all add: give_to_def Let_def w e)
  have inv: "obj_inv s1 j" for j using obj_frame_ok [OF f(1) assms(4)] by (simp add: objs_ok_def)
  have "obj_inv (give_to w m s) j" for j
  proof (cases "j = m")
    case True
    with inv [of m] assms(5,6) show ?thesis by (simp add: obj_inv_def give_to_def Let_def w e)
  next
    case False
    then have "obj_inv (give_to w m s) j = obj_inv s1 j" by (intro obj_inv_same) (simp_all add: give_to_def Let_def w)
    with inv show ?thesis by simp
  qed
  then show "objs_ok (give_to w m s)" by (simp add: objs_ok_def)
qed

lemma free_frame:
  assumes "objs_ok s" "is_mutex (objs s) m"
  shows "objs_ok (set_free m s)" "run_frame s (set_free m s)"
    and "mutexes (set_free m s) = (mutexes s)(m := (mutexes s m)\<lparr>mutex_task := NULL\<rparr>)"
    and "objs (set_free m s) = objs s" "tasks (set_free m s) = tasks s"
proof -
  have "obj_inv (set_free m s) j" for j
  proof (cases "j = m")
    case True
    with assms(2) show ?thesis by (simp add: obj_inv_def set_free_def upd_mutex_def)
  next
    case False
    then have "obj_inv (set_free m s) j = obj_inv s j" by (intro obj_inv_same) (simp_all add: set_free_def upd_mutex_def)
    with assms(1) show ?thesis by (simp add: objs_ok_def)
  qed
  then show "objs_ok (set_free m s)" by (simp add: objs_ok_def)
qed (simp_all add: set_free_def upd_mutex_def run_frame_def)

lemma pass_on_step:
  assumes "kinv (ghost t m s)" "live (tasks s t)" "objs_ok s"
    and "mchain (\<lambda>m. mutex_next (mutexes s m)) m (m # ms)" "set (m # ms) = s_owned s t"
  defines "p \<equiv> mutex_next (mutexes s m)" and "s' \<equiv> pass_on m s"
  shows "kinv (ghost t p s')" "live (tasks s' t)" "objs_ok s'" "run_frame s s'" "tasks s' t = tasks s t"
    and "mchain (\<lambda>m. mutex_next (mutexes s' m)) p ms" "set ms = s_owned s' t"
proof -
  have m: "is_mutex (objs s) m" "mutex_task (mutexes s m) = t" and d: "m \<notin> set ms"
    using assms(5) mchain_distinct [OF assms(4)] by (auto simp: owned_def)
  have "mutex_wf (objs s) (mutexes s) (tasks (ghost t m s)) m" using mtx_okD(3) [OF kinvD(3) [OF assms(1)]] m(1) by simp
  then have wf: "m \<noteq> NULL" "blk_policy (objs s m) = BLK_POLICY_PRI" "t \<notin> set (blk_list (objs s m))"
    using m(2) by (auto simp: mutex_wf_def)
  have t0: "t \<noteq> NULL" using mtx_okD(2) [OF kinvD(3) [OF assms(1)], of t] assms(2) by simp
  note u = ghost_unlink [OF assms(1,2) m assms(4,5), folded p_def]
  have ch: "mchain (\<lambda>m. mutex_next (mutexes s m)) p ms" using assms(4) by (simp add: p_def)
  have "kinv (ghost t p s') \<and> objs_ok s' \<and> run_frame s s' \<and> tasks s' t = tasks s t
    \<and> mchain (\<lambda>m. mutex_next (mutexes s' m)) p ms \<and> s_owned s' t = s_owned s t - {m}"
  proof (cases "blk_list (objs s m)")
    case Nil
    have s': "s' = set_free m s" by (simp add: s'_def pass_on_def Nil)
    note f = free_frame [OF assms(3) m(1), folded s']
    have "mchain (\<lambda>m. mutex_next (mutexes s' m)) p ms" using ch d by (subst mchain_cong [of ms]) (auto simp: f(3))
    moreover have "s_owned s' t = s_owned s t - {m}" using t0 by (auto simp: owned_def f(3,4))
    ultimately show ?thesis using free_kinv [OF u m(1) wf(1,2) Nil] f s' by simp
  next
    case (Cons w ws)
    then have wt: "w \<noteq> t" using wf(3) by auto
    have s': "s' = give_to w m s" by (simp add: s'_def pass_on_def Cons)
    note g = give_kinv [OF u m(1) wf(1,2) Cons wt, folded s']
    note f = give_frame [OF g(2-4) assms(3) m(1), folded s']
    have "mchain (\<lambda>m. mutex_next (mutexes s' m)) p ms" using ch d t0 m(2) by (subst mchain_cong [of ms]) (auto simp: f(3))
    moreover have "s_owned s' t = s_owned s t - {m}" using t0 m(2) wt by (auto simp: owned_def f(3,4))
    ultimately show ?thesis using g(1) f wt t0 m(2) by simp
  qed
  then show "kinv (ghost t p s')" "live (tasks s' t)" "objs_ok s'" "run_frame s s'" "tasks s' t = tasks s t"
    "mchain (\<lambda>m. mutex_next (mutexes s' m)) p ms" "set ms = s_owned s' t"
    using assms(2,5) d by auto
qed

lemma mutex_free_loop_ok:
  assumes "kinv (ghost t p s)" "live (tasks s t)" "objs_ok s" "mchain (\<lambda>m. mutex_next (mutexes s m)) p ms" "set ms = s_owned s t"
  shows "\<exists>s'. mutex_free_loop p s = Some s' \<and> kinv (ghost t NULL s') \<and> objs_ok s' \<and> run_frame s s'
    \<and> tasks s' t = tasks s t \<and> s_owned s' t = {}"
  using assms
proof (induction ms arbitrary: p s)
  case Nil
  then show ?case by (auto simp: mutex_free_loop_eq)
next
  case (Cons m ms)
  then have p: "p = m" "m \<noteq> NULL" by auto
  note st = pass_on_step [OF Cons.prems [unfolded p(1)]]
  have eq: "mutex_free_loop p s = mutex_free_loop (mutex_next (mutexes s m)) (pass_on m s)"
    using p by (subst mutex_free_loop_eq) simp
  from Cons.IH [OF st(1-3,6,7)] show ?case unfolding eq using run_frame_trans [OF st(4)] st(5) by metis
qed

lemma task_mutex_free_ok:
  assumes "kinv s" "objs_ok s" "live (tasks s t)" "prio (tasks s t) \<noteq> RHINO_IDLE_PRI"
  defines "s' \<equiv> task_mutex_free t s"
  shows "kinv (ghost t NULL s')" "objs_ok s'" "run_frame s s'" "tasks s' t = tasks s t" "s_owned s' t = {}"
proof -
  obtain ms where ms: "chain_of (mutexes s) (tasks s t) ms" "set ms = s_owned s t"
    using mtx_okD(1) [OF kinvD(3) [OF assms(1)] assms(3)] by blast
  from mutex_free_loop_ok [OF ghost_start [OF assms(1,3,4)] assms(3,2) ms [unfolded chain_of_def]]
  show "kinv (ghost t NULL s')" "objs_ok s'" "run_frame s s'" "tasks s' t = tasks s t" "s_owned s' t = {}"
    by (auto simp: s'_def task_mutex_free_def)
qed

section \<open>Leaving the lists\<close>

text \<open>A task that holds nothing and waits for nothing dies.\<close>

lemma dead_kinv:
  assumes "kinv (ghost t NULL s)" "s_owned s t = {}" "\<not> pended (tasks s t)" "prio (tasks s t) \<noteq> RHINO_IDLE_PRI"
    and "base_ok (move t k q ts s)" "\<not> live k"
  shows "kinv (move t k q ts s)" (is "kinv ?s")
proof (rule kinvI [OF assms(5)])
  let ?g = "ghost t NULL s"
  note K = kinvD [OF assms(1)]
  show "none_ok {} (objs ?s)" using K(2) by simp
  have l: "u \<noteq> t \<and> live (tasks s u)" if "live (tasks ?s u)" for u using that assms(6) by (auto split: if_splits)
  have "mutex_wf (objs s) (mutexes s) ((tasks s)(t := k)) m" if m: "is_mutex (objs s) m" for m
  proof -
    have "mutex_task (mutexes s m) \<noteq> t" using assms(2) m by (auto simp: owned_def)
    then show ?thesis using mtx_okD(3) [OF K(3), of m] m by (simp add: mutex_wf_def)
  qed
  moreover have "u \<noteq> NULL \<and> (\<exists>ms. chain_of (mutexes s) (tasks s u) ms \<and> set ms = s_owned s u)" if "u \<noteq> t" "live (tasks s u)" for u
    using mtx_okD(1,2) [OF K(3), of u] that by simp
  ultimately show "s_mtx_ok ?s" using l unfolding mtx_ok_def move_simps by (metis fun_upd_other)
  have "pi_exact no_extra (objs s) (mutexes s) ((tasks s)(t := k)) u" if u: "u \<noteq> t" "live (tasks s u)" for u
  proof -
    have "t \<notin> s_waiters s u"
      using waiters_iff [OF base_okD(2) [OF K(1)], of t u] assms(3) by simp
    then have "(\<lambda>w. prio (((tasks s)(t := k)) w)) ` s_waiters s u = (\<lambda>w. prio (tasks s w)) ` s_waiters s u"
      by (intro image_cong) auto
    moreover have "pi_exact no_extra (objs s) (mutexes s) (tasks ?g) u" using K(4) u by (simp add: pi_ok_def)
    ultimately show ?thesis using u(1) by (simp add: pi_exact_def pri_target_def)
  qed
  then show "s_pi_ok ?s" using l unfolding pi_ok_def move_simps by blast
  obtain u where u: "idle_task_ok ?g u" using K(5) by (auto simp: idle_ok_def)
  have "u \<noteq> t" using idle_other(1) [OF K(4) u, of t] assms(4) by auto
  then have "idle_task_ok ?s u" using u assms(6) by (simp add: idle_task_ok_def) metis
  then show "idle_ok ?s" by (auto simp: idle_ok_def)
qed

text \<open>A task that dies while it waits.\<close>

lemma dead_waiter_kinv:
  assumes "kinv (ghost t NULL s)" "s_owned s t = {}" "pended (tasks s t)"
  defines "k \<equiv> (tasks s t)\<lparr>tick_head := False, task_state := K_DELETED\<rparr>"
  defines "s1 \<equiv> left_state t k (g_ready_queue s) (remove1 t (g_tick_head s)) s"
  shows "kinv (mutex_task_pri_reset t s1)" "reprio s1 (mutex_task_pri_reset t s1)"
proof -
  let ?g = "ghost t NULL s"
  have p: "pended (tasks ?g t)" using assms(3) by simp
  have k: "\<not> pended k" "\<not> sleeping k" "\<not> tick_head k" "\<not> ready k" "\<not> live k" "prio k = prio (tasks ?g t)" "blk_obj k = blk_obj (tasks ?g t)"
    by (simp_all add: k_def state_defs)
  have s1: "left_state t k (g_ready_queue ?g) (remove1 t (g_tick_head ?g)) ?g = s1"
    by (rule kernel.equality) (simp_all add: left_state_def s1_def ghost_def upd_task_def)
  have "base_ok s1"
    using left_base [OF kinvD(1) [OF assms(1)] p k(1-3,6)] k(4) s1 by (simp del: ghost_simps)
  moreover have "left_ok t k ?g" using k assms(2) by (simp add: left_ok_def)
  ultimately show "kinv (mutex_task_pri_reset t s1)" "reprio s1 (mutex_task_pri_reset t s1)"
    using waiter_left [OF assms(1) p, of k "g_ready_queue ?g" "remove1 t (g_tick_head ?g)", unfolded s1] by auto
qed

text \<open>What the deletion of a live task leaves behind.\<close>

definition gone :: "tid \<Rightarrow> kernel \<Rightarrow> kernel \<Rightarrow> bool" where
  "gone t s s' \<longleftrightarrow> kinv s' \<and> objs_ok s' \<and> \<not> live (tasks s' t) \<and> g_sched_lock s' = g_sched_lock s \<and> g_active_task s' = g_active_task s
     \<and> g_sys_stat s' = g_sys_stat s \<and> g_idle_task_spawned s' = g_idle_task_spawned s
     \<and> g_intrpt_nested_level s' = g_intrpt_nested_level s
     \<and> (\<forall>u. u \<noteq> t \<longrightarrow> ready (tasks s u) \<longrightarrow> ready (tasks s' u))"

lemma gone_move:
  assumes "kinv (ghost t NULL s)" "objs_ok s" "s_owned s t = {}" "\<not> pended (tasks s t)" "prio (tasks s t) \<noteq> RHINO_IDLE_PRI"
    and "base_ok (move t k q ts s)" "\<not> live k" "same_pend (tasks s t) k"
  shows "gone t s (move t k q ts s)"
  using dead_kinv [OF assms(1,3-7)] obj_frame_ok [OF move_obj_frame [OF assms(8)] assms(2)] assms(7)
  by (simp add: gone_def)

lemma task_unlink_ok:
  assumes "kinv (ghost t NULL s)" "objs_ok s" "s_owned s t = {}" "live (tasks s t)" "prio (tasks s t) \<noteq> RHINO_IDLE_PRI"
  shows "\<exists>s'. task_unlink t s = Some s' \<and> gone t s s'"
proof -
  have base: "base_ok s" using kinvD(1) [OF assms(1)] by simp
  note D = base_okD [OF base]
  note mem = base_ok_mem [OF base, of t]
  let ?d = "(tasks s t)\<lparr>task_state := K_DELETED\<rparr>" and ?dt = "(tasks s t)\<lparr>tick_head := False, task_state := K_DELETED\<rparr>"
  consider "ready (tasks s t)" | "task_state (tasks s t) = K_SUSPENDED" | "sleeping (tasks s t)" | "pended (tasks s t)"
    using assms(4) by (cases "task_state (tasks s t)") (auto simp: state_defs)
  then show ?thesis
  proof cases
    case 1
    have "some_other_ready (tasks s) t" using kinv_other [OF assms(1), of t] assms(5) by (auto simp: some_other_ready_def)
    then obtain q where q: "rq_rm (g_ready_queue s) (prio (tasks s t)) t = Some q" "\<And>k. \<not> ready k \<Longrightarrow> rdy_ok q ((tasks s)(t := k))"
      using rdy_ok_rm [OF D(1) 1] by blast
    have "task_unlink t s = Some (move t ?d q (g_tick_head s) s)"
      using 1 by (simp add: task_unlink_def ready_def ready_list_rm_def q(1) upd_task_def move_eqs)
    moreover have "base_ok (move t ?d q (g_tick_head s) s)"
    proof (rule base_ok_move [OF base])
      show "rdy_ok q ((tasks s)(t := ?d))" using q(2) by (simp add: ready_def)
      show "tick_ok (g_tick_head s) (g_tick_count s) ((tasks s)(t := ?d))"
        using base_ok_not_ticking [OF base, of t] 1 by (intro tick_ok_same [OF D(3)]) (auto simp: state_defs)
    qed (use 1 assms(4) in \<open>auto simp: state_defs\<close>)
    ultimately show ?thesis using 1 assms by (auto intro!: gone_move simp: state_defs same_pend_def)
  next
    case 2
    have "task_unlink t s = Some (move t ?d (g_ready_queue s) (g_tick_head s) s)"
      using 2 by (simp add: task_unlink_def upd_task_def move_def)
    moreover have "base_ok (move t ?d (g_ready_queue s) (g_tick_head s) s)"
      using 2 assms(4) by (intro base_ok_stay [OF base]) (auto simp: state_defs)
    ultimately show ?thesis using 2 assms by (auto intro!: gone_move simp: state_defs same_pend_def)
  next
    case 3
    have "task_unlink t s = Some (move t ?dt (g_ready_queue s) (remove1 t (g_tick_head s)) s)"
      using 3 mem(2) by (auto simp: task_unlink_def upd_task_def move_def sleeping_def tick_list_rm_eq)
    moreover have "base_ok (move t ?dt (g_ready_queue s) (remove1 t (g_tick_head s)) s)"
    proof (rule base_ok_move [OF base])
      show "rdy_ok (g_ready_queue s) ((tasks s)(t := ?dt))" using 3 by (intro rdy_ok_idle_change [OF D(1)]) (auto simp: state_defs)
      show "tick_ok (remove1 t (g_tick_head s)) (g_tick_count s) ((tasks s)(t := ?dt))"
        by (rule tick_ok_drop [OF D(3)]) (simp_all add: sleeping_def)
    qed (use 3 assms(4) in \<open>auto simp: state_defs\<close>)
    ultimately show ?thesis using 3 assms by (auto intro!: gone_move simp: state_defs same_pend_def)
  next
    case 4
    define s1 where "s1 = left_state t ?dt (g_ready_queue s) (remove1 t (g_tick_head s)) s"
    note w = dead_waiter_kinv [OF assms(1,3) 4, folded s1_def]
    have "upd_task t (\<lambda>k. k\<lparr>task_state := K_DELETED\<rparr>) (blk_list_rm t (tick_list_rm t s)) = s1"
      by (rule kernel.equality) (simp_all add: 4 mem tick_list_rm_eq blk_list_rm_eq upd_task_def s1_def left_state_def)
    then have "task_unlink t s = Some (mutex_task_pri_reset t s1)"
      using 4 by (auto simp: task_unlink_def pended_def Let_def)
    moreover have "obj_frame s (mutex_task_pri_reset t s1)"
      using obj_frame_trans [OF left_frames(1) [OF D(2) 4] reprio_frames(1) [OF w(2) [unfolded s1_def]]] by (simp add: s1_def)
    then have "objs_ok (mutex_task_pri_reset t s1)" using obj_frame_ok assms(2) by blast
    then have "gone t s (mutex_task_pri_reset t s1)"
      using w(1) by (simp add: gone_def reprio_same [OF w(2)]) (simp add: s1_def left_state_def live_def)
    ultimately show ?thesis by blast
  qed
qed

section \<open>The calls\<close>

lemma delete_ok:
  assumes "kinv s" "objs_ok s" "live (tasks s t)" "prio (tasks s t) \<noteq> RHINO_IDLE_PRI"
  shows "\<exists>s'. task_unlink t (task_mutex_free t s) = Some s' \<and> gone t s s'"
proof -
  note f = task_mutex_free_ok [OF assms]
  have "live (tasks (task_mutex_free t s) t)" "prio (tasks (task_mutex_free t s) t) \<noteq> RHINO_IDLE_PRI" using assms(3,4) f(4) by auto
  from task_unlink_ok [OF f(1,2,5) this] f(3) show ?thesis by (auto simp: gone_def run_frame_def)
qed

text \<open>Changes to what the invariant does not read, then rescheduling.\<close>

lemma gone_resched:
  assumes "kernel_ok s0" "gone t s s'" "kinv s''" "objs_ok s''" "tasks s'' = tasks s'" "g_sched_lock s'' = g_sched_lock s'"
    and "g_active_task s'' = g_active_task s'" "g_sys_stat s'' = g_sys_stat s'" "g_idle_task_spawned s'' = g_idle_task_spawned s'"
    and "g_sched_lock s = g_sched_lock s0" "g_active_task s = g_active_task s0" "g_sys_stat s = g_sys_stat s0"
    and "g_idle_task_spawned s = g_idle_task_spawned s0" "\<And>u. ready (tasks s0 u) \<Longrightarrow> ready (tasks s u)"
    and "t \<noteq> g_active_task s0 \<or> g_sched_lock s0 = 0"
  shows "kernel_ok (core_sched s'')"
proof (rule resched_any [OF assms(1,3,4)])
  show "ready (tasks s'' (g_active_task s0))" if "g_sched_lock s0 > 0"
    using that kernel_okD(2) [OF assms(1)] assms(2,5,14,15) by (auto simp: gone_def sched_ok_def)
qed (use assms in \<open>auto simp: gone_def\<close>)

lemma krhino_task_del_ok:
  assumes "kernel_ok s" "live (tasks s (if t = NULL then g_active_task s else t))"
  shows "kernel_ok (snd (krhino_task_del t s))"
proof -
  define u where "u = (if t = NULL then g_active_task s else t)"
  show ?thesis
  proof (cases "g_intrpt_nested_level s > 0 \<or> prio (tasks s u) = RHINO_IDLE_PRI \<or> task_alloc_flag (tasks s u) \<noteq> K_OBJ_STATIC_ALLOC
      \<or> u = g_active_task s \<and> g_sched_lock s > 0")
    case True
    then show ?thesis unfolding krhino_task_del_def u_def [symmetric] using assms(1) by (auto simp: Let_def)
  next
    case False
    obtain s' where s': "task_unlink u (task_mutex_free u s) = Some s'" "gone u s s'"
      using delete_ok [of s u] kernel_okD [OF assms(1)] assms(2) False by (auto simp: u_def)
    define s'' where "s'' = s'\<lparr>g_kobj_list := (g_kobj_list s')\<lparr>task_head := remove1 u (task_head (g_kobj_list s'))\<rparr>,
      stack_mem := (stack_mem s')(res_free_addr u s' := 0)\<rparr>"
    have "snd (krhino_task_del t s) = core_sched s''"
      unfolding krhino_task_del_def u_def [symmetric] using False s'(1) by (auto simp: Let_def s''_def res_free_addr_def)
    moreover have "kernel_ok (core_sched s'')"
      using s'(2) False by (intro gone_resched [OF assms(1) s'(2)]) (auto simp: s''_def gone_def objs_ok_def word_gt_0)
    ultimately show ?thesis by simp
  qed
qed

text \<open>
  While \<^verbatim>\<open>krhino_task_dyn_del\<close> hands the memory to the task that frees it, the scheduler is locked:
  the semaphore operation does not depend on how often.
\<close>

lemma locked_sem_give:
  assumes "base_ok s" "l > 0" "l' > 0"
  shows "krhino_sem_give i (s\<lparr>g_sched_lock := l\<rparr>)
    = (fst (krhino_sem_give i (s\<lparr>g_sched_lock := l'\<rparr>)), (snd (krhino_sem_give i (s\<lparr>g_sched_lock := l'\<rparr>)))\<lparr>g_sched_lock := l\<rparr>)"
proof (cases "blk_list (objs s i)")
  case Nil
  then show ?thesis by (simp add: krhino_sem_give_def sem_give_def Let_def upd_sem_def)
next
  case (Cons t ts)
  have "pended (tasks s t)" using blk_okD(2) [OF base_okD(2) [OF assms(1)], of t i] Cons by simp
  then have w: "pend_task_wakeup t (s\<lparr>g_sched_lock := x\<rparr>) = (wake t BLK_FINISH s)\<lparr>g_sched_lock := x\<rparr>" for x
    using pend_task_wakeup_wake(1) [of "s\<lparr>g_sched_lock := x\<rparr>" t] assms(1) by (simp add: wake_def Let_def)
  have c: "core_sched (s\<lparr>g_sched_lock := x\<rparr>) = s\<lparr>g_sched_lock := x\<rparr>" if "x > 0" for x s using that by (simp add: core_sched_def)
  show ?thesis using Cons assms(2,3) by (simp add: krhino_sem_give_def sem_give_def w c)
qed

lemma locked_sem_give_frame:
  fixes i :: oid
  assumes "base_ok s" "g_sched_lock s > 0"
  defines "s' \<equiv> snd (krhino_sem_give i s)"
  shows "run_frame s s'" "live (tasks s' u) = live (tasks s u)" "prio (tasks s' u) = prio (tasks s u)"
    and "fst (krhino_sem_give i s) \<noteq> RHINO_SUCCESS \<Longrightarrow> s' = s"
proof -
  consider "s' = s" | f where "s' = upd_sem i f s" "fst (krhino_sem_give i s) = RHINO_SUCCESS"
    | t where "pended (tasks s t)" "s' = wake t BLK_FINISH s" "fst (krhino_sem_give i s) = RHINO_SUCCESS"
  proof (cases "i = NULL \<or> obj_type (objs s i) \<noteq> RHINO_SEM_OBJ_TYPE")
    case True
    then show thesis using that(1) by (auto simp: s'_def krhino_sem_give_def sem_give_def)
  next
    case False
    show thesis
    proof (cases "blk_list (objs s i)")
      case Nil
      let ?f = "(\<lambda>x. if sem_count x > peak_count x then x\<lparr>peak_count := sem_count x\<rparr> else x) \<circ> (\<lambda>x. x\<lparr>sem_count := sem_count x + 1\<rparr>)"
      have "sem_count (sems s i) = - 1 \<Longrightarrow> s' = s"
        "sem_count (sems s i) \<noteq> - 1 \<Longrightarrow> s' = upd_sem i ?f s \<and> fst (krhino_sem_give i s) = RHINO_SUCCESS"
        using False Nil by (simp_all add: s'_def krhino_sem_give_def sem_give_def Let_def upd_sem_def)
      then show thesis using that(1) that(2) [of ?f] by blast
    next
      case (Cons t ts)
      then have p: "pended (tasks s t)" using blk_okD(2) [OF base_okD(2) [OF assms(1)], of t i] by simp
      have "core_sched (wake t BLK_FINISH s) = wake t BLK_FINISH s" using assms(2) by (simp add: core_sched_def wake_def Let_def)
      then show thesis
        using that(3) [OF p] False Cons pend_task_wakeup_wake(1) [OF assms(1) p]
        by (simp add: s'_def krhino_sem_give_def sem_give_def)
    qed
  qed
  then have "run_frame s s' \<and> live (tasks s' u) = live (tasks s u) \<and> prio (tasks s' u) = prio (tasks s u)
    \<and> (fst (krhino_sem_give i s) \<noteq> RHINO_SUCCESS \<longrightarrow> s' = s)"
  proof cases
    case (2 f)
    then show ?thesis by (simp add: run_frame_def upd_sem_def)
  next
    case (3 t)
    have "tasks s' = (tasks s)(t := woken BLK_FINISH (tasks s t))" using wake_eq [of t BLK_FINISH s] 3(2) by auto
    with 3 wake_frames(2) [OF assms(1) 3(1)] pended_live [OF 3(1)] show ?thesis by simp
  qed simp
  then show "run_frame s s'" "live (tasks s' u) = live (tasks s u)" "prio (tasks s' u) = prio (tasks s u)"
    "fst (krhino_sem_give i s) \<noteq> RHINO_SUCCESS \<Longrightarrow> s' = s" by auto
qed

lemma handed_over_ok:
  fixes i :: oid
  assumes "kernel_ok s" "g_intrpt_nested_level s = 0"
  defines "r \<equiv> krhino_sem_give i (s\<lparr>g_sched_lock := g_sched_lock s + 1\<rparr>)"
  defines "s' \<equiv> (snd r)\<lparr>g_sched_lock := g_sched_lock (snd r) - 1\<rparr>"
  shows "kinv s'" "objs_ok s'" "run_frame s s'" "live (tasks s' u) = live (tasks s u)" "prio (tasks s' u) = prio (tasks s u)"
    and "fst r \<noteq> RHINO_SUCCESS \<Longrightarrow> s' = s"
proof -
  note K = kernel_okD(1-3) [OF assms(1)]
  have "g_sched_lock s \<le> 200" using K(2) by (simp add: sched_ok_def SCHED_MAX_LOCK_COUNT_def)
  then have pos: "g_sched_lock s + 1 > 0" using word_le_nat_alt [of "g_sched_lock s" 200] by (simp add: word_less_nat_alt unat_word_ariths)
  define l where "l = s\<lparr>g_sched_lock := 1\<rparr>"
  have one: "(1::8 word) > 0" "(1::8 word) \<le> SCHED_MAX_LOCK_COUNT" by (simp_all add: SCHED_MAX_LOCK_COUNT_def)
  have lk: "kernel_ok l"
    using K active_ready [OF assms(1,2)] one by (simp add: l_def kernel_ok_def objs_ok_def sched_ok_def)
  note base = kinvD(1) [OF K(1)]
  note f = locked_sem_give_frame [where s = l and i = i, OF kinvD(1) [OF kernel_okD(1) [OF lk]]]
  have r: "r = (fst (krhino_sem_give i l), (snd (krhino_sem_give i l))\<lparr>g_sched_lock := g_sched_lock s + 1\<rparr>)"
    unfolding r_def l_def by (rule locked_sem_give [OF base pos one(1)])
  have s': "s' = (snd (krhino_sem_give i l))\<lparr>g_sched_lock := g_sched_lock s\<rparr>" by (simp add: s'_def r)
  have "kernel_ok (snd (krhino_sem_give i l))" using sem_give_ok [OF lk] lk by (simp add: krhino_sem_give_def)
  then show "kinv s'" "objs_ok s'" using kernel_okD by (auto simp: s' objs_ok_def)
  have l0: "g_sched_lock l > 0" "tasks l = tasks s" by (simp_all add: l_def)
  show "run_frame s s'" using f(1) [OF l0(1)] by (simp add: run_frame_def s' l_def)
  show "live (tasks s' u) = live (tasks s u)" "prio (tasks s' u) = prio (tasks s u)" using f(2,3) [OF l0(1)] l0(2) by (simp_all add: s')
  show "fst r \<noteq> RHINO_SUCCESS \<Longrightarrow> s' = s" using f(4) [OF l0(1)] by (simp add: r s' l_def)
qed

lemma krhino_task_dyn_del_ok:
  assumes "kernel_ok s" "live (tasks s (if t = NULL then g_active_task s else t))"
  shows "kernel_ok (snd (krhino_task_dyn_del t s))"
proof -
  define u where "u = (if t = NULL then g_active_task s else t)"
  show ?thesis
  proof (cases "g_intrpt_nested_level s > 0 \<or> prio (tasks s u) = RHINO_IDLE_PRI \<or> task_alloc_flag (tasks s u) \<noteq> K_OBJ_DYN_ALLOC
      \<or> u = g_active_task s \<and> g_sched_lock s > 0 \<or> task_state (tasks s u) = K_DELETED")
    case True
    then show ?thesis unfolding krhino_task_dyn_del_def u_def [symmetric] using assms(1) by (auto simp: Let_def)
  next
    case False
    define a where "a = s\<lparr>g_res_list := g_res_list s @ [[task_stack_base (tasks s u), u]],
      stack_mem := write_words (res_free_addr u s) [2, task_stack_base (tasks s u), u] (stack_mem s)\<rparr>"
    have a: "kernel_ok a" "g_intrpt_nested_level a = 0" using assms(1) False by (auto simp: a_def word_gt_0)
    define r where "r = krhino_sem_give (g_res_sem a) (a\<lparr>g_sched_lock := g_sched_lock a + 1\<rparr>)"
    define b where "b = (snd r)\<lparr>g_sched_lock := g_sched_lock (snd r) - 1\<rparr>"
    note h = handed_over_ok [OF a, of "g_res_sem a", folded r_def, folded b_def]
    have r': "krhino_sem_give (g_res_sem s) (s\<lparr>g_sched_lock := g_sched_lock s + 1, g_res_list := g_res_list s @ [[task_stack_base (tasks s u), u]],
        stack_mem := write_words (res_free_addr u s) [2, task_stack_base (tasks s u), u] (stack_mem s)\<rparr>) = r"
      unfolding r_def by (rule arg_cong2 [where f = krhino_sem_give]) (simp add: a_def, rule kernel.equality, simp_all add: a_def)
    have ra: "res_free_addr u (s\<lparr>g_sched_lock := x, g_res_list := y\<rparr>) = res_free_addr u s" for x y by (simp add: res_free_addr_def)
    show ?thesis
    proof (cases "fst r = RHINO_SUCCESS")
      case err: False
      have "snd (krhino_task_dyn_del t s) = k_err_proc RHINO_SYS_SP_ERR b"
        unfolding krhino_task_dyn_del_def u_def [symmetric] using False err
        by (auto simp: Let_def r' ra b_def simp del: write_words.simps split: prod.split)
      then show ?thesis using h(6) [OF err] err_ok [OF a(1)] by simp
    next
      case True
      have "live (tasks b u)" "prio (tasks b u) \<noteq> RHINO_IDLE_PRI" using h(4,5) assms(2) False by (simp_all add: a_def u_def)
      from delete_ok [OF h(1,2) this] obtain s' where s': "task_unlink u (task_mutex_free u b) = Some s'" "gone u b s'" by blast
      define s'' where "s'' = s'\<lparr>g_kobj_list := (g_kobj_list s')\<lparr>task_head := remove1 u (task_head (g_kobj_list s'))\<rparr>\<rparr>"
      have "snd (krhino_task_dyn_del t s) = core_sched s''"
        unfolding krhino_task_dyn_del_def u_def [symmetric] using False True s'(1)
        by (auto simp: Let_def r' ra b_def s''_def simp del: write_words.simps split: prod.split)
      moreover have "kernel_ok (core_sched s'')"
        using s'(2) False h(3)
        by (intro gone_resched [OF a(1) s'(2)]) (auto simp: s''_def gone_def objs_ok_def word_gt_0 run_frame_def a_def)
      ultimately show ?thesis by simp
    qed
  qed
qed

lemma krhino_task_deathbed_ok:
  assumes "kernel_ok s" "g_intrpt_nested_level s = 0"
  shows "kernel_ok (snd (krhino_task_deathbed s))"
proof -
  have "live (tasks s (g_active_task s))" using active_ready [OF assms] by (simp add: state_defs)
  then show ?thesis
    using krhino_task_del_ok [OF assms(1), of NULL] krhino_task_dyn_del_ok [OF assms(1), of NULL]
    by (simp add: krhino_task_deathbed_def)
qed

end
