(* ===== verification/Rhino_Tick.thy ===== *)
theory Rhino_Tick
  imports Rhino_Task_Del "HOL-Library.Sublist"
begin

text \<open>
  The passing of time: \<^verbatim>\<open>tick_list_update\<close> of \<^verbatim>\<open>kernel/rhino/core/k_tick.c\<close> and
  \<^verbatim>\<open>kernel/rhino/core/k_time.c\<close>.

  A tick wakes the tasks whose time has come, in the order of the tick list, and gives the time
  slice of the running priority to its next task.  The invariant of the kernel is about the
  state between two ticks; inside the loop it holds of the state with the time before the tick,
  which the operations of the loop do not look at.
\<close>

section \<open>Operations\<close>

text \<open>The switch of \<^verbatim>\<open>tick_list_update\<close>.\<close>

definition tick_expire :: "tid \<Rightarrow> kernel \<Rightarrow> kernel" where
  "tick_expire p_tcb s =
     (case task_state (tasks s p_tcb) of
        K_SLEEP \<Rightarrow>
          (let s = upd_task p_tcb (\<lambda>k. k\<lparr>blk_state := BLK_FINISH, task_state := K_RDY\<rparr>) s;
               s = tick_list_rm p_tcb s
           in ready_list_add p_tcb s)
      | K_PEND \<Rightarrow>
          (let s = tick_list_rm p_tcb s;
               s = blk_list_rm p_tcb s;
               s = ready_list_add p_tcb s;
               s = upd_task p_tcb (\<lambda>k. k\<lparr>blk_state := BLK_TIMEOUT, task_state := K_RDY\<rparr>) s;
               s = mutex_task_pri_reset p_tcb s
           in upd_task p_tcb (\<lambda>k. k\<lparr>blk_obj := NULL\<rparr>) s)
      | K_PEND_SUSPENDED \<Rightarrow>
          (let s = tick_list_rm p_tcb s;
               s = blk_list_rm p_tcb s;
               s = upd_task p_tcb (\<lambda>k. k\<lparr>blk_state := BLK_TIMEOUT, task_state := K_SUSPENDED\<rparr>) s;
               s = mutex_task_pri_reset p_tcb s
           in upd_task p_tcb (\<lambda>k. k\<lparr>blk_obj := NULL\<rparr>) s)
      | K_SLEEP_SUSPENDED \<Rightarrow>
          (let s = upd_task p_tcb (\<lambda>k. k\<lparr>task_state := K_SUSPENDED, blk_state := BLK_FINISH\<rparr>) s
           in tick_list_rm p_tcb s)
      | _ \<Rightarrow> k_err_proc RHINO_SYS_FATAL_ERR s)"

text \<open>
  The loop fetches the next task before it treats a task, and unlinks no other one: the list it
  runs through is the one it finds on entry.  The time left is a signed number.
\<close>

fun tick_loop :: "tid list \<Rightarrow> kernel \<Rightarrow> kernel" where
  "tick_loop [] s = s"
| "tick_loop (iter # iter_temp) s =
     (if sint (tick_match (tasks s iter) - g_tick_count s) \<le> 0
      then tick_loop iter_temp (tick_expire iter s)
      else s)"

definition tick_list_update :: "tick_t \<Rightarrow> kernel \<Rightarrow> kernel" where
  "tick_list_update ticks s =
     (let s = s\<lparr>g_tick_count := g_tick_count s + ticks\<rparr>
      in tick_loop (g_tick_head s) s)"

definition krhino_tick_proc :: "kernel \<Rightarrow> kernel" where
  "krhino_tick_proc s = time_slice_upd (tick_list_update 1 s)"

definition RHINO_CONFIG_TICKS_PER_SECOND :: nat where
  "RHINO_CONFIG_TICKS_PER_SECOND = 100"

definition krhino_sys_tick_get :: "kernel \<Rightarrow> 64 word" where
  "krhino_sys_tick_get s = g_tick_count s"

definition krhino_sys_time_get :: "kernel \<Rightarrow> 64 word" where
  "krhino_sys_time_get s = krhino_sys_tick_get s * 1000 div of_nat RHINO_CONFIG_TICKS_PER_SECOND"

definition krhino_ms_to_ticks :: "64 word \<Rightarrow> tick_t" where
  "krhino_ms_to_ticks ms =
     (let surplus = (ucast (ms mod 1000) :: 16 word);
          ticks = (ms div 1000) * of_nat RHINO_CONFIG_TICKS_PER_SECOND;
          padding = (of_nat (1000 div RHINO_CONFIG_TICKS_PER_SECOND) :: 16 word);
          padding = (if padding > 0 then padding - 1 else 0)
      in ticks + of_nat (((unat surplus + unat padding) * RHINO_CONFIG_TICKS_PER_SECOND) div 1000))"

definition krhino_ticks_to_ms :: "tick_t \<Rightarrow> 64 word" where
  "krhino_ticks_to_ms ticks =
     (let surplus = (ucast (ticks mod of_nat RHINO_CONFIG_TICKS_PER_SECOND) :: u32);
          time = (ticks div of_nat RHINO_CONFIG_TICKS_PER_SECOND) * 1000;
          padding = (of_nat (RHINO_CONFIG_TICKS_PER_SECOND div 1000) :: u32);
          padding = (if padding > 0 then padding - 1 else 0)
      in time + ucast (((surplus + padding) * 1000) div of_nat RHINO_CONFIG_TICKS_PER_SECOND))"

text \<open>The time until the first task of the tick list is due (\<^verbatim>\<open>k_sys.c\<close>).\<close>

definition krhino_next_sleep_ticks_get :: "kernel \<Rightarrow> tick_t" where
  "krhino_next_sleep_ticks_get s =
     (case g_tick_head s of [] \<Rightarrow> RHINO_WAIT_FOREVER | tcb # _ \<Rightarrow> tick_match (tasks s tcb) - g_tick_count s)"

section \<open>The loop does not look at the time\<close>

abbreviation at_time :: "tick_t \<Rightarrow> kernel \<Rightarrow> kernel" where
  "at_time c s \<equiv> s\<lparr>g_tick_count := c\<rparr>"

lemma time_commutes:
  "upd_task t f (at_time c s) = at_time c (upd_task t f s)" "fault (at_time c s) = at_time c (fault s)"
  "tick_list_rm t (at_time c s) = at_time c (tick_list_rm t s)" "blk_list_rm t (at_time c s) = at_time c (blk_list_rm t s)"
  "ready_list_add t (at_time c s) = at_time c (ready_list_add t s)" "ready_list_rm t (at_time c s) = at_time c (ready_list_rm t s)"
  "ready_list_add_head t (at_time c s) = at_time c (ready_list_add_head t s)"
  "ready_list_add_tail t (at_time c s) = at_time c (ready_list_add_tail t s)"
  "pend_list_reorder t (at_time c s) = at_time c (pend_list_reorder t s)" "k_err_proc e (at_time c s) = at_time c (k_err_proc e s)"
  "write_link l v (at_time c s) = at_time c (write_link l v s)" "read_link l (at_time c s) = read_link l s"
  "first_blk_pri (at_time c s) m a = first_blk_pri s m a"
  by (simp_all add: upd_defs tick_list_rm_def blk_list_rm_def ready_list_add_def ready_list_rm_def ready_list_add_head_def
    ready_list_add_tail_def pend_list_reorder_def pend_list_add_def first_blk_pri_def Let_def split: option.split list.split)
   (cases l; simp add: upd_defs)+

text \<open>A result of a loop carries over to another time, and so does the lack of one.\<close>

lemma option_time_commute:
  assumes "\<And>c s y. f s = Some y \<Longrightarrow> f (at_time c s) = Some (fst y, at_time c (snd y))"
  shows "f (at_time c s) = map_option (\<lambda>y. (fst y, at_time c (snd y))) (f s)"
proof (cases "f s")
  case None
  have "f (at_time c s) \<noteq> Some y" for y
    using assms [of "at_time c s" y "g_tick_count s"] None by auto
  with None show ?thesis by (cases "f (at_time c s)") auto
next
  case (Some y)
  with assms show ?thesis by simp
qed

lemma pri_look_loop_time:
  "pri_look_loop rel prev pri a (at_time c s) = map_option (\<lambda>y. (fst y, at_time c (snd y))) (pri_look_loop rel prev pri a s)"
proof (rule option_time_commute [where f = "pri_look_loop rel prev pri a"])
  fix c s y
  assume "pri_look_loop rel prev pri a s = Some y"
  then show "pri_look_loop rel prev pri a (at_time c s) = Some (fst y, at_time c (snd y))"
  proof (rule pri_look_loop.raw_induct [where P = "\<lambda>rel prev pri a s y.
      pri_look_loop rel prev pri a (at_time c s) = Some (fst y, at_time c (snd y))", rotated], goal_cases)
    case (1 loop rel prev pri a s y)
    note IH = 1(1) and eq = 1(2)
    show ?case
      using eq by (subst pri_look_loop.simps) (auto simp: Let_def time_commutes split: if_splits dest: IH)
  qed
qed

lemma mutex_pri_look_time:
  "mutex_pri_look t rel (at_time c s) = map_option (\<lambda>y. (fst y, at_time c (snd y))) (mutex_pri_look t rel s)"
  by (simp add: mutex_pri_look_def pri_look_loop_time)

lemma task_pri_change_time:
  "task_pri_change t v (at_time c s) = map_option (\<lambda>y. (fst y, at_time c (snd y))) (task_pri_change t v s)"
proof (rule option_time_commute [where f = "task_pri_change t v"])
  fix c s y
  assume "task_pri_change t v s = Some y"
  then show "task_pri_change t v (at_time c s) = Some (fst y, at_time c (snd y))"
  proof (rule task_pri_change.raw_induct [where P = "\<lambda>t v s y.
      task_pri_change t v (at_time c s) = Some (fst y, at_time c (snd y))", rotated], goal_cases)
    case (1 loop t v s y)
    note IH = 1(1) and eq = 1(2)
    show ?case
      using eq
      by (subst task_pri_change.simps)
        (auto simp: Let_def time_commutes mutex_pri_look_time split: if_splits task_stat.splits option.splits dest: IH)
  qed
qed

lemma mutex_task_pri_reset_time: "mutex_task_pri_reset t (at_time c s) = at_time c (mutex_task_pri_reset t s)"
  by (auto simp: mutex_task_pri_reset_def mutex_release_def pri_change_def mutex_pri_look_time task_pri_change_time Let_def
    time_commutes split: option.split)

lemma tick_expire_time: "tick_expire t (at_time c s) = at_time c (tick_expire t s)"
  by (simp add: tick_expire_def Let_def time_commutes mutex_task_pri_reset_time split: task_stat.split)

section \<open>One task whose time is over\<close>

definition after_expiry :: "task_stat \<Rightarrow> task_stat" where
  "after_expiry st = (if st = K_SLEEP \<or> st = K_PEND then K_RDY else K_SUSPENDED)"

definition but_prio :: "ktask \<Rightarrow> ktask \<Rightarrow> bool" where
  "but_prio k k' \<longleftrightarrow> (\<exists>p. k' = k\<lparr>prio := p\<rparr>)"

lemma but_prio_refl [simp]: "but_prio k k"
  unfolding but_prio_def by (rule exI [of _ "prio k"]) simp

lemma but_prio_trans: "but_prio k k' \<Longrightarrow> but_prio k' k'' \<Longrightarrow> but_prio k k''"
  by (auto simp: but_prio_def)

lemma but_prioD:
  assumes "but_prio k k'"
  shows "tick_match k' = tick_match k" "task_state k' = task_state k" "blk_state k' = blk_state k" "pended k' = pended k"
    "tick_head k' = tick_head k" "b_prio k' = b_prio k" "sleeping k' = sleeping k" "ready k' = ready k" "live k' = live k"
  using assms by (auto simp: but_prio_def state_defs)

definition expired :: "tid \<Rightarrow> kernel \<Rightarrow> kernel \<Rightarrow> bool" where
  "expired t s s' \<longleftrightarrow> obj_frame s s' \<and> run_frame s s' \<and> g_tick_head s' = remove1 t (g_tick_head s)
     \<and> g_tick_count s' = g_tick_count s \<and> (\<forall>u. u \<noteq> t \<longrightarrow> but_prio (tasks s u) (tasks s' u))
     \<and> task_state (tasks s' t) = after_expiry (task_state (tasks s t)) \<and> \<not> tick_head (tasks s' t)
     \<and> blk_state (tasks s' t) = (if pended (tasks s t) then BLK_TIMEOUT else BLK_FINISH)"

lemma expired_move:
  assumes "kinv s" "base_ok (move t k q ts s)" "sleeping (tasks s t)" "k = (tasks s t)\<lparr>blk_state := BLK_FINISH, task_state := st, tick_head := False\<rparr>"
    and "st = after_expiry (task_state (tasks s t))" "ts = remove1 t (g_tick_head s)"
  shows "kinv (move t k q ts s)" "expired t s (move t k q ts s)"
proof -
  have "st = K_RDY \<or> st = K_SUSPENDED" using assms(5) by (simp add: after_expiry_def)
  then have k: "live k" "same_pri (tasks s t) k" "same_pend (tasks s t) k" "live (tasks s t)" "\<not> ready (tasks s t)" "\<not> pended (tasks s t)"
    using assms(3,4) by (auto simp: same_pri_def same_pend_def state_defs)
  have "run_frame s (move t k q ts s)" using k(5) by (auto simp: run_frame_def)
  then show "kinv (move t k q ts s)" "expired t s (move t k q ts s)"
    using move_kinv [OF assms(1,2) k(4,1,2)] move_obj_frame [OF k(3)] k(5,6) assms(4-6) by (simp_all add: expired_def)
qed

lemma sleep_expired:
  assumes "kinv s" "sleeping (tasks s t)"
  shows "kinv (tick_expire t s) \<and> expired t s (tick_expire t s)"
proof -
  note base = kinvD(1) [OF assms(1)] and st = assms(2) [unfolded sleeping_def]
  note D = base_okD [OF base] and mem = base_ok_mem(2) [OF base, of t]
  define k where "k = (tasks s t)\<lparr>blk_state := BLK_FINISH, task_state := after_expiry (task_state (tasks s t)), tick_head := False\<rparr>"
  have n: "\<not> pended (tasks s t)" "\<not> ready (tasks s t)" "live (tasks s t)" using assms(2) by (auto simp: state_defs)
  have tl: "tick_list_rm t (upd_task t (\<lambda>k. k\<lparr>blk_state := BLK_FINISH, task_state := after_expiry (task_state (tasks s t))\<rparr>) s)
      = move t k (g_ready_queue s) (remove1 t (g_tick_head s)) s"
    by (subst tick_list_rm_eq) (simp_all add: mem upd_task_def move_def k_def)
  show ?thesis
  proof (cases "task_state (tasks s t) = K_SLEEP")
    case True
    have "tick_expire t s = move t k (rq_add (prio (tasks s t) = prio (tasks s (g_active_task s))) (g_ready_queue s) (prio (tasks s t)) t)
        (remove1 t (g_tick_head s)) s"
      using True tl by (simp add: tick_expire_def after_expiry_def ready_list_add_eq k_def move_def if_distrib [of prio] cong: if_cong)
    moreover have "base_ok \<dots>"
      using n True by (intro base_ok_make_ready [OF base]) (auto simp: k_def after_expiry_def ready_def)
    ultimately show ?thesis using expired_move [OF assms(1) _ assms(2) k_def] by simp
  next
    case False
    have sw: "(tasks s t)\<lparr>task_state := K_SUSPENDED, blk_state := BLK_FINISH\<rparr> = (tasks s t)\<lparr>blk_state := BLK_FINISH, task_state := K_SUSPENDED\<rparr>"
      by (rule ktask.equality) simp_all
    have "tick_expire t s = move t k (g_ready_queue s) (remove1 t (g_tick_head s)) s"
      using False st tl by (auto simp: tick_expire_def after_expiry_def upd_task_def k_def sw)
    moreover have "base_ok \<dots>"
    proof (rule base_ok_move [OF base])
      show "rdy_ok (g_ready_queue s) ((tasks s)(t := k))"
        using n(1,2) False by (intro rdy_ok_idle_change [OF D(1)]) (auto simp: k_def after_expiry_def state_defs)
      show "tick_ok (remove1 t (g_tick_head s)) (g_tick_count s) ((tasks s)(t := k))"
        by (rule tick_ok_drop [OF D(3)]) (simp_all add: k_def sleeping_def after_expiry_def)
    qed (use n in \<open>auto simp: k_def state_defs after_expiry_def\<close>)
    ultimately show ?thesis using expired_move [OF assms(1) _ assms(2) k_def] by simp
  qed
qed

lemma pend_expired:
  assumes "kinv s" "pended (tasks s t)"
  shows "kinv (tick_expire t s) \<and> expired t s (tick_expire t s)"
proof -
  note base = kinvD(1) [OF assms(1)]
  note mem = base_ok_mem(1) [OF base assms(2)] base_ok_mem(2) [OF base, of t]
  define st where "st = after_expiry (task_state (tasks s t))"
  define k where "k = (tasks s t)\<lparr>tick_head := False, blk_state := BLK_TIMEOUT, task_state := st\<rparr>"
  have k: "live k" "\<not> pended k" "\<not> sleeping k" "\<not> tick_head k" "blk_obj k = blk_obj (tasks s t)" "same_pri (tasks s t) k"
    by (auto simp: k_def state_defs same_pri_def st_def after_expiry_def)
  define b where "b = (prio (tasks s t) = prio (tasks s (g_active_task s)))"
  define s1 where "s1 = left_state t k (if ready k then rq_add b (g_ready_queue s) (prio (tasks s t)) t else g_ready_queue s)
    (remove1 t (g_tick_head s)) s"
  note w = waiter_gone [OF assms(1,2) k, where b = b, folded s1_def]
  have "tick_expire t s = upd_task t (\<lambda>k. k\<lparr>blk_obj := NULL\<rparr>) (mutex_task_pri_reset t s1)"
  proof (cases "task_state (tasks s t) = K_PEND")
    case True
    have "upd_task t (\<lambda>k. k\<lparr>blk_state := BLK_TIMEOUT, task_state := K_RDY\<rparr>) (ready_list_add t (blk_list_rm t (tick_list_rm t s))) = s1"
      using True by (simp add: mem tick_list_rm_eq blk_list_rm_eq ready_list_add_eq upd_task_def left_state_def s1_def k_def st_def
        after_expiry_def b_def ready_def if_distrib [of prio] cong: if_cong)
    with True show ?thesis by (simp add: tick_expire_def)
  next
    case False
    then have ps: "task_state (tasks s t) = K_PEND_SUSPENDED" using assms(2) by (simp add: pended_def)
    have "upd_task t (\<lambda>k. k\<lparr>blk_state := BLK_TIMEOUT, task_state := K_SUSPENDED\<rparr>) (blk_list_rm t (tick_list_rm t s)) = s1"
      using ps by (intro kernel.equality) (simp_all add: mem tick_list_rm_eq blk_list_rm_eq upd_task_def left_state_def s1_def k_def st_def
        after_expiry_def ready_def)
    with ps show ?thesis by (simp add: tick_expire_def)
  qed
  moreover have "task_state (tasks (upd_task t (\<lambda>k. k\<lparr>blk_obj := NULL\<rparr>) (mutex_task_pri_reset t s1)) t) = st"
    "blk_state (tasks (upd_task t (\<lambda>k. k\<lparr>blk_obj := NULL\<rparr>) (mutex_task_pri_reset t s1)) t) = BLK_TIMEOUT"
    "\<not> tick_head (tasks (upd_task t (\<lambda>k. k\<lparr>blk_obj := NULL\<rparr>) (mutex_task_pri_reset t s1)) t)"
    by (subst w(5), simp add: k_def)+
  moreover have "but_prio (tasks s u) (tasks (upd_task t (\<lambda>k. k\<lparr>blk_obj := NULL\<rparr>) (mutex_task_pri_reset t s1)) u)" if "u \<noteq> t" for u
    using w(4) [OF that] unfolding but_prio_def by blast
  ultimately show ?thesis using w(1-3,6,7) assms(2) by (simp add: expired_def st_def)
qed

lemma tick_expire_expired:
  assumes "kinv s" "tick_head (tasks s t)"
  shows "kinv (tick_expire t s) \<and> expired t s (tick_expire t s)"
  using tick_okD(3) [OF base_okD(3) [OF kinvD(1) [OF assms(1)]] assms(2)] sleep_expired [OF assms(1)] pend_expired [OF assms(1)] by blast

section \<open>A tick\<close>

abbreviation due :: "kernel \<Rightarrow> tid \<Rightarrow> bool" where
  "due s t \<equiv> sint (tick_match (tasks s t) - g_tick_count s) \<le> 0"

text \<open>What a run of the loop from the head of the tick list does.\<close>

definition ticked :: "kernel \<Rightarrow> kernel \<Rightarrow> bool" where
  "ticked s s' \<longleftrightarrow> obj_frame s s' \<and> run_frame s s' \<and> g_tick_head s' = dropWhile (due s) (g_tick_head s) \<and> g_tick_count s' = g_tick_count s
     \<and> (\<forall>u. u \<notin> set (takeWhile (due s) (g_tick_head s)) \<longrightarrow> but_prio (tasks s u) (tasks s' u))
     \<and> (\<forall>u \<in> set (takeWhile (due s) (g_tick_head s)). task_state (tasks s' u) = after_expiry (task_state (tasks s u))
          \<and> blk_state (tasks s' u) = (if pended (tasks s u) then BLK_TIMEOUT else BLK_FINISH))"

lemma ticked_step:
  assumes "g_tick_head s = t # ts" "due s t" "t \<notin> set ts" "expired t s s1" "ticked s1 s'"
  shows "ticked s s'"
proof -
  let ?d = "takeWhile (due s) ts"
  have e: "obj_frame s s1" "run_frame s s1" "g_tick_head s1 = ts" "g_tick_count s1 = g_tick_count s"
    "\<And>u. u \<noteq> t \<Longrightarrow> but_prio (tasks s u) (tasks s1 u)" "task_state (tasks s1 t) = after_expiry (task_state (tasks s t))"
    "blk_state (tasks s1 t) = (if pended (tasks s t) then BLK_TIMEOUT else BLK_FINISH)"
    using assms(1,4) by (auto simp: expired_def)
  have "due s1 u = due s u" if "u \<in> set ts" for u
  proof -
    have "u \<noteq> t" using that assms(3) by auto
    then show ?thesis using but_prioD(1) [OF e(5), of u] e(4) by simp
  qed
  then have w: "takeWhile (due s1) ts = ?d" "dropWhile (due s1) ts = dropWhile (due s) ts"
    by (auto intro: takeWhile_cong dropWhile_cong)
  have n: "t \<notin> set ?d" using assms(3) by (auto dest: set_takeWhileD)
  have k: "obj_frame s1 s'" "run_frame s1 s'" "g_tick_head s' = dropWhile (due s) ts" "g_tick_count s' = g_tick_count s1"
    "\<And>u. u \<notin> set ?d \<Longrightarrow> but_prio (tasks s1 u) (tasks s' u)"
    "\<And>u. u \<in> set ?d \<Longrightarrow> task_state (tasks s' u) = after_expiry (task_state (tasks s1 u))
          \<and> blk_state (tasks s' u) = (if pended (tasks s1 u) then BLK_TIMEOUT else BLK_FINISH)"
    using assms(5) unfolding ticked_def e(3) w by blast+
  have "but_prio (tasks s u) (tasks s' u)" if "u \<noteq> t" "u \<notin> set ?d" for u
    using but_prio_trans [OF e(5) [OF that(1)] k(5) [OF that(2)]] .
  moreover have "task_state (tasks s' u) = after_expiry (task_state (tasks s u)) \<and> blk_state (tasks s' u) = (if pended (tasks s u) then BLK_TIMEOUT else BLK_FINISH)"
    if u: "u \<in> set ?d" for u
  proof -
    have "u \<noteq> t" using u n by auto
    then show ?thesis using k(6) [OF u] but_prioD(2,4) [OF e(5), of u] by simp
  qed
  moreover have "task_state (tasks s' t) = after_expiry (task_state (tasks s t)) \<and> blk_state (tasks s' t) = (if pended (tasks s t) then BLK_TIMEOUT else BLK_FINISH)"
    using but_prioD(2,3) [OF k(5) [OF n]] e(6,7) by simp
  ultimately show ?thesis
    using obj_frame_trans [OF e(1) k(1)] run_frame_trans [OF e(2) k(2)] e(4) k(3,4) assms(1,2) by (simp add: ticked_def)
qed

lemma tick_loop_ok:
  assumes "kinv (at_time now s)" "xs = g_tick_head s"
  shows "kinv (at_time now (tick_loop xs s)) \<and> ticked s (tick_loop xs s)"
  using assms
proof (induction xs arbitrary: s)
  case Nil
  then show ?case by (simp add: ticked_def)
next
  case (Cons t ts)
  show ?case
  proof (cases "due s t")
    case False
    then show ?thesis using Cons.prems by (simp add: ticked_def flip: Cons.prems(2))
  next
    case True
    note D = tick_okD [OF base_okD(3) [OF kinvD(1) [OF Cons.prems(1)]]]
    have th: "tick_head (tasks (at_time now s) t)" "t \<notin> set ts" using D(1) D(2) [of t] Cons.prems(2) [symmetric] by auto
    define s1 where "s1 = tick_expire t s"
    have s1': "s1 = at_time (g_tick_count s) (tick_expire t (at_time now s))"
      using tick_expire_time [of t "g_tick_count s" "at_time now s"] by (simp add: s1_def)
    have "at_time now (tick_expire t (at_time now s)) = tick_expire t (at_time now s)"
      using tick_expire_time [of t now "at_time now s"] by simp
    then have t1: "at_time now s1 = tick_expire t (at_time now s)" unfolding s1' by simp
    have e: "kinv (at_time now s1)" "expired t s s1"
      using tick_expire_expired [OF Cons.prems(1) th(1)] unfolding t1
      by (simp_all add: s1' expired_def obj_frame_def run_frame_def)
    then have "ts = g_tick_head s1" using Cons.prems(2) [symmetric] by (simp add: expired_def)
    note IH = Cons.IH [OF e(1) this]
    have eq: "tick_loop (t # ts) s = tick_loop ts s1" using True by (simp add: s1_def)
    show ?thesis
      unfolding eq using IH ticked_step [OF Cons.prems(2) [symmetric] True th(2) e(2)] by blast
  qed
qed

text \<open>The tasks that are left have more than the tick to go, and stay in order.\<close>

lemma sint_pos_neq: "0 < sint (a - b :: 64 word) \<Longrightarrow> a \<noteq> b"
  by auto

lemma left_over:
  assumes "tick_ok ts now T" "g_tick_count s = now + 1" "tasks s = T" "t \<in> set (dropWhile (due s) ts)"
  shows "tick_match (T t) \<noteq> now + 1"
proof -
  obtain x xs where d: "dropWhile (due s) ts = x # xs" using assms(4) by (cases "dropWhile (due s) ts") auto
  then have "\<not> due s x" using hd_dropWhile [of "due s" ts] by auto
  then have x: "tick_match (T x) - now \<noteq> 1" using assms(2,3) by (auto simp: algebra_simps dest!: sint_pos_neq)
  have "suffix (x # xs) ts" using d suffix_dropWhile by metis
  then have sub: "set (x # xs) \<subseteq> set ts" and "sorted (map (\<lambda>u. tick_match (T u) - now) (x # xs))"
    using tick_okD(6) [OF assms(1)] by (auto simp: suffix_def sorted_append dest: set_mono_suffix)
  then have le: "tick_match (T x) - now \<le> tick_match (T t) - now" using assms(4) d by auto
  have "x \<in> set ts" using sub by auto
  then have "tick_match (T x) \<noteq> now" using tick_okD(2,5) [OF assms(1)] by blast
  then have "tick_match (T x) - now \<noteq> 0" by simp
  with x have "1 < tick_match (T x) - now" by (metis word_less_1 less_linear word_coorder.not_eq_extremum)
  with le have "1 < tick_match (T t) - now" by order
  then show ?thesis by auto
qed

lemma tick_ok_shift:
  assumes "tick_ok ts now T" "\<And>t. t \<in> set ts \<Longrightarrow> tick_match (T t) \<noteq> now + 1"
  shows "tick_ok ts (now + 1) T"
proof (rule tick_okI)
  note D = tick_okD [OF assms(1)]
  have le: "a - (now + 1) \<le> b - (now + 1)" if "a - now \<le> b - now" "a - now \<noteq> 0" for a b
  proof -
    have "b - now \<noteq> 0" using that by (metis word_le_0_iff)
    then have "(a - now) - 1 \<le> (b - now) - 1" using that by (simp add: word_le_nat_alt unat_minus_one)
    then show ?thesis by (simp add: algebra_simps)
  qed
  show "sorted (map (\<lambda>t. tick_match (T t) - (now + 1)) ts)"
    unfolding sorted_iff_nth_mono length_map
  proof (intro allI impI)
    fix i j
    assume ij: "i \<le> j" "j < length ts"
    then have "tick_head (T (ts ! i))" using D(2) [of "ts ! i"] by simp
    then have "tick_match (T (ts ! i)) - now \<noteq> 0" using D(5) by simp
    moreover have "tick_match (T (ts ! i)) - now \<le> tick_match (T (ts ! j)) - now"
      using D(6) ij by (auto simp: sorted_iff_nth_mono)
    ultimately show "map (\<lambda>t. tick_match (T t) - (now + 1)) ts ! i \<le> map (\<lambda>t. tick_match (T t) - (now + 1)) ts ! j"
      using le ij by simp
  qed
qed (use assms tick_okD [OF assms(1)] in auto)

lemma tick_list_update_ok:
  assumes "kinv s"
  shows "kinv (tick_list_update 1 s)" "ticked (at_time (g_tick_count s + 1) s) (tick_list_update 1 s)"
proof -
  define now where "now = g_tick_count s"
  define s0 where "s0 = at_time (now + 1) s"
  define s' where "s' = tick_list_update 1 s"
  have now: "at_time now s0 = s" by (simp add: s0_def now_def)
  have "s' = tick_loop (g_tick_head s0) s0" by (simp add: s'_def tick_list_update_def s0_def now_def)
  then have k: "kinv (at_time now s')" and t: "ticked s0 s'"
    using tick_loop_ok [of now s0 "g_tick_head s0"] assms now by auto
  then show "ticked (at_time (g_tick_count s + 1) s) (tick_list_update 1 s)" by (simp add: s0_def s'_def now_def)
  note D = base_okD [OF kinvD(1) [OF k]]
  have e: "g_tick_head s' = dropWhile (due s0) (g_tick_head s)" "g_tick_count s' = now + 1" using t by (simp_all add: ticked_def s0_def)
  have "tick_match (tasks s' u) \<noteq> now + 1" if u: "u \<in> set (g_tick_head s')" for u
  proof -
    have tk: "tick_ok (g_tick_head s) now (tasks s)" using base_okD(3) [OF kinvD(1) [OF assms]] by (simp add: now_def)
    have u': "u \<in> set (dropWhile (due s0) (g_tick_head s))" using u e(1) by simp
    moreover have "distinct (takeWhile (due s0) (g_tick_head s) @ dropWhile (due s0) (g_tick_head s))" using tick_okD(1) [OF tk] by simp
    ultimately have "u \<notin> set (takeWhile (due s0) (g_tick_head s))" by (auto simp only: distinct_append)
    then have "tick_match (tasks s' u) = tick_match (tasks s u)"
      using t but_prioD(1) by (fastforce simp: ticked_def s0_def)
    then show ?thesis using left_over [OF tk, of s0 u] u' by (simp add: s0_def)
  qed
  then have "tick_ok (g_tick_head s') (now + 1) (tasks s')" using tick_ok_shift D(3) by simp
  then have "base_ok s'" using D e(2) by (simp add: base_ok_def)
  moreover have "none_ok {} (objs s')" "s_mtx_ok s'" "s_pi_ok s'" "idle_ok s'"
    using kinvD(2-5) [OF k] by (simp_all add: idle_ok_def idle_task_ok_def)
  ultimately show "kinv (tick_list_update 1 s)" unfolding s'_def [symmetric] by (rule kinvI)
qed

section \<open>When a task wakes up\<close>

lemma due_last_tick:
  fixes r :: tick_t
  assumes "r \<noteq> 0" "r \<le> 2 ^ 63" "sint (r - 1) \<le> 0"
  shows "r = 1"
proof -
  have u: "unat (r - 1) = unat r - 1" using assms(1) by (rule unat_minus_one)
  have le: "unat r \<le> 2 ^ 63" using assms(2) by (simp add: word_le_nat_alt)
  define n where "n = unat (r - 1)"
  have n: "n < 2 ^ 63" using le u assms(1) by (simp add: n_def unat_gt_0 [symmetric] unat_eq_0)
  have "uint (r - 1) = int n" by (simp add: n_def)
  then have "sint (r - 1) = signed_take_bit 63 (int n)" by (simp add: sint_uint)
  also have "\<dots> = int n" using n by (intro signed_take_bit_int_eq_self) simp_all
  finally have "n = 0" using assms(3) by linarith
  then have "unat (r - 1) = unat (0 :: tick_t)" by (simp add: n_def)
  then show ?thesis by (simp only: word_unat_eq_iff [symmetric]) simp
qed

lemma tick_one:
  assumes "kinv s" "tick_head (tasks s t)" "tick_match (tasks s t) - g_tick_count s \<le> 2 ^ 63"
  defines "s' \<equiv> tick_list_update 1 s"
  shows "tick_match (tasks s t) - g_tick_count s = 1 \<Longrightarrow> task_state (tasks s' t) = after_expiry (task_state (tasks s t))
      \<and> blk_state (tasks s' t) = (if pended (tasks s t) then BLK_TIMEOUT else BLK_FINISH)"
    and "tick_match (tasks s t) - g_tick_count s \<noteq> 1 \<Longrightarrow> but_prio (tasks s t) (tasks s' t)"
    and "g_tick_count s' = g_tick_count s + 1"
proof -
  let ?s = "at_time (g_tick_count s + 1) s" and ?r = "tick_match (tasks s t) - g_tick_count s"
  note u = tick_list_update_ok [OF assms(1), folded s'_def]
  have tk: "tick_ok (g_tick_head s) (g_tick_count s) (tasks s)" using base_okD(3) [OF kinvD(1) [OF assms(1)]] .
  have mem: "t \<in> set (takeWhile (due ?s) (g_tick_head s) @ dropWhile (due ?s) (g_tick_head s))"
    using tick_okD(2) [OF tk] assms(2) by simp
  have r0: "?r \<noteq> 0" using tick_okD(5) [OF tk assms(2)] by simp
  show "g_tick_count s' = g_tick_count s + 1" using u(2) by (simp add: ticked_def)
  have "t \<notin> set (dropWhile (due ?s) (g_tick_head s))" if "?r = 1"
    using left_over [OF tk, of ?s t] that by (auto simp: algebra_simps)
  then have "t \<in> set (takeWhile (due ?s) (g_tick_head s))" if "?r = 1" using that mem unfolding set_append by blast
  then show "?r = 1 \<Longrightarrow> task_state (tasks s' t) = after_expiry (task_state (tasks s t))
      \<and> blk_state (tasks s' t) = (if pended (tasks s t) then BLK_TIMEOUT else BLK_FINISH)"
    using u(2) by (simp add: ticked_def)
  have "?r = 1" if "t \<in> set (takeWhile (due ?s) (g_tick_head s))"
    using that r0 assms(3) by (intro due_last_tick) (auto simp: algebra_simps dest: set_takeWhileD)
  then show "?r \<noteq> 1 \<Longrightarrow> but_prio (tasks s t) (tasks s' t)" using u(2) by (auto simp: ticked_def)
qed

lemma ticks_until:
  assumes "kinv s" "tick_head (tasks s t)" "unat (tick_match (tasks s t) - g_tick_count s) = n" "n \<le> 2 ^ 63" "k < n"
  shows "kinv ((tick_list_update 1 ^^ k) s)" "but_prio (tasks s t) (tasks ((tick_list_update 1 ^^ k) s) t)"
    and "unat (tick_match (tasks ((tick_list_update 1 ^^ k) s) t) - g_tick_count ((tick_list_update 1 ^^ k) s)) = n - k"
proof -
  let ?s = "\<lambda>k. (tick_list_update 1 ^^ k) s" and ?r = "\<lambda>s. tick_match (tasks s t) - g_tick_count s"
  have "kinv (?s k) \<and> but_prio (tasks s t) (tasks (?s k) t) \<and> unat (?r (?s k)) = n - k" using assms(5)
  proof (induction k)
    case 0
    then show ?case using assms(1,3) by simp
  next
    case (Suc k)
    then have IH: "kinv (?s k)" "but_prio (tasks s t) (tasks (?s k) t)" "unat (?r (?s k)) = n - k" by auto
    have th: "tick_head (tasks (?s k) t)" using but_prioD(5) [OF IH(2)] assms(2) by simp
    have le: "?r (?s k) \<le> 2 ^ 63" using IH(3) assms(4) by (simp add: word_le_nat_alt)
    have ne: "?r (?s k) \<noteq> 1" "?r (?s k) \<noteq> 0" using IH(3) Suc.prems by auto
    note st = tick_one [OF IH(1) th le]
    have bp: "but_prio (tasks (?s k) t) (tasks (?s (Suc k)) t)" using st(2) [OF ne(1)] by simp
    have "?r (?s (Suc k)) = ?r (?s k) - 1" using st(3) but_prioD(1) [OF bp] by simp
    then have "unat (?r (?s (Suc k))) = n - Suc k" using unat_minus_one [OF ne(2)] IH(3) by simp
    then show ?case using tick_list_update_ok(1) [OF IH(1)] but_prio_trans [OF IH(2) bp] by simp
  qed
  then show "kinv (?s k)" "but_prio (tasks s t) (tasks (?s k) t)" "unat (?r (?s k)) = n - k" by auto
qed

lemma ticks_at:
  assumes "kinv s" "tick_head (tasks s t)" "unat (tick_match (tasks s t) - g_tick_count s) = n" "n \<le> 2 ^ 63"
  shows "task_state (tasks ((tick_list_update 1 ^^ n) s) t) = after_expiry (task_state (tasks s t))"
    and "blk_state (tasks ((tick_list_update 1 ^^ n) s) t) = (if pended (tasks s t) then BLK_TIMEOUT else BLK_FINISH)"
proof -
  have "tick_match (tasks s t) - g_tick_count s \<noteq> 0"
    using tick_okD(5) [OF base_okD(3) [OF kinvD(1) [OF assms(1)]] assms(2)] by simp
  then have "n \<noteq> 0" using assms(3) by (metis unat_0 word_unat_eq_iff)
  then obtain k where n: "n = Suc k" by (cases n) auto
  let ?s = "(tick_list_update 1 ^^ k) s"
  note T = ticks_until [OF assms, of k]
  have K: "kinv ?s" "but_prio (tasks s t) (tasks ?s t)" "unat (tick_match (tasks ?s t) - g_tick_count ?s) = 1" using T n by auto
  have r: "tick_match (tasks ?s t) - g_tick_count ?s = 1" using K(3) by (metis unat_1 word_unat_eq_iff)
  have "tick_head (tasks ?s t)" using but_prioD(5) [OF K(2)] assms(2) by simp
  from tick_one(1) [OF K(1) this _ r] r but_prioD(2,4) [OF K(2)] n
  show "task_state (tasks ((tick_list_update 1 ^^ n) s) t) = after_expiry (task_state (tasks s t))"
    "blk_state (tasks ((tick_list_update 1 ^^ n) s) t) = (if pended (tasks s t) then BLK_TIMEOUT else BLK_FINISH)"
    by simp_all
qed

section \<open>The time slice\<close>

lemma time_slice_upd_frames:
  assumes "kinv s"
  shows "kinv (time_slice_upd s)" "obj_frame s (time_slice_upd s)" "run_frame s (time_slice_upd s)"
proof -
  let ?p = "prio (tasks s (g_active_task s))"
  have "kinv (time_slice_upd s) \<and> obj_frame s (time_slice_upd s) \<and> run_frame s (time_slice_upd s)"
  proof (cases "cur_list_item (g_ready_queue s) ?p")
    case Nil
    then show ?thesis using assms by (simp add: time_slice_upd_def)
  next
    case (Cons t rest)
    have ne: "neutral (\<lambda>k. k\<lparr>time_slice := f k\<rparr>)" for f by (simp add: neutral_def)
    define s1 where "s1 = (if time_slice (tasks s t) > 0 then upd_task t (\<lambda>k. k\<lparr>time_slice := time_slice k - 1\<rparr>) s else s)"
    have s1: "kinv s1" "obj_frame s s1" "run_frame s s1" "g_ready_queue s1 = g_ready_queue s" "prio (tasks s1 t) = prio (tasks s t)"
      using neutral_kinvx [OF assms ne [of "\<lambda>k. time_slice k - 1"], of t] assms by (auto simp: s1_def upd_task_def obj_frame_def run_frame_def ready_def)
    have pt: "prio (tasks s t) = ?p" using rdy_ok_mem [OF base_okD(1) [OF kinvD(1) [OF assms]], of t ?p] Cons by simp
    have "cur_list_item (g_ready_queue s1) ?p \<noteq> []" using Cons s1(4) by simp
    from rdy_ok_rotate [OF base_okD(1) [OF kinvD(1) [OF s1(1)]] this] obtain q where
      q: "rq_head_to_tail (g_ready_queue s1) ?p = Some q" "rdy_ok q (tasks s1)" by blast
    define s2 where "s2 = ready_list_head_to_tail t s1"
    have s2': "s2 = s1\<lparr>g_ready_queue := q\<rparr>" using q(1) s1(5) pt by (simp add: s2_def ready_list_head_to_tail_def)
    have b2: "base_ok s2" using kinvD(1) [OF s1(1)] q(2) by (simp add: s2' base_ok_def)
    have s2: "kinv s2" "obj_frame s1 s2" "run_frame s1 s2"
      using kinv_mutex_frame [OF s1(1) _ b2] kinvD(2) [OF s1(1)]
      by (auto simp: s2' mutex_frame_def idle_task_ok_def obj_frame_def run_frame_def)
    define s3 where "s3 = upd_task t (\<lambda>k. k\<lparr>time_slice := time_total k\<rparr>) s2"
    have s3: "kinv s3" "obj_frame s2 s3" "run_frame s2 s3"
      using neutral_kinvx [OF s2(1) ne [of time_total], of t] by (auto simp: s3_def upd_task_def obj_frame_def run_frame_def ready_def)
    have "time_slice_upd s = s \<or> time_slice_upd s = s1 \<or> time_slice_upd s = s3"
      by (simp add: time_slice_upd_def Cons Let_def s1_def [symmetric] s2_def [symmetric] s3_def [symmetric])
    then show ?thesis
      using assms s1 s2 s3 obj_frame_trans run_frame_trans by (metis obj_frame_refl run_frame_refl)
  qed
  then show "kinv (time_slice_upd s)" "obj_frame s (time_slice_upd s)" "run_frame s (time_slice_upd s)" by auto
qed

lemma krhino_tick_proc_ok:
  assumes "kernel_ok s" "g_intrpt_nested_level s > 0"
  shows "kernel_ok (krhino_tick_proc s)"
proof -
  define s1 where "s1 = tick_list_update 1 s"
  note u = tick_list_update_ok [OF kernel_okD(1) [OF assms(1)], folded s1_def]
  have f: "obj_frame s s1" "run_frame s s1" using u(2) by (auto simp: ticked_def obj_frame_def run_frame_def)
  note ts = time_slice_upd_frames [OF u(1)]
  have f2: "obj_frame s (time_slice_upd s1)" "run_frame s (time_slice_upd s1)"
    using obj_frame_trans [OF f(1) ts(2)] run_frame_trans [OF f(2) ts(3)] .
  have "sched_ok (time_slice_upd s1)"
    using kernel_okD(2) [OF assms(1)] assms(2) f2(2) by (auto simp: sched_ok_def run_frame_def)
  then show ?thesis
    using ts(1) obj_frame_ok [OF f2(1) kernel_okD(3) [OF assms(1)]] by (simp add: kernel_ok_def krhino_tick_proc_def s1_def)
qed

section \<open>Conversions\<close>

lemma ms_digits: "(x div 1000) * 100 + ((x mod 1000 + 9) * 100) div 1000 = (x + 9) div (10 :: nat)"
proof -
  define q r where "q = x div 1000" and "r = x mod 1000"
  have x: "x = 1000 * q + r" by (simp add: q_def r_def)
  have "((r + 9) * 100) div 1000 = (r + 9) div 10" using div_mult_mult2 [of 100 "r + 9" 10] by simp
  moreover have "(x + 9) div 10 = 100 * q + (r + 9) div 10"
    using div_mult_self3 [of 10 "100 * q" "r + 9"] by (simp add: x algebra_simps)
  ultimately show ?thesis unfolding q_def [symmetric] r_def [symmetric] by simp
qed

lemma krhino_ms_to_ticks_eq: "unat (krhino_ms_to_ticks ms) = (unat ms + 9) div 10"
proof -
  let ?x = "unat ms"
  have b: "?x < 2 ^ 64" using unsigned_less [of ms, where 'a = nat] by simp
  have s: "unat (ucast (ms mod 1000) :: 16 word) = ?x mod 1000"
  proof -
    have "?x mod 1000 < 65536" using mod_less_divisor [of 1000 ?x] by simp
    then show ?thesis by (simp add: unsigned_ucast_eq unat_mod_distrib take_bit_nat_eq_self_iff)
  qed
  have d: "ms div 1000 = of_nat (?x div 1000)" by (simp add: word_arith_nat_div)
  have "krhino_ms_to_ticks ms = of_nat ((?x div 1000) * 100 + ((?x mod 1000 + 9) * 100) div 1000)"
    by (simp add: krhino_ms_to_ticks_def RHINO_CONFIG_TICKS_PER_SECOND_def Let_def s d)
  then have "krhino_ms_to_ticks ms = of_nat ((?x + 9) div 10)" by (simp only: ms_digits)
  moreover have "(?x + 9) div 10 < 2 ^ 64" using b by simp
  ultimately show ?thesis by (simp add: unat_of_nat take_bit_nat_eq_self_iff)
qed

lemma krhino_ticks_to_ms_eq: "krhino_ticks_to_ms ticks = ticks * 10"
proof -
  let ?x = "unat ticks"
  have m: "?x mod 100 < 100" by simp
  have "(ucast (ticks mod 100) :: u32) = of_nat (?x mod 100)"
    by (rule word_unat_eq_iff [THEN iffD2]) (use m in \<open>simp add: unsigned_ucast_eq unat_mod_distrib take_bit_nat_eq_self_iff unat_of_nat take_bit_nat_eq_self_iff\<close>)
  moreover have "unat (((of_nat (?x mod 100) :: u32) * 1000) div 100) = ?x mod 100 * 10"
    using m by (simp add: unat_div_distrib unat_mult_lem [THEN iffD1] unat_of_nat take_bit_nat_eq_self_iff)
  then have "ucast (((of_nat (?x mod 100) :: u32) * 1000) div 100) = (of_nat (?x mod 100 * 10) :: tick_t)"
    by (metis of_nat_unat)
  ultimately have "krhino_ticks_to_ms ticks = (ticks div 100) * 1000 + of_nat (?x mod 100 * 10)"
    by (simp only: krhino_ticks_to_ms_def RHINO_CONFIG_TICKS_PER_SECOND_def Let_def) simp
  also have "ticks div 100 = of_nat (?x div 100)" by (simp add: word_arith_nat_div)
  also have "of_nat (?x div 100) * 1000 + of_nat (?x mod 100 * 10) = (of_nat ((?x div 100 * 100 + ?x mod 100) * 10) :: tick_t)"
    by (simp only: of_nat_add of_nat_mult of_nat_numeral distrib_right mult.assoc) simp
  also have "\<dots> = ticks * 10" by (simp only: div_mult_mod_eq of_nat_mult) simp
  finally show ?thesis .
qed

end
