(* ===== verification/Rhino_System.thy ===== *)
theory Rhino_System
  imports Rhino_BufQueue Rhino_Tick
begin

text \<open>
  The state of the kernel together with the services that run as tasks on top of it: the software
  timers of \<^verbatim>\<open>k_timer.c\<close> and the work queues of \<^verbatim>\<open>k_workqueue.c\<close>.  The kernel proper is the field
  \<open>kern\<close>; the services change it through its calls only.
\<close>

section \<open>Timers\<close>

datatype k_timer_state_t = TIMER_DEACTIVE | TIMER_ACTIVE

text \<open>\<open>to_head\<close> says whether the pointer of that name is set.\<close>

record ktimer =
  to_head :: bool
  timer_name :: ptr
  timer_cb :: ptr
  timer_cb_arg :: ptr
  timer_match :: sys_time_t
  timer_remain :: sys_time_t
  init_count :: sys_time_t
  round_ticks :: sys_time_t
  timer_priv :: ptr
  timer_obj_type :: kobj_type
  timer_state :: k_timer_state_t
  timer_alloc_flag :: u8

text \<open>
  A command to the timer task.  \<open>cb_u\<close> are the eight bytes of the union, \<open>cb_pad\<close> the bytes the
  compiler adds after \<open>cb_num\<close>.
\<close>

record k_timer_queue_cb =
  cb_timer :: ptr
  cb_num :: u8
  cb_pad :: "byte list"
  cb_first :: sys_time_t
  cb_u :: u64

definition TIMER_CMD_START :: u8 where
  "TIMER_CMD_START = 1"

definition TIMER_CMD_STOP :: u8 where
  "TIMER_CMD_STOP = 2"

definition TIMER_CMD_CHG :: u8 where
  "TIMER_CMD_CHG = 3"

definition TIMER_ARG_CHG :: u8 where
  "TIMER_ARG_CHG = 4"

definition TIMER_ARG_CHG_AUTO :: u8 where
  "TIMER_ARG_CHG_AUTO = 5"

definition TIMER_CMD_DEL :: u8 where
  "TIMER_CMD_DEL = 6"

definition TIMER_CMD_DYN_DEL :: u8 where
  "TIMER_CMD_DYN_DEL = 7"

lemmas timer_cmd_defs = TIMER_CMD_START_def TIMER_CMD_STOP_def TIMER_CMD_CHG_def TIMER_ARG_CHG_def TIMER_ARG_CHG_AUTO_def
  TIMER_CMD_DEL_def TIMER_CMD_DYN_DEL_def

section \<open>Work queues\<close>

record kwork =
  work_handle :: ptr
  work_arg :: ptr
  work_dly :: tick_t
  work_timer :: ptr
  work_wq :: ptr
  work_exit :: u8

text \<open>\<open>wq_sem\<close> and \<open>wq_worker\<close> are the addresses of the semaphore and of the task in the structure.\<close>

record kworkqueue =
  work_list :: "ptr list"
  work_current :: ptr
  wq_name :: ptr
  wq_worker :: tid
  wq_sem :: oid

section \<open>The state\<close>

record ksys =
  kern :: kernel
  timers :: "ptr \<Rightarrow> ktimer"
  g_timer_head :: "ptr list"
  g_timer_count :: sys_time_t
  g_timer_queue :: oid
  works :: "ptr \<Rightarrow> kwork"
  workqueues :: "ptr \<Rightarrow> kworkqueue"
  g_workqueue_list_head :: "ptr list"
  g_workqueue_default :: ptr
  g_idle_count :: u64

definition upd_timer :: "ptr \<Rightarrow> (ktimer \<Rightarrow> ktimer) \<Rightarrow> ksys \<Rightarrow> ksys" where
  "upd_timer t f s = s\<lparr>timers := (timers s)(t := f (timers s t))\<rparr>"

definition upd_work :: "ptr \<Rightarrow> (kwork \<Rightarrow> kwork) \<Rightarrow> ksys \<Rightarrow> ksys" where
  "upd_work w f s = s\<lparr>works := (works s)(w := f (works s w))\<rparr>"

definition upd_wq :: "ptr \<Rightarrow> (kworkqueue \<Rightarrow> kworkqueue) \<Rightarrow> ksys \<Rightarrow> ksys" where
  "upd_wq q f s = s\<lparr>workqueues := (workqueues s)(q := f (workqueues s q))\<rparr>"

lemmas sys_upd_defs = upd_timer_def upd_work_def upd_wq_def

text \<open>A call of the kernel, with its result.\<close>

definition kcall :: "(kernel \<Rightarrow> 'r \<times> kernel) \<Rightarrow> ksys \<Rightarrow> 'r \<times> ksys" where
  "kcall f s = (let (r, k) = f (kern s) in (r, s\<lparr>kern := k\<rparr>))"

lemma kcall_simps [simp]:
  "fst (kcall f s) = fst (f (kern s))" "kern (snd (kcall f s)) = snd (f (kern s))"
  "timers (snd (kcall f s)) = timers s" "g_timer_head (snd (kcall f s)) = g_timer_head s" "g_timer_count (snd (kcall f s)) = g_timer_count s"
  "works (snd (kcall f s)) = works s" "workqueues (snd (kcall f s)) = workqueues s"
  "g_workqueue_list_head (snd (kcall f s)) = g_workqueue_list_head s" "g_timer_queue (snd (kcall f s)) = g_timer_queue s"
  "g_workqueue_default (snd (kcall f s)) = g_workqueue_default s" "g_idle_count (snd (kcall f s)) = g_idle_count s"
  by (simp_all add: kcall_def split: prod.split)

end
