(* ===== verification/Rhino_Timer.thy ===== *)
theory Rhino_Timer
  imports Rhino_System Rhino_Queue
begin

text \<open>
  Software timers: \<^verbatim>\<open>kernel/rhino/core/k_timer.c\<close>.

  The calls of the users only send commands through a buffer queue; the timer task receives and
  executes them, keeps the active timers in a list ordered by the time left, and calls the
  functions of the timers that are due.

  A function that a timer calls is not part of the kernel: it is the parameter \<open>run\<close> of the
  definitions, given the address of the function, the timer and the argument.
\<close>

section \<open>The list of active timers\<close>

definition timer_list_pri_insert :: "ptr \<Rightarrow> ksys \<Rightarrow> ksys" where
  "timer_list_pri_insert timer s =
     (let val = timer_remain (timers s timer)
      in s\<lparr>g_timer_head := insert_before_first (\<lambda>q. timer_match (timers s q) - g_timer_count s > val) timer (g_timer_head s)\<rparr>)"

definition timer_list_rm :: "ptr \<Rightarrow> ksys \<Rightarrow> ksys" where
  "timer_list_rm timer s =
     (if to_head (timers s timer)
      then upd_timer timer (\<lambda>t. t\<lparr>to_head := False\<rparr>) (s\<lparr>g_timer_head := remove1 timer (g_timer_head s)\<rparr>)
      else s)"

section \<open>Commands\<close>

text \<open>The 24 bytes of a command.\<close>

definition SIZEOF_CB :: nat where
  "SIZEOF_CB = 24"

definition u64_bytes :: "u64 \<Rightarrow> byte list" where
  "u64_bytes w = ptr_bytes (ucast w) @ ptr_bytes (ucast (drop_bit 32 w))"

definition bytes_u64 :: "byte list \<Rightarrow> u64" where
  "bytes_u64 bs = ucast (bytes_ptr (take 4 bs)) OR push_bit 32 (ucast (bytes_ptr (take 4 (drop 4 bs))))"

definition cb_bytes :: "k_timer_queue_cb \<Rightarrow> byte list" where
  "cb_bytes cb = ptr_bytes (cb_timer cb) @ [cb_num cb] @ cb_pad cb @ u64_bytes (cb_first cb) @ u64_bytes (cb_u cb)"

definition bytes_cb :: "byte list \<Rightarrow> k_timer_queue_cb" where
  "bytes_cb bs = \<lparr>cb_timer = bytes_ptr (take 4 bs), cb_num = bs ! 4, cb_pad = take 3 (drop 5 bs),
     cb_first = bytes_u64 (take 8 (drop 8 bs)), cb_u = bytes_u64 (take 8 (drop 16 bs))\<rparr>"

definition set_arg :: "ptr \<Rightarrow> k_timer_queue_cb \<Rightarrow> k_timer_queue_cb" where
  "set_arg arg cb = cb\<lparr>cb_u := ucast arg OR push_bit 32 (drop_bit 32 (cb_u cb))\<rparr>"

definition get_arg :: "k_timer_queue_cb \<Rightarrow> ptr" where
  "get_arg cb = ucast (cb_u cb)"

text \<open>
  \<open>cb\<close> in the calls below is the content of the local variable of that name before it is set, and
  \<open>cb_addr\<close> its address.
\<close>

definition cb_addr :: ptr where
  "cb_addr = 4"

definition timer_send :: "k_timer_queue_cb \<Rightarrow> ksys \<Rightarrow> kstat \<times> ksys" where
  "timer_send cb s = kcall (krhino_buf_queue_send (g_timer_queue s) cb_addr (cb_bytes cb) SIZEOF_CB) s"

definition krhino_timer_start :: "k_timer_queue_cb \<Rightarrow> ptr \<Rightarrow> ksys \<Rightarrow> kstat \<times> ksys" where
  "krhino_timer_start cb timer s =
     (if timer = NULL then (RHINO_NULL_PTR, s)
      else timer_send (cb\<lparr>cb_timer := timer, cb_num := TIMER_CMD_START\<rparr>) s)"

definition krhino_timer_stop :: "k_timer_queue_cb \<Rightarrow> ptr \<Rightarrow> ksys \<Rightarrow> kstat \<times> ksys" where
  "krhino_timer_stop cb timer s =
     (if timer = NULL then (RHINO_NULL_PTR, s)
      else timer_send (cb\<lparr>cb_timer := timer, cb_num := TIMER_CMD_STOP\<rparr>) s)"

definition krhino_timer_change :: "k_timer_queue_cb \<Rightarrow> ptr \<Rightarrow> sys_time_t \<Rightarrow> sys_time_t \<Rightarrow> ksys \<Rightarrow> kstat \<times> ksys" where
  "krhino_timer_change cb timer first round s =
     (if timer = NULL then (RHINO_NULL_PTR, s)
      else if first = 0 then (RHINO_INV_PARAM, s)
      else if first \<ge> MAX_TIMER_TICKS then (RHINO_INV_PARAM, s)
      else if round \<ge> MAX_TIMER_TICKS then (RHINO_INV_PARAM, s)
      else timer_send (cb\<lparr>cb_timer := timer, cb_first := first, cb_u := round, cb_num := TIMER_CMD_CHG\<rparr>) s)"

definition krhino_timer_arg_change :: "k_timer_queue_cb \<Rightarrow> ptr \<Rightarrow> ptr \<Rightarrow> ksys \<Rightarrow> kstat \<times> ksys" where
  "krhino_timer_arg_change cb timer arg s =
     (if timer = NULL then (RHINO_NULL_PTR, s)
      else timer_send ((set_arg arg (cb\<lparr>cb_timer := timer\<rparr>))\<lparr>cb_num := TIMER_ARG_CHG\<rparr>) s)"

definition krhino_timer_arg_change_auto :: "k_timer_queue_cb \<Rightarrow> ptr \<Rightarrow> ptr \<Rightarrow> ksys \<Rightarrow> kstat \<times> ksys" where
  "krhino_timer_arg_change_auto cb timer arg s =
     (if timer = NULL then (RHINO_NULL_PTR, s)
      else timer_send ((set_arg arg (cb\<lparr>cb_timer := timer\<rparr>))\<lparr>cb_num := TIMER_ARG_CHG_AUTO\<rparr>) s)"

definition krhino_timer_del :: "k_timer_queue_cb \<Rightarrow> ptr \<Rightarrow> ksys \<Rightarrow> kstat \<times> ksys" where
  "krhino_timer_del cb timer s =
     (if timer = NULL then (RHINO_NULL_PTR, s)
      else timer_send (cb\<lparr>cb_timer := timer, cb_num := TIMER_CMD_DEL\<rparr>) s)"

definition krhino_timer_dyn_del :: "k_timer_queue_cb \<Rightarrow> ptr \<Rightarrow> ksys \<Rightarrow> kstat \<times> ksys" where
  "krhino_timer_dyn_del cb timer s =
     (if timer = NULL then (RHINO_NULL_PTR, s)
      else timer_send (cb\<lparr>cb_timer := timer, cb_num := TIMER_CMD_DYN_DEL\<rparr>) s)"

section \<open>Creation\<close>

text \<open>A timer on the list of active timers must not be created again: its links would be lost, which is a fault.\<close>

definition timer_create ::
    "k_timer_queue_cb \<Rightarrow> ptr \<Rightarrow> ptr \<Rightarrow> ptr \<Rightarrow> sys_time_t \<Rightarrow> sys_time_t \<Rightarrow> ptr \<Rightarrow> u8 \<Rightarrow> u8 \<Rightarrow> ksys \<Rightarrow> kstat \<times> ksys" where
  "timer_create cb_mem timer name cb first round arg auto_run alloc s =
     (if timer = NULL then (RHINO_NULL_PTR, s)
      else if name = NULL then (RHINO_NULL_PTR, s)
      else if cb = NULL then (RHINO_NULL_PTR, s)
      else if first = 0 then (RHINO_INV_PARAM, s)
      else if first \<ge> MAX_TIMER_TICKS then (RHINO_INV_PARAM, s)
      else if round \<ge> MAX_TIMER_TICKS then (RHINO_INV_PARAM, s)
      else let s = (if timer \<in> set (g_timer_head s) then s\<lparr>kern := fault (kern s)\<rparr> else s);
               s = upd_timer timer (\<lambda>t. t\<lparr>timer_name := name, timer_cb := cb, init_count := first, round_ticks := round,
                     timer_remain := 0, timer_match := 0, timer_state := TIMER_DEACTIVE, to_head := False,
                     timer_alloc_flag := alloc, timer_cb_arg := arg, timer_obj_type := RHINO_TIMER_OBJ_TYPE\<rparr>) s
           in if auto_run > 0 then krhino_timer_start cb_mem timer s else (RHINO_SUCCESS, s))"

definition krhino_timer_create ::
    "k_timer_queue_cb \<Rightarrow> ptr \<Rightarrow> ptr \<Rightarrow> ptr \<Rightarrow> sys_time_t \<Rightarrow> sys_time_t \<Rightarrow> ptr \<Rightarrow> u8 \<Rightarrow> ksys \<Rightarrow> kstat \<times> ksys" where
  "krhino_timer_create cb_mem timer name cb first round arg auto_run s =
     timer_create cb_mem timer name cb first round arg auto_run K_OBJ_STATIC_ALLOC s"

text \<open>\<open>timer_obj\<close> is the address \<^verbatim>\<open>krhino_mm_alloc\<close> returned.\<close>

definition krhino_timer_dyn_create ::
    "k_timer_queue_cb \<Rightarrow> ptr \<Rightarrow> ptr \<Rightarrow> ptr \<Rightarrow> sys_time_t \<Rightarrow> sys_time_t \<Rightarrow> ptr \<Rightarrow> u8 \<Rightarrow> ptr \<Rightarrow> ksys \<Rightarrow> kstat \<times> ptr option \<times> ksys" where
  "krhino_timer_dyn_create cb_mem timer name cb first round arg auto_run timer_obj s =
     (if timer = NULL then (RHINO_NULL_PTR, None, s)
      else if timer_obj = NULL then (RHINO_NO_MEM, None, s)
      else let (ret, s) = timer_create cb_mem timer_obj name cb first round arg auto_run K_OBJ_DYN_ALLOC s
           in if ret \<noteq> RHINO_SUCCESS then (ret, None, s) else (ret, Some timer_obj, s))"

section \<open>The timer task\<close>

definition cmd_proc :: "k_timer_queue_cb \<Rightarrow> u8 \<Rightarrow> ksys \<Rightarrow> ksys" where
  "cmd_proc cb cmd s =
     (let timer = cb_timer cb; t = timers s timer
      in if cmd = TIMER_CMD_START then
           if timer_obj_type t \<noteq> RHINO_TIMER_OBJ_TYPE then s
           else if timer_state t = TIMER_ACTIVE then s
           else let s = upd_timer timer (\<lambda>t. t\<lparr>timer_match := g_timer_count s + init_count t, timer_remain := init_count t,
                          to_head := True\<rparr>) s;
                    s = timer_list_pri_insert timer s
                in upd_timer timer (\<lambda>t. t\<lparr>timer_state := TIMER_ACTIVE\<rparr>) s
         else if cmd = TIMER_CMD_STOP then
           if timer_obj_type t \<noteq> RHINO_TIMER_OBJ_TYPE then s
           else if timer_state t = TIMER_DEACTIVE then s
           else upd_timer timer (\<lambda>t. t\<lparr>timer_state := TIMER_DEACTIVE\<rparr>) (timer_list_rm timer s)
         else if cmd = TIMER_CMD_CHG then
           if cb_first cb = 0 then s
           else if timer_obj_type t \<noteq> RHINO_TIMER_OBJ_TYPE then s
           else if timer_state t \<noteq> TIMER_DEACTIVE then s
           else upd_timer timer (\<lambda>t. t\<lparr>init_count := cb_first cb, round_ticks := cb_u cb\<rparr>) s
         else if cmd = TIMER_ARG_CHG then
           if timer_obj_type t \<noteq> RHINO_TIMER_OBJ_TYPE then s
           else if timer_state t \<noteq> TIMER_DEACTIVE then s
           else upd_timer timer (\<lambda>t. t\<lparr>timer_cb_arg := get_arg cb\<rparr>) s
         else if cmd = TIMER_CMD_DEL then
           if timer_obj_type t \<noteq> RHINO_TIMER_OBJ_TYPE then s
           else if timer_state t \<noteq> TIMER_DEACTIVE then s
           else if timer_alloc_flag t \<noteq> K_OBJ_STATIC_ALLOC then s
           else upd_timer timer (\<lambda>t. t\<lparr>timer_obj_type := RHINO_OBJ_TYPE_NONE\<rparr>) s
         else if cmd = TIMER_CMD_DYN_DEL then
           if timer_obj_type t \<noteq> RHINO_TIMER_OBJ_TYPE then s
           else if timer_state t \<noteq> TIMER_DEACTIVE then s
           else if timer_alloc_flag t \<noteq> K_OBJ_DYN_ALLOC then s
           else upd_timer timer (\<lambda>t. t\<lparr>timer_obj_type := RHINO_OBJ_TYPE_NONE\<rparr>) s
         else s\<lparr>kern := k_err_proc RHINO_SYS_FATAL_ERR (kern s)\<rparr>)"

definition timer_cmd_proc :: "k_timer_queue_cb \<Rightarrow> ksys \<Rightarrow> ksys" where
  "timer_cmd_proc cb s =
     (if cb_num cb = TIMER_ARG_CHG_AUTO
      then cmd_proc cb TIMER_CMD_START (cmd_proc cb TIMER_ARG_CHG (cmd_proc cb TIMER_CMD_STOP s))
      else cmd_proc cb (cb_num cb) s)"

text \<open>
  The node after a node, \<open>None\<close> for the head of the list.  A node that was taken off the list
  keeps its link; a node that was inserted again has a new one.
\<close>

definition next_of :: "ptr \<Rightarrow> ptr list \<Rightarrow> ptr option" where
  "next_of t ts = (case dropWhile (\<lambda>x. x \<noteq> t) ts of _ # y # _ \<Rightarrow> Some y | _ \<Rightarrow> None)"

partial_function (option) timer_cb_loop :: "(ptr \<Rightarrow> ptr \<Rightarrow> ptr \<Rightarrow> ksys \<Rightarrow> ksys) \<Rightarrow> ptr option \<Rightarrow> ksys \<Rightarrow> ksys option" where
  "timer_cb_loop run q s =
     (case q of
        None \<Rightarrow> Some s
      | Some timer \<Rightarrow>
          if sint (timer_match (timers s timer) - g_timer_count s) \<le> 0 then
            let s = run (timer_cb (timers s timer)) timer (timer_cb_arg (timers s timer)) s;
                link = next_of timer (g_timer_head s);
                s = timer_list_rm timer s
            in if round_ticks (timers s timer) > 0 then
                 let s = upd_timer timer (\<lambda>t. t\<lparr>timer_remain := round_ticks t\<rparr>) s;
                     s = upd_timer timer (\<lambda>t. t\<lparr>timer_match := g_timer_count s + timer_remain t, to_head := True\<rparr>) s;
                     s = timer_list_pri_insert timer s
                 in timer_cb_loop run (next_of timer (g_timer_head s)) s
               else timer_cb_loop run link (upd_timer timer (\<lambda>t. t\<lparr>timer_state := TIMER_DEACTIVE\<rparr>) s)
          else Some s)"

definition timer_cb_proc :: "(ptr \<Rightarrow> ptr \<Rightarrow> ptr \<Rightarrow> ksys \<Rightarrow> ksys) \<Rightarrow> ksys \<Rightarrow> ksys option" where
  "timer_cb_proc run s = timer_cb_loop run (case g_timer_head s of [] \<Rightarrow> None | t # _ \<Rightarrow> Some t) s"

text \<open>
  The body of the task, from one wait for a command to the next.  \<open>timer_task_cmd\<close> runs after the
  first wait has returned \<open>err\<close>; \<open>timer_task_delta\<close> is the time to wait for the first timer;
  \<open>timer_task_wait_end\<close> runs after that wait, and \<open>timer_task_due\<close> in place of it when no time is left.
\<close>

definition timer_msg :: "ptr \<Rightarrow> ksys \<Rightarrow> k_timer_queue_cb" where
  "timer_msg cb_msg s = bytes_cb (take SIZEOF_CB (user_bufs (kern s) cb_msg))"

definition timer_task_cmd :: "ptr \<Rightarrow> kstat \<Rightarrow> ksys \<Rightarrow> ksys" where
  "timer_task_cmd cb_msg err s =
     (let tick_end = krhino_sys_tick_get (kern s);
          s = (if err = RHINO_SUCCESS then s\<lparr>g_timer_count := tick_end\<rparr>
               else s\<lparr>kern := k_err_proc RHINO_SYS_FATAL_ERR (kern s)\<rparr>)
      in timer_cmd_proc (timer_msg cb_msg s) s)"

definition timer_task_delta :: "ksys \<Rightarrow> sys_time_t option" where
  "timer_task_delta s =
     (case g_timer_head s of
        [] \<Rightarrow> None
      | timer # _ \<Rightarrow> Some (timer_match (timers s timer) - krhino_sys_tick_get (kern s)))"

definition timer_task_wait_end :: "(ptr \<Rightarrow> ptr \<Rightarrow> ptr \<Rightarrow> ksys \<Rightarrow> ksys) \<Rightarrow> ptr \<Rightarrow> kstat \<Rightarrow> ksys \<Rightarrow> ksys option" where
  "timer_task_wait_end run cb_msg err s =
     (let tick_end = krhino_sys_tick_get (kern s);
          s = (if err = RHINO_BLK_TIMEOUT then s\<lparr>g_timer_count := tick_end\<rparr>
               else if err = RHINO_SUCCESS then timer_cmd_proc (timer_msg cb_msg s) (s\<lparr>g_timer_count := tick_end\<rparr>)
               else s\<lparr>kern := k_err_proc RHINO_SYS_FATAL_ERR (kern s)\<rparr>)
      in timer_cb_proc run s)"

definition timer_task_due :: "(ptr \<Rightarrow> ptr \<Rightarrow> ptr \<Rightarrow> ksys \<Rightarrow> ksys) \<Rightarrow> ksys \<Rightarrow> ksys option" where
  "timer_task_due run s = timer_cb_proc run (s\<lparr>g_timer_count := krhino_sys_tick_get (kern s)\<rparr>)"

text \<open>The inner loop of the task, up to its next wait or to the end of the loop.\<close>

partial_function (option) timer_task_loop :: "(ptr \<Rightarrow> ptr \<Rightarrow> ptr \<Rightarrow> ksys \<Rightarrow> ksys) \<Rightarrow> ksys \<Rightarrow> ksys option" where
  "timer_task_loop run s =
     (case timer_task_delta s of
        None \<Rightarrow> Some s
      | Some delta \<Rightarrow>
          if sint delta > 0 then Some s
          else (case timer_task_due run s of None \<Rightarrow> None | Some s \<Rightarrow> timer_task_loop run s))"

section \<open>The encoding of a command\<close>

lemma u64_bytes [simp]: "length (u64_bytes w) = 8" "bytes_u64 (u64_bytes w) = w"
proof -
  show "length (u64_bytes w) = 8" by (simp add: u64_bytes_def SIZEOF_PTR_def)
  show "bytes_u64 (u64_bytes w) = w"
    by (rule bit_eqI) (auto simp: u64_bytes_def bytes_u64_def SIZEOF_PTR_def bit_simps)
qed

lemma bytes_cb_bytes: "length (cb_pad cb) = 3 \<Longrightarrow> bytes_cb (cb_bytes cb) = cb" "length (cb_pad cb) = 3 \<Longrightarrow> length (cb_bytes cb) = SIZEOF_CB"
  by (simp_all add: bytes_cb_def cb_bytes_def nth_append SIZEOF_PTR_def SIZEOF_CB_def)

lemma get_set_arg [simp]: "get_arg (set_arg a cb) = a"
  by (rule bit_eqI) (auto simp: get_arg_def set_arg_def bit_simps)

section \<open>Timers on time\<close>

text \<open>
  \<open>timers_ok\<close> is kept by every operation.  \<open>on_time\<close> says that no active timer is past its time and
  that the list is ordered by the time left.
\<close>

definition timers_ok :: "ksys \<Rightarrow> bool" where
  "timers_ok s \<longleftrightarrow> distinct (g_timer_head s)
     \<and> (\<forall>t\<in>set (g_timer_head s). to_head (timers s t) \<and> timer_obj_type (timers s t) = RHINO_TIMER_OBJ_TYPE \<and> timer_state (timers s t) = TIMER_ACTIVE)
     \<and> (\<forall>t. timer_obj_type (timers s t) = RHINO_TIMER_OBJ_TYPE \<longrightarrow>
           (t \<notin> set (g_timer_head s) \<longrightarrow> \<not> to_head (timers s t) \<and> timer_state (timers s t) = TIMER_DEACTIVE)
         \<and> 0 < init_count (timers s t) \<and> init_count (timers s t) < MAX_TIMER_TICKS \<and> round_ticks (timers s t) < MAX_TIMER_TICKS)"

abbreviation time_left :: "ksys \<Rightarrow> ptr \<Rightarrow> sys_time_t" where
  "time_left s t \<equiv> timer_match (timers s t) - g_timer_count s"

definition on_time :: "ksys \<Rightarrow> bool" where
  "on_time s \<longleftrightarrow> sorted (map (time_left s) (g_timer_head s)) \<and> (\<forall>t\<in>set (g_timer_head s). time_left s t \<le> MAX_TIMER_TICKS)"

definition due :: "ksys \<Rightarrow> ptr list" where
  "due s = filter (\<lambda>t. timer_match (timers s t) = g_timer_count s) (g_timer_head s)"

text \<open>What the task does for one timer that is due.\<close>

definition rearmed :: "sys_time_t \<Rightarrow> ktimer \<Rightarrow> ktimer" where
  "rearmed now k = (if round_ticks k > 0 then k\<lparr>timer_remain := round_ticks k, timer_match := now + round_ticks k, to_head := True\<rparr>
                    else k\<lparr>to_head := False, timer_state := TIMER_DEACTIVE\<rparr>)"

definition fire :: "(ptr \<Rightarrow> ptr \<Rightarrow> ptr \<Rightarrow> ksys \<Rightarrow> ksys) \<Rightarrow> ptr \<Rightarrow> ksys \<Rightarrow> ksys" where
  "fire run t s =
     (let k = timers s t; s = run (timer_cb k) t (timer_cb_arg k) s; ts = remove1 t (g_timer_head s)
      in s\<lparr>timers := (timers s)(t := rearmed (g_timer_count s) k),
           g_timer_head := (if round_ticks k > 0
             then insert_before_first (\<lambda>q. time_left s q > round_ticks k) t ts else ts)\<rparr>)"

text \<open>A function called by a timer works on timers through commands only, and takes less than a tick.\<close>

definition quiet :: "(ptr \<Rightarrow> ptr \<Rightarrow> ptr \<Rightarrow> ksys \<Rightarrow> ksys) \<Rightarrow> bool" where
  "quiet run \<longleftrightarrow> (\<forall>f t a s. timers (run f t a s) = timers s \<and> g_timer_head (run f t a s) = g_timer_head s
     \<and> g_timer_count (run f t a s) = g_timer_count s \<and> g_tick_count (kern (run f t a s)) = g_tick_count (kern s))"

interpretation tml: stable_insert
  "\<lambda>x. timer_match (T x) - now"
  "\<lambda>e. insert_before_first (\<lambda>x. timer_match (T e) - now < timer_match (T x) - now) e"
  for T :: "ptr \<Rightarrow> ktimer" and now :: sys_time_t
  by unfold_locales simp

lemma MAX_TIMER_TICKS_value: "MAX_TIMER_TICKS = 0x7FFFFFFFFFFFFFFF"
  by (simp add: MAX_TIMER_TICKS_def mask_eq_exp_minus_1)

lemma sint_pos: "sint w > 0 \<longleftrightarrow> w \<noteq> 0" if "w \<le> MAX_TIMER_TICKS" for w :: u64
proof -
  have "unat (mask 63 :: u64) = 2 ^ 63 - 1"
    by (simp add: unat_eq_nat_uint mask_eq_exp_minus_1)
  then have "unat w < 2 ^ 63" using that by (simp add: MAX_TIMER_TICKS_def word_le_nat_alt)
  then have u: "uint w < 2 ^ 63"
    using of_nat_less_iff [of "unat w" "2 ^ 63", where 'a = int] by simp
  have "- (2 ^ 63) \<le> uint w"
    by (rule order_trans [of _ 0]) simp_all
  with u have "sint w = uint w"
    using signed_take_bit_int_eq_self [of 63 "uint w"] by (simp add: sint_uint)
  then show ?thesis by (simp add: uint_0_iff order_less_le)
qed

lemma fire_body:
  assumes "quiet run" "to_head (timers s t)" "distinct (g_timer_head s)"
  shows "(let s = run (timer_cb (timers s t)) t (timer_cb_arg (timers s t)) s;
              link = next_of t (g_timer_head s);
              s = timer_list_rm t s
          in if round_ticks (timers s t) > 0 then
               let s = upd_timer t (\<lambda>t. t\<lparr>timer_remain := round_ticks t\<rparr>) s;
                   s = upd_timer t (\<lambda>t. t\<lparr>timer_match := g_timer_count s + timer_remain t, to_head := True\<rparr>) s;
                   s = timer_list_pri_insert t s
               in G (next_of t (g_timer_head s)) s
             else G link (upd_timer t (\<lambda>t. t\<lparr>timer_state := TIMER_DEACTIVE\<rparr>) s))
      = G (next_of t (g_timer_head (if round_ticks (timers s t) > 0 then fire run t s else s))) (fire run t s)"
proof -
  let ?s = "run (timer_cb (timers s t)) t (timer_cb_arg (timers s t)) s"
  define s1 where "s1 = timer_list_rm t ?s"
  define s2 where "s2 = upd_timer t (\<lambda>t. t\<lparr>timer_remain := round_ticks t\<rparr>) s1"
  define s3 where "s3 = upd_timer t (\<lambda>t. t\<lparr>timer_match := g_timer_count s2 + timer_remain t, to_head := True\<rparr>) s2"
  have q: "timers ?s = timers s" "g_timer_head ?s = g_timer_head s" "g_timer_count ?s = g_timer_count s"
    using assms(1) by (simp_all add: quiet_def)
  have s1: "s1 = ?s\<lparr>g_timer_head := remove1 t (g_timer_head s), timers := (timers s)(t := (timers s t)\<lparr>to_head := False\<rparr>)\<rparr>"
    using assms(2) by (simp add: s1_def timer_list_rm_def q upd_timer_def)
  have "insert_before_first (\<lambda>x. round_ticks (timers s t) < time_left s3 x) t (remove1 t (g_timer_head s))
      = insert_before_first (\<lambda>x. round_ticks (timers s t) < time_left s x) t (remove1 t (g_timer_head s))"
    using assms(3) by (intro insert_before_first_cong) (auto simp: s3_def s2_def s1 upd_timer_def q)
  then have f: "fire run t s = (if round_ticks (timers s t) > 0 then timer_list_pri_insert t s3
      else upd_timer t (\<lambda>t. t\<lparr>timer_state := TIMER_DEACTIVE\<rparr>) s1)"
    by (intro ksys.equality) (simp_all add: Let_def fire_def timer_list_pri_insert_def s3_def s2_def s1 upd_timer_def rearmed_def q)
  have r: "round_ticks (timers s1 t) = round_ticks (timers s t)"
    by (simp add: s1)
  show ?thesis
    by (simp add: Let_def q f s1_def [symmetric] s2_def [symmetric] s3_def [symmetric] r)
qed

lemma timer_cb_loop_fire:
  assumes "quiet run" "to_head (timers s t)" "distinct (g_timer_head s)" "sint (time_left s t) \<le> 0"
  shows "timer_cb_loop run (Some t) s =
    timer_cb_loop run (next_of t (g_timer_head (if round_ticks (timers s t) > 0 then fire run t s else s))) (fire run t s)"
  using assms(4) fire_body [OF assms(1-3), of "timer_cb_loop run"] by (subst timer_cb_loop.simps) simp

lemma fire_fields:
  assumes "quiet run"
  shows "timers (fire run t s) = (timers s)(t := rearmed (g_timer_count s) (timers s t))"
    "g_timer_head (fire run t s) = (if round_ticks (timers s t) > 0
       then insert_before_first (\<lambda>q. time_left s q > round_ticks (timers s t)) t (remove1 t (g_timer_head s))
       else remove1 t (g_timer_head s))"
    "g_timer_count (fire run t s) = g_timer_count s" "g_tick_count (kern (fire run t s)) = g_tick_count (kern s)"
  using assms by (simp_all add: fire_def Let_def quiet_def)

lemma due_empty:
  assumes "on_time s"
  shows "due s = [] \<longleftrightarrow> (case g_timer_head s of [] \<Rightarrow> True | t # _ \<Rightarrow> sint (time_left s t) > 0)"
proof (cases "g_timer_head s")
  case (Cons t ts)
  have "time_left s t \<le> time_left s u" if "u \<in> set ts" for u
    using assms that Cons by (auto simp: on_time_def)
  moreover have "0 < sint (time_left s t) \<longleftrightarrow> time_left s t \<noteq> 0"
    using assms Cons by (intro sint_pos) (auto simp: on_time_def)
  ultimately show ?thesis
    using Cons by (fastforce simp: due_def filter_empty_conv)
qed (simp add: due_def)

lemma due_first:
  assumes "on_time s" "due s = t # ds"
  obtains ts where "g_timer_head s = t # ts" "time_left s t = 0"
proof -
  obtain u ts where h: "g_timer_head s = u # ts" "\<not> 0 < sint (time_left s u)"
    using due_empty [OF assms(1)] assms(2) by (auto split: list.splits)
  moreover have "0 < sint (time_left s u) \<longleftrightarrow> time_left s u \<noteq> 0"
    using assms(1) h by (intro sint_pos) (auto simp: on_time_def)
  ultimately show ?thesis
    using assms(2) that by (auto simp: due_def)
qed

lemma filter_insert_before_first:
  "\<not> Q t \<Longrightarrow> filter Q (insert_before_first P t xs) = filter Q xs"
  by (induction xs) auto

lemma sorted_insert_left:
  assumes "sorted (map (time_left s) xs)" "t \<notin> set xs" "timer_match k = g_timer_count s + r"
  shows "sorted (map (\<lambda>q. timer_match (((timers s)(t := k)) q) - g_timer_count s) (insert_before_first (\<lambda>q. time_left s q > r) t xs))"
proof -
  let ?T = "(timers s)(t := k)" and ?c = "g_timer_count s"
  have "insert_before_first (\<lambda>q. time_left s q > r) t xs
      = insert_before_first (\<lambda>q. timer_match (?T t) - ?c < timer_match (?T q) - ?c) t xs"
    using assms(2,3) by (intro insert_before_first_cong) auto
  moreover have "map (\<lambda>q. timer_match (?T q) - ?c) xs = map (time_left s) xs"
    using assms(2) by auto
  ultimately show ?thesis
    using tml.sorted_ins [of ?T ?c xs t] assms(1) by metis
qed

lemma fire_first:
  assumes "quiet run" "timers_ok s" "on_time s" "due s = t # ds"
  shows "timers_ok (fire run t s)" "on_time (fire run t s)" "due (fire run t s) = ds"
proof -
  obtain ts where h: "g_timer_head s = t # ts" "time_left s t = 0" using due_first [OF assms(3,4)] .
  note f = fire_fields [OF assms(1), of t s]
  have ok: "distinct (t # ts)" "timer_obj_type (timers s t) = RHINO_TIMER_OBJ_TYPE" "to_head (timers s t)"
    "timer_state (timers s t) = TIMER_ACTIVE" "round_ticks (timers s t) < MAX_TIMER_TICKS"
    using assms(2) h by (auto simp: timers_ok_def)
  have st: "sorted (map (time_left s) ts)" "\<forall>u\<in>set ts. time_left s u \<le> MAX_TIMER_TICKS"
    using assms(3) h by (auto simp: on_time_def)
  have hd: "g_timer_head (fire run t s) = (if round_ticks (timers s t) > 0
       then insert_before_first (\<lambda>q. time_left s q > round_ticks (timers s t)) t ts else ts)"
    by (simp add: f h)
  show "timers_ok (fire run t s)"
    using assms(2) ok h(1) by (auto simp: timers_ok_def hd f rearmed_def)
  have "map (time_left (fire run t s)) ts = map (time_left s) ts"
    using ok(1) by (auto simp: f)
  moreover have "sorted (map (time_left (fire run t s)) (insert_before_first (\<lambda>q. time_left s q > round_ticks (timers s t)) t ts))"
    if "round_ticks (timers s t) > 0"
    unfolding f(1,3) using ok(1) that by (intro sorted_insert_left [OF st(1)]) (simp_all add: rearmed_def)
  ultimately have "sorted (map (time_left (fire run t s)) (g_timer_head (fire run t s)))"
    using st(1) by (simp add: hd cong: map_cong)
  moreover have "\<forall>u\<in>set (g_timer_head (fire run t s)). time_left (fire run t s) u \<le> MAX_TIMER_TICKS"
    using st(2) ok(1,5) by (auto simp: hd f rearmed_def)
  ultimately show "on_time (fire run t s)" by (simp add: on_time_def)
  have "filter (\<lambda>u. timer_match (timers (fire run t s) u) = g_timer_count s) ts = ds"
    using assms(4) h ok(1) by (auto simp: due_def f intro!: filter_cong)
  then show "due (fire run t s) = ds"
    by (simp add: due_def hd f(3) filter_insert_before_first) (auto simp: f rearmed_def filter_insert_before_first)
qed


lemma fire_prefix:
  assumes "quiet run" "timers_ok s" "on_time s" "due s = ps @ ds"
  shows "timers_ok (fold (fire run) ps s)" "on_time (fold (fire run) ps s)" "due (fold (fire run) ps s) = ds"
    "timers (fold (fire run) ps s) = (\<lambda>t. if t \<in> set ps then rearmed (g_timer_count s) (timers s t) else timers s t)"
    "g_timer_count (fold (fire run) ps s) = g_timer_count s" "g_tick_count (kern (fold (fire run) ps s)) = g_tick_count (kern s)"
proof -
  have "timers_ok (fold (fire run) ps s) \<and> on_time (fold (fire run) ps s) \<and> due (fold (fire run) ps s) = ds
    \<and> timers (fold (fire run) ps s) = (\<lambda>t. if t \<in> set ps then rearmed (g_timer_count s) (timers s t) else timers s t)
    \<and> g_timer_count (fold (fire run) ps s) = g_timer_count s \<and> g_tick_count (kern (fold (fire run) ps s)) = g_tick_count (kern s)"
    using assms(2-4)
  proof (induction ps arbitrary: s)
    case (Cons t ps)
    have "distinct (due s)" using Cons.prems(1) by (simp add: timers_ok_def due_def)
    then have "t \<notin> set ps" using Cons.prems(3) by auto
    moreover have "due s = t # (ps @ ds)" using Cons.prems(3) by simp
    note f = fire_first [OF assms(1) Cons.prems(1,2) this]
    ultimately show ?case using Cons.IH [OF f] by (auto simp: fire_fields [OF assms(1)])
  qed simp
  then show "timers_ok (fold (fire run) ps s)" "on_time (fold (fire run) ps s)" "due (fold (fire run) ps s) = ds"
    "timers (fold (fire run) ps s) = (\<lambda>t. if t \<in> set ps then rearmed (g_timer_count s) (timers s t) else timers s t)"
    "g_timer_count (fold (fire run) ps s) = g_timer_count s" "g_tick_count (kern (fold (fire run) ps s)) = g_tick_count (kern s)"
    by blast+
qed

lemma next_of_insert:
  assumes "t \<notin> set xs" "next_of t (insert_before_first P t xs) = Some y"
  shows "y \<in> set xs \<and> P y"
  using assms by (induction xs) (auto simp: next_of_def split: if_splits)

lemma timer_cb_loop_stop:
  assumes "\<And>y. q = Some y \<Longrightarrow> 0 < sint (time_left s y)"
  shows "timer_cb_loop run q s = Some s"
  using assms by (subst timer_cb_loop.simps) (auto split: option.split simp: not_le)

text \<open>The scan stops behind a timer it puts back into the list, which the outer loop makes up for.\<close>

lemma timer_cb_loop_on_time:
  assumes "quiet run" "timers_ok s" "on_time s" "q = (case g_timer_head s of [] \<Rightarrow> None | t # _ \<Rightarrow> Some t)"
  obtains ps ds where "due s = ps @ ds" "ps = [] \<Longrightarrow> ds = []" "timer_cb_loop run q s = Some (fold (fire run) ps s)"
proof -
  have "\<exists>ps ds. due s = ps @ ds \<and> (ps = [] \<longrightarrow> ds = []) \<and> timer_cb_loop run q s = Some (fold (fire run) ps s)"
    using assms(2-4)
  proof (induction "due s" arbitrary: s q)
    case Nil
    then have "timer_cb_loop run q s = Some s"
      using due_empty [OF Nil.prems(2)] by (intro timer_cb_loop_stop) (auto split: list.splits)
    with Nil show ?case by auto
  next
    case (Cons t ds)
    note d = Cons.hyps(2) [symmetric]
    obtain ts where h: "g_timer_head s = t # ts" "time_left s t = 0" using due_first [OF Cons.prems(2) d] .
    let ?s = "fire run t s"
    note f = fire_first [OF assms(1) Cons.prems(1,2) d]
    have nt: "t \<notin> set ts" "distinct ts" "to_head (timers s t)" using Cons.prems(1) h by (auto simp: timers_ok_def)
    have loop: "timer_cb_loop run q s =
        timer_cb_loop run (next_of t (g_timer_head (if round_ticks (timers s t) > 0 then ?s else s))) ?s"
      using timer_cb_loop_fire [OF assms(1), of s t] h nt Cons.prems(3) by simp
    show ?case
    proof (cases "round_ticks (timers s t) > 0")
      case True
      have "0 < sint (time_left ?s y)" if y: "next_of t (g_timer_head ?s) = Some y" for y
      proof -
        have "y \<in> set ts \<and> time_left s y > round_ticks (timers s t)"
          using y True nt by (intro next_of_insert) (auto simp: fire_fields [OF assms(1)] h)
        then have "y \<noteq> t" "time_left s y \<noteq> 0" "time_left s y \<le> MAX_TIMER_TICKS"
          using nt h Cons.prems(2) by (auto simp: on_time_def)
        then show ?thesis by (simp add: sint_pos fire_fields [OF assms(1)])
      qed
      then have "timer_cb_loop run q s = Some (fold (fire run) [t] s)"
        using loop True by (simp add: timer_cb_loop_stop)
      with d show ?thesis by (intro exI [of _ "[t]"] exI [of _ ds]) simp
    next
      case False
      have "next_of t (t # ts) = (case g_timer_head ?s of [] \<Rightarrow> None | t # _ \<Rightarrow> Some t)"
        using False h by (simp add: fire_fields [OF assms(1)] next_of_def)
      with Cons.hyps(1) [OF f(3) [symmetric] f(1,2)] obtain ps ds' where
        "ds = ps @ ds'" "timer_cb_loop run (next_of t (t # ts)) ?s = Some (fold (fire run) ps ?s)"
        using f(3) by metis
      with loop False d h show ?thesis by (intro exI [of _ "t # ps"] exI [of _ ds']) simp
    qed
  qed
  then show ?thesis using that by blast
qed

lemma timer_task_loop_on_time:
  assumes "quiet run" "timers_ok s" "on_time s" "g_timer_count s = g_tick_count (kern s)"
  shows "timer_task_loop run s = Some (fold (fire run) (due s) s)"
  using assms(2-4)
proof (induction "length (due s)" arbitrary: s rule: less_induct)
  case less
  have now: "s\<lparr>g_timer_count := krhino_sys_tick_get (kern s)\<rparr> = s"
    using less.prems(3) by (simp add: krhino_sys_tick_get_def)
  have stop: "timer_task_delta s = None \<or> (\<exists>d. timer_task_delta s = Some d \<and> 0 < sint d) \<longleftrightarrow> due s = []"
    using due_empty [OF less.prems(2)] less.prems(3)
    by (auto simp: timer_task_delta_def krhino_sys_tick_get_def split: list.splits)
  show ?case
  proof (cases "due s = []")
    case True
    with stop show ?thesis by (subst timer_task_loop.simps) auto
  next
    case False
    obtain ps ds where ps: "due s = ps @ ds" "ps = [] \<Longrightarrow> ds = []" "timer_cb_proc run s = Some (fold (fire run) ps s)"
      using timer_cb_loop_on_time [OF assms(1) less.prems(1,2) refl] by (metis timer_cb_proc_def)
    note f = fire_prefix [OF assms(1) less.prems(1,2) ps(1)]
    have "timer_task_loop run s = timer_task_loop run (fold (fire run) ps s)"
      using stop False ps(3) by (subst timer_task_loop.simps) (auto simp: timer_task_due_def now split: option.split)
    also have "\<dots> = Some (fold (fire run) ds (fold (fire run) ps s))"
      using less.hyps [OF _ f(1,2)] f ps(1,2) False less.prems(3) by auto
    finally show ?thesis by (simp add: ps(1))
  qed
qed


section \<open>Commands keep the timers in order\<close>

definition valid_cmd :: "k_timer_queue_cb \<Rightarrow> bool" where
  "valid_cmd cb \<longleftrightarrow> length (cb_pad cb) = 3 \<and> (cb_num cb = TIMER_CMD_CHG \<longrightarrow> cb_first cb < MAX_TIMER_TICKS \<and> cb_u cb < MAX_TIMER_TICKS)"

definition armed :: "ptr \<Rightarrow> ksys \<Rightarrow> ksys" where
  "armed t s = s\<lparr>timers := (timers s)(t := (timers s t)\<lparr>timer_match := g_timer_count s + init_count (timers s t),
       timer_remain := init_count (timers s t), to_head := True, timer_state := TIMER_ACTIVE\<rparr>),
     g_timer_head := insert_before_first (\<lambda>q. time_left s q > init_count (timers s t)) t (g_timer_head s)\<rparr>"

definition disarmed :: "ptr \<Rightarrow> ksys \<Rightarrow> ksys" where
  "disarmed t s = s\<lparr>timers := (timers s)(t := (timers s t)\<lparr>to_head := False, timer_state := TIMER_DEACTIVE\<rparr>),
     g_timer_head := remove1 t (g_timer_head s)\<rparr>"

lemma cmd_start:
  assumes "timers_ok s" "timer_obj_type (timers s (cb_timer cb)) = RHINO_TIMER_OBJ_TYPE"
  shows "cmd_proc cb TIMER_CMD_START s = (if cb_timer cb \<in> set (g_timer_head s) then s else armed (cb_timer cb) s)"
proof -
  let ?t = "cb_timer cb"
  have a: "timer_state (timers s ?t) = TIMER_ACTIVE \<longleftrightarrow> ?t \<in> set (g_timer_head s)"
    using assms by (auto simp: timers_ok_def)
  have "insert_before_first (\<lambda>q. init_count (timers s ?t) < timer_match (((timers s)(?t := k)) q) - g_timer_count s) ?t (g_timer_head s)
      = insert_before_first (\<lambda>q. init_count (timers s ?t) < time_left s q) ?t (g_timer_head s)"
    if "?t \<notin> set (g_timer_head s)" for k
    using that by (intro insert_before_first_cong) auto
  with a assms(2) show ?thesis
    by (auto simp: cmd_proc_def Let_def armed_def upd_timer_def timer_list_pri_insert_def simp del: fun_upd_apply intro!: ksys.equality)
      (simp_all del: fun_upd_apply add: fun_upd_same)
qed

lemma cmd_stop:
  assumes "timers_ok s" "timer_obj_type (timers s (cb_timer cb)) = RHINO_TIMER_OBJ_TYPE"
  shows "cmd_proc cb TIMER_CMD_STOP s = (if cb_timer cb \<in> set (g_timer_head s) then disarmed (cb_timer cb) s else s)"
  using assms by (auto simp: cmd_proc_def Let_def disarmed_def upd_timer_def timer_list_rm_def timers_ok_def timer_cmd_defs)

lemma armed_ok:
  assumes "timers_ok s" "timer_obj_type (timers s t) = RHINO_TIMER_OBJ_TYPE" "t \<notin> set (g_timer_head s)"
  shows "timers_ok (armed t s)" "on_time s \<Longrightarrow> on_time (armed t s)"
proof -
  show "timers_ok (armed t s)"
    using assms by (auto simp: timers_ok_def armed_def)
  assume o: "on_time s"
  have "sorted (map (time_left (armed t s)) (g_timer_head (armed t s)))"
    using o assms(3) unfolding armed_def by (simp del: fun_upd_apply, intro sorted_insert_left) (simp_all add: on_time_def)
  moreover have "init_count (timers s t) \<le> MAX_TIMER_TICKS"
    using assms(1,2) by (auto simp: timers_ok_def)
  ultimately show "on_time (armed t s)"
    using o by (auto simp: on_time_def armed_def)
qed

lemma disarmed_ok:
  assumes "timers_ok s"
  shows "timers_ok (disarmed t s)" "on_time s \<Longrightarrow> on_time (disarmed t s)"
proof -
  have d: "distinct (g_timer_head s)" using assms by (simp add: timers_ok_def)
  then show "timers_ok (disarmed t s)"
    using assms by (auto simp: timers_ok_def disarmed_def)
  assume o: "on_time s"
  have "map (time_left (disarmed t s)) (remove1 t (g_timer_head s)) = map (time_left s) (remove1 t (g_timer_head s))"
    using d by (auto simp: disarmed_def)
  then have "sorted (map (time_left (disarmed t s)) (remove1 t (g_timer_head s)))"
    using o sorted_map_remove1 [of "time_left s"] by (simp only: on_time_def)
  then show "on_time (disarmed t s)"
    using o d by (auto simp: on_time_def disarmed_def)
qed

text \<open>The other commands change an inactive timer only.\<close>

lemma timer_edit_ok:
  assumes "timers_ok s" "t \<notin> set (g_timer_head s)" "timer_obj_type k = RHINO_TIMER_OBJ_TYPE \<Longrightarrow> \<not> to_head k \<and> timer_state k = TIMER_DEACTIVE
      \<and> 0 < init_count k \<and> init_count k < MAX_TIMER_TICKS \<and> round_ticks k < MAX_TIMER_TICKS"
  shows "timers_ok (s\<lparr>timers := (timers s)(t := k)\<rparr>)" "on_time s \<Longrightarrow> on_time (s\<lparr>timers := (timers s)(t := k)\<rparr>)"
proof -
  show "timers_ok (s\<lparr>timers := (timers s)(t := k)\<rparr>)"
    using assms by (auto simp: timers_ok_def)
  have "map (time_left (s\<lparr>timers := (timers s)(t := k)\<rparr>)) (g_timer_head s) = map (time_left s) (g_timer_head s)"
    using assms(2) by auto
  then show "on_time s \<Longrightarrow> on_time (s\<lparr>timers := (timers s)(t := k)\<rparr>)"
    using assms(2) unfolding on_time_def by (auto cong: map_cong)
qed

lemma cmd_edit:
  assumes "timers_ok s" "cmd \<noteq> TIMER_CMD_START" "cmd \<noteq> TIMER_CMD_STOP"
    "cmd = TIMER_CMD_CHG \<Longrightarrow> cb_first cb < MAX_TIMER_TICKS \<and> cb_u cb < MAX_TIMER_TICKS"
  defines "t \<equiv> cb_timer cb" and "s' \<equiv> cmd_proc cb cmd s"
  shows "timers s' = (timers s)(t := timers s' t)" "g_timer_head s' = g_timer_head s" "g_timer_count s' = g_timer_count s"
    "t \<in> set (g_timer_head s) \<Longrightarrow> timers s' t = timers s t"
    "t \<notin> set (g_timer_head s) \<Longrightarrow> timer_obj_type (timers s' t) = RHINO_TIMER_OBJ_TYPE \<Longrightarrow> \<not> to_head (timers s' t)
      \<and> timer_state (timers s' t) = TIMER_DEACTIVE \<and> 0 < init_count (timers s' t) \<and> init_count (timers s' t) < MAX_TIMER_TICKS
      \<and> round_ticks (timers s' t) < MAX_TIMER_TICKS"
proof -
  show "timers s' = (timers s)(t := timers s' t)" "g_timer_head s' = g_timer_head s" "g_timer_count s' = g_timer_count s"
    using assms(2,3) by (simp_all add: s'_def t_def cmd_proc_def Let_def upd_timer_def)
  assume "t \<in> set (g_timer_head s)"
  then have "timer_state (timers s t) \<noteq> TIMER_DEACTIVE" using assms(1) by (simp add: timers_ok_def)
  then show "timers s' t = timers s t"
    using assms(2,3) by (simp add: s'_def t_def cmd_proc_def Let_def upd_timer_def)
next
  assume n: "t \<notin> set (g_timer_head s)" and ty: "timer_obj_type (timers s' t) = RHINO_TIMER_OBJ_TYPE"
  then have "timer_obj_type (timers s t) = RHINO_TIMER_OBJ_TYPE"
    using assms(2,3) by (simp add: s'_def t_def cmd_proc_def Let_def upd_timer_def split: if_splits)
  with assms(1) n have "\<not> to_head (timers s t)" "timer_state (timers s t) = TIMER_DEACTIVE" "0 < init_count (timers s t)"
    "init_count (timers s t) < MAX_TIMER_TICKS" "round_ticks (timers s t) < MAX_TIMER_TICKS"
    by (simp_all add: timers_ok_def)
  then show "\<not> to_head (timers s' t) \<and> timer_state (timers s' t) = TIMER_DEACTIVE \<and> 0 < init_count (timers s' t)
      \<and> init_count (timers s' t) < MAX_TIMER_TICKS \<and> round_ticks (timers s' t) < MAX_TIMER_TICKS"
    using assms(2-4) by (simp add: s'_def t_def cmd_proc_def Let_def upd_timer_def word_gt_0)
qed

lemma timers_same:
  assumes "timers s' = timers s" "g_timer_head s' = g_timer_head s" "g_timer_count s' = g_timer_count s"
  shows "timers_ok s' = timers_ok s" "on_time s' = on_time s"
  using assms by (simp_all add: timers_ok_def on_time_def)

lemma timer_edit_same:
  assumes "timers_ok s" "timers s' = (timers s)(t := timers s' t)" "g_timer_head s' = g_timer_head s" "g_timer_count s' = g_timer_count s"
    "t \<in> set (g_timer_head s) \<Longrightarrow> timers s' t = timers s t"
    "t \<notin> set (g_timer_head s) \<Longrightarrow> timer_obj_type (timers s' t) = RHINO_TIMER_OBJ_TYPE \<Longrightarrow> \<not> to_head (timers s' t)
      \<and> timer_state (timers s' t) = TIMER_DEACTIVE \<and> 0 < init_count (timers s' t) \<and> init_count (timers s' t) < MAX_TIMER_TICKS
      \<and> round_ticks (timers s' t) < MAX_TIMER_TICKS"
  shows "timers_ok s' \<and> (on_time s \<longrightarrow> on_time s')"
proof (cases "t \<in> set (g_timer_head s)")
  case True
  then have "timers s' = timers s" using assms(2,5) by (metis fun_upd_triv)
  then show ?thesis using timers_same [of s' s] assms(1,3,4) by blast
next
  case False
  define u where "u = s\<lparr>timers := (timers s)(t := timers s' t)\<rparr>"
  have "timers s' = timers u" "g_timer_head s' = g_timer_head u" "g_timer_count s' = g_timer_count u"
    unfolding u_def by (subst assms(2), simp) (simp_all add: assms(3,4))
  then show ?thesis
    using timer_edit_ok [OF assms(1) False assms(6) [OF False]] timers_same [of s' u] unfolding u_def by blast
qed

lemma cmd_proc_ok:
  assumes "timers_ok s" "cmd = TIMER_CMD_CHG \<Longrightarrow> cb_first cb < MAX_TIMER_TICKS \<and> cb_u cb < MAX_TIMER_TICKS"
  shows "timers_ok (cmd_proc cb cmd s) \<and> (on_time s \<longrightarrow> on_time (cmd_proc cb cmd s))"
proof -
  consider "cmd = TIMER_CMD_START" | "cmd = TIMER_CMD_STOP" | "cmd \<noteq> TIMER_CMD_START" "cmd \<noteq> TIMER_CMD_STOP" by blast
  then show ?thesis
  proof cases
    case 1
    then show ?thesis
      using assms(1) armed_ok [OF assms(1), of "cb_timer cb"] cmd_start [OF assms(1), of cb]
      by (cases "timer_obj_type (timers s (cb_timer cb)) = RHINO_TIMER_OBJ_TYPE") (simp_all add: cmd_proc_def Let_def)
  next
    case 2
    then show ?thesis
      using assms(1) disarmed_ok [OF assms(1), of "cb_timer cb"] cmd_stop [OF assms(1), of cb]
      by (cases "timer_obj_type (timers s (cb_timer cb)) = RHINO_TIMER_OBJ_TYPE") (simp_all add: cmd_proc_def Let_def timer_cmd_defs)
  next
    case 3
    then show ?thesis
      using cmd_edit [OF assms(1) 3 assms(2)] by (intro timer_edit_same [OF assms(1)])
  qed
qed

lemma timer_cmd_proc_ok:
  assumes "timers_ok s" "valid_cmd cb"
  shows "timers_ok (timer_cmd_proc cb s)" "on_time s \<Longrightarrow> on_time (timer_cmd_proc cb s)"
proof -
  have "timers_ok (timer_cmd_proc cb s) \<and> (on_time s \<longrightarrow> on_time (timer_cmd_proc cb s))"
  proof (cases "cb_num cb = TIMER_ARG_CHG_AUTO")
    case True
    have *: "timers_ok (cmd_proc cb c s) \<and> (on_time s \<longrightarrow> on_time (cmd_proc cb c s))" if "timers_ok s" "c \<noteq> TIMER_CMD_CHG" for c s
      using cmd_proc_ok that by blast
    have "TIMER_CMD_STOP \<noteq> TIMER_CMD_CHG" "TIMER_ARG_CHG \<noteq> TIMER_CMD_CHG" "TIMER_CMD_START \<noteq> TIMER_CMD_CHG"
      by (simp_all add: timer_cmd_defs)
    then show ?thesis
      using assms(1) * unfolding timer_cmd_proc_def if_P [OF True] by blast
  next
    case False
    then show ?thesis using assms cmd_proc_ok [of s "cb_num cb" cb] by (simp add: timer_cmd_proc_def valid_cmd_def)
  qed
  then show "timers_ok (timer_cmd_proc cb s)" "on_time s \<Longrightarrow> on_time (timer_cmd_proc cb s)" by blast+
qed


section \<open>Time passes\<close>


lemma on_time_later:
  assumes "on_time s" "\<And>t. t \<in> set (g_timer_head s) \<Longrightarrow> n \<le> time_left s t"
  shows "on_time (s\<lparr>g_timer_count := g_timer_count s + n\<rparr>)"
proof -
  have l: "timer_match (timers s t) - (g_timer_count s + n) = time_left s t - n" for t by simp
  have m: "a - n \<le> b - n" if "n \<le> a" "n \<le> b" "a \<le> b" for a b :: u64
    using that by (simp add: word_le_nat_alt unat_sub)
  have "sorted (map (\<lambda>t. time_left s t - n) (g_timer_head s))"
    using assms m by (fastforce simp: on_time_def sorted_wrt_map elim: sorted_wrt_mono_rel [rotated])
  moreover have "time_left s t - n \<le> MAX_TIMER_TICKS" if "t \<in> set (g_timer_head s)" for t
    using assms that by (meson on_time_def order_trans word_sub_le)
  ultimately show ?thesis by (simp add: on_time_def l)
qed

section \<open>Sending commands\<close>

lemma timer_send_ok:
  assumes "kernel_ok (kern s)" "length (cb_pad cb) = 3" "max_msg_size (buf_queues (kern s) (g_timer_queue s)) = SIZEOF_CB"
  shows "kernel_ok (kern (snd (timer_send cb s)))"
proof (cases "obj_type (objs (kern s) (g_timer_queue s)) = RHINO_BUF_QUEUE_OBJ_TYPE")
  case True
  then obtain ms where "bq_holds (buf_queues (kern s) (g_timer_queue s)) ms"
    using kernel_okD(4) [OF assms(1), of "g_timer_queue s"] buf_queue_obj_inv by blast
  then have "may_send (buf_queues (kern s) (g_timer_queue s)) (cb_bytes cb) SIZEOF_CB"
    using assms(2,3) by (auto simp: may_send_def sent_bytes_def bytes_cb_bytes bq_holds_def SIZEOF_CB_def RING_BUF_LEN_def)
  then show ?thesis using assms(1) by (simp add: timer_send_def krhino_buf_queue_send_def buf_queue_send_ok)
next
  case False
  then show ?thesis using assms(1) by (simp add: timer_send_def krhino_buf_queue_send_def buf_queue_send_def)
qed

lemma timer_send_timers: "timers (snd (timer_send cb s)) = timers s" "g_timer_head (snd (timer_send cb s)) = g_timer_head s"
  "g_timer_count (snd (timer_send cb s)) = g_timer_count s"
  by (simp_all add: timer_send_def)

lemma timer_calls_ok:
  assumes "kernel_ok (kern s)" "length (cb_pad cb) = 3" "max_msg_size (buf_queues (kern s) (g_timer_queue s)) = SIZEOF_CB"
  shows "kernel_ok (kern (snd (krhino_timer_start cb timer s)))" "kernel_ok (kern (snd (krhino_timer_stop cb timer s)))"
    "kernel_ok (kern (snd (krhino_timer_change cb timer first round s)))" "kernel_ok (kern (snd (krhino_timer_arg_change cb timer arg s)))"
    "kernel_ok (kern (snd (krhino_timer_arg_change_auto cb timer arg s)))" "kernel_ok (kern (snd (krhino_timer_del cb timer s)))"
    "kernel_ok (kern (snd (krhino_timer_dyn_del cb timer s)))"
  using assms by (simp_all add: krhino_timer_start_def krhino_timer_stop_def krhino_timer_change_def krhino_timer_arg_change_def
      krhino_timer_arg_change_auto_def krhino_timer_del_def krhino_timer_dyn_del_def timer_send_ok set_arg_def)

lemma timer_create_ok:
  assumes "kernel_ok (kern s)" "length (cb_pad cb_mem) = 3" "max_msg_size (buf_queues (kern s) (g_timer_queue s)) = SIZEOF_CB"
    "timers_ok s" "timer \<notin> set (g_timer_head s)"
  shows "kernel_ok (kern (snd (timer_create cb_mem timer name cb first round arg auto_run alloc s)))"
    "timers_ok (snd (timer_create cb_mem timer name cb first round arg auto_run alloc s))"
    "on_time s \<Longrightarrow> on_time (snd (timer_create cb_mem timer name cb first round arg auto_run alloc s))"
proof -
  let ?c = "timer_create cb_mem timer name cb first round arg auto_run alloc s"
  define k where "k = (timers s timer)\<lparr>timer_name := name, timer_cb := cb, init_count := first, round_ticks := round,
    timer_remain := 0, timer_match := 0, timer_state := TIMER_DEACTIVE, to_head := False,
    timer_alloc_flag := alloc, timer_cb_arg := arg, timer_obj_type := RHINO_TIMER_OBJ_TYPE\<rparr>"
  define u where "u = s\<lparr>timers := (timers s)(timer := k)\<rparr>"
  have u: "kern u = kern s" "g_timer_queue u = g_timer_queue s" by (simp_all add: u_def)
  have "snd ?c = s \<or> 0 < first \<and> first < MAX_TIMER_TICKS \<and> round < MAX_TIMER_TICKS \<and> (snd ?c = u \<or> snd ?c = snd (krhino_timer_start cb_mem timer u))"
    using assms(5) by (simp add: timer_create_def Let_def upd_timer_def k_def u_def word_gt_0 not_le)
  then consider "snd ?c = s" | "0 < first" "first < MAX_TIMER_TICKS" "round < MAX_TIMER_TICKS" "snd ?c = u \<or> snd ?c = snd (krhino_timer_start cb_mem timer u)"
    by blast
  then have "kernel_ok (kern (snd ?c)) \<and> timers_ok (snd ?c) \<and> (on_time s \<longrightarrow> on_time (snd ?c))"
  proof cases
    case 2
    have t: "timers_ok u" "on_time s \<longrightarrow> on_time u"
      using timer_edit_ok [OF assms(4,5), of k] 2 by (simp_all add: u_def k_def)
    moreover have "timers (snd (krhino_timer_start cb_mem timer u)) = timers u" "g_timer_head (snd (krhino_timer_start cb_mem timer u)) = g_timer_head u"
      "g_timer_count (snd (krhino_timer_start cb_mem timer u)) = g_timer_count u"
      by (simp_all add: krhino_timer_start_def timer_send_timers)
    note timers_same [OF this]
    moreover have "kernel_ok (kern (snd (krhino_timer_start cb_mem timer u)))"
      using timer_calls_ok(1) [of u cb_mem timer] assms(1-3) u by simp
    ultimately show ?thesis using 2(4) assms(1) u by auto
  qed (use assms in simp)
  then show "kernel_ok (kern (snd ?c))" "timers_ok (snd ?c)" "on_time s \<Longrightarrow> on_time (snd ?c)" by blast+
qed

section \<open>Timers that are late\<close>

text \<open>
  Three timers are past their time.  The two periodic ones are called and put back, and the
  third is left behind them: the time it has left, taken as an unsigned number, is the longest.
\<close>

definition late_timers :: "ksys \<Rightarrow> ksys" where
  "late_timers s =
     (let k = \<lparr>to_head = True, timer_name = 4, timer_cb = 8, timer_cb_arg = 0, timer_match = 97, timer_remain = 10, init_count = 10,
         round_ticks = 10, timer_priv = 0, timer_obj_type = RHINO_TIMER_OBJ_TYPE, timer_state = TIMER_ACTIVE, timer_alloc_flag = K_OBJ_STATIC_ALLOC\<rparr>;
          idle = k\<lparr>to_head := False, timer_obj_type := RHINO_OBJ_TYPE_NONE\<rparr>
      in s\<lparr>kern := (kern s)\<lparr>g_tick_count := 100\<rparr>, g_timer_count := 90, g_timer_head := [16, 32, 48],
           timers := (\<lambda>_. idle)(16 := k, 32 := k\<lparr>timer_match := 98, round_ticks := 5\<rparr>, 48 := k\<lparr>timer_match := 99, round_ticks := 0\<rparr>)\<rparr>)"

lemma late_timers_left:
  "timers_ok (late_timers s)" "on_time (late_timers s)"
  "\<exists>s'. timer_task_loop (\<lambda>f t a s. s) (late_timers s) = Some s' \<and> g_timer_head s' = [32, 16, 48]
     \<and> timer_match (timers s' 48) = 99 \<and> g_timer_count s' = 100 \<and> timer_task_delta s' = Some 5"
proof -
  show "timers_ok (late_timers s)"
    by (auto simp: timers_ok_def late_timers_def Let_def MAX_TIMER_TICKS_value split: if_splits)
  show "on_time (late_timers s)"
    by (auto simp: on_time_def late_timers_def Let_def MAX_TIMER_TICKS_value)
  show "\<exists>s'. timer_task_loop (\<lambda>f t a s. s) (late_timers s) = Some s' \<and> g_timer_head s' = [32, 16, 48]
     \<and> timer_match (timers s' 48) = 99 \<and> g_timer_count s' = 100 \<and> timer_task_delta s' = Some 5"
    apply (subst timer_task_loop.simps)
    apply (simp add: timer_task_delta_def late_timers_def Let_def krhino_sys_tick_get_def timer_task_due_def timer_cb_proc_def)
    apply (subst timer_cb_loop.simps, simp add: Let_def timer_list_rm_def upd_timer_def timer_list_pri_insert_def next_of_def)
    apply (subst timer_cb_loop.simps, simp add: Let_def timer_list_rm_def upd_timer_def timer_list_pri_insert_def next_of_def)
    apply (subst timer_cb_loop.simps, simp add: Let_def timer_list_rm_def upd_timer_def timer_list_pri_insert_def next_of_def)
    apply (subst timer_task_loop.simps)
    apply (simp add: timer_task_delta_def krhino_sys_tick_get_def)
    done
qed

end
