(* ===== verification/Rhino_Workqueue.thy ===== *)
theory Rhino_Workqueue
  imports Rhino_Timer Rhino_Sem
begin

text \<open>
  Work queues: \<^verbatim>\<open>kernel/rhino/core/k_workqueue.c\<close>.

  A work queue is a list of works, a semaphore that counts them and a task that runs them in
  order.  A work with a delay is put into the queue by a timer.

  The function of a work is not part of the kernel: it is the parameter \<open>handle\<close> of
  \<open>worker_task_run\<close>, given the address and the argument of the work.  The addresses of the
  functions and names the code mentions are parameters.
\<close>

section \<open>The queues\<close>

definition workqueue_is_exist :: "ptr \<Rightarrow> ksys \<Rightarrow> kstat" where
  "workqueue_is_exist workqueue s =
     (if workqueue \<in> set (g_workqueue_list_head s) then RHINO_WORKQUEUE_EXIST else RHINO_WORKQUEUE_NOT_EXIST)"

text \<open>\<^verbatim>\<open>klist_rm_init\<close> of the node of a work takes it off the list it is on, if it is on one.\<close>

definition work_unlink :: "ptr \<Rightarrow> ksys \<Rightarrow> ksys" where
  "work_unlink work s =
     s\<lparr>workqueues := (\<lambda>q. (workqueues s q)\<lparr>work_list := remove1 work (work_list (workqueues s q))\<rparr>)\<rparr>"

definition krhino_workqueue_create ::
    "ptr \<Rightarrow> ptr \<Rightarrow> ptr \<Rightarrow> ptr \<Rightarrow> nat \<Rightarrow> ptr \<Rightarrow> size_t \<Rightarrow> ksys \<Rightarrow> kstat \<times> ksys" where
  "krhino_workqueue_create worker_task sem_name workqueue name pri stack_buf stack_sz s =
     (if workqueue = NULL then (RHINO_NULL_PTR, s)
      else if name = NULL then (RHINO_NULL_PTR, s)
      else if stack_buf = NULL then (RHINO_NULL_PTR, s)
      else if pri \<ge> RHINO_CONFIG_PRI_MAX then (RHINO_BEYOND_MAX_PRI, s)
      else if stack_sz = 0 then (RHINO_TASK_INV_STACK_SIZE, s)
      else if workqueue_is_exist workqueue s = RHINO_WORKQUEUE_EXIST then (RHINO_WORKQUEUE_EXIST, s)
      else let s = upd_wq workqueue (\<lambda>q. q\<lparr>work_list := [], work_current := NULL, wq_name := name\<rparr>) s;
               (ret, s) = kcall (krhino_sem_create (wq_sem (workqueues s workqueue)) sem_name 0) s
           in if ret \<noteq> RHINO_SUCCESS then (ret, s)
              else let s = s\<lparr>g_workqueue_list_head := g_workqueue_list_head s @ [workqueue]\<rparr>;
                       (ret, s) = kcall (krhino_task_create (wq_worker (workqueues s workqueue)) name workqueue pri 0 stack_buf stack_sz worker_task 1) s
                   in if ret \<noteq> RHINO_SUCCESS then
                        let s = s\<lparr>g_workqueue_list_head := remove1 workqueue (g_workqueue_list_head s)\<rparr>;
                            (_, s) = kcall (krhino_sem_del (wq_sem (workqueues s workqueue))) s
                        in (ret, s)
                      else (RHINO_SUCCESS, s))"

section \<open>The works\<close>

text \<open>The common part of \<^verbatim>\<open>krhino_work_run\<close> and \<^verbatim>\<open>work_timer_cb\<close>: the work is queued and the worker told.\<close>

definition work_queue_add :: "ptr \<Rightarrow> ptr \<Rightarrow> ksys \<Rightarrow> kstat \<times> ksys" where
  "work_queue_add wq work s =
     (let s = work_unlink work s;
          s = upd_wq wq (\<lambda>q. q\<lparr>work_list := work_list q @ [work]\<rparr>) s;
          s = upd_work work (\<lambda>w. w\<lparr>work_wq := wq, work_exit := 1\<rparr>) s
      in kcall (krhino_sem_give (wq_sem (workqueues s wq))) s)"

definition work_timer_cb :: "ptr \<Rightarrow> ptr \<Rightarrow> ksys \<Rightarrow> ksys" where
  "work_timer_cb timer arg s =
     (let work = timer_priv (timers s timer); wq = arg
      in if work_current (workqueues s wq) = work then s
         else if work_exit (works s work) = 1 then s
         else snd (work_queue_add wq work s))"

text \<open>
  \<open>timer_obj\<close> is the address \<^verbatim>\<open>krhino_mm_alloc\<close> returns.  The address of \<^verbatim>\<open>work->timer\<close> is not \<open>NULL\<close>.
  A work that is on a queue must not be initialised: its links would be lost.
\<close>

definition krhino_work_init ::
    "k_timer_queue_cb \<Rightarrow> ptr \<Rightarrow> ptr \<Rightarrow> ptr \<Rightarrow> ptr \<Rightarrow> ptr \<Rightarrow> ptr \<Rightarrow> tick_t \<Rightarrow> ksys \<Rightarrow> kstat \<times> ksys" where
  "krhino_work_init cb_mem timer_cb_addr timer_nm timer_obj work handle arg dly s =
     (if work = NULL then (RHINO_NULL_PTR, s)
      else if handle = NULL then (RHINO_NULL_PTR, s)
      else let s = (if work_exit (works s work) = 1 \<and> work \<in> set (work_list (workqueues s (work_wq (works s work))))
                    then s\<lparr>kern := fault (kern s)\<rparr> else s);
               s = upd_work work (\<lambda>_. \<lparr>work_handle = handle, work_arg = arg, work_dly = dly, work_timer = NULL, work_wq = NULL, work_exit = 0\<rparr>) s
           in if dly > 0 then
                let (ret, t, s) = krhino_timer_dyn_create cb_mem work timer_nm timer_cb_addr dly 0 work 0 timer_obj s
                in (case t of
                      None \<Rightarrow> (ret, s)
                    | Some p \<Rightarrow> (RHINO_SUCCESS, upd_work work (\<lambda>w. w\<lparr>work_timer := p\<rparr>) s))
              else (RHINO_SUCCESS, s))"

definition krhino_work_run :: "k_timer_queue_cb \<Rightarrow> ptr \<Rightarrow> ptr \<Rightarrow> ksys \<Rightarrow> kstat \<times> ksys" where
  "krhino_work_run cb_mem workqueue work s =
     (if workqueue = NULL then (RHINO_NULL_PTR, s)
      else if work = NULL then (RHINO_NULL_PTR, s)
      else if work_dly (works s work) = 0 then
        if work_current (workqueues s workqueue) = work then (RHINO_WORKQUEUE_WORK_RUNNING, s)
        else if work_exit (works s work) = 1 then (RHINO_WORKQUEUE_WORK_EXIST, s)
        else work_queue_add workqueue work s
      else if work_timer (works s work) = NULL then (RHINO_NULL_PTR, s\<lparr>kern := fault (kern s)\<rparr>)
      else let s = upd_timer (work_timer (works s work)) (\<lambda>t. t\<lparr>timer_priv := work\<rparr>) s
           in krhino_timer_arg_change_auto cb_mem (work_timer (works s work)) workqueue s)"

definition krhino_work_sched :: "k_timer_queue_cb \<Rightarrow> ptr \<Rightarrow> ksys \<Rightarrow> kstat \<times> ksys" where
  "krhino_work_sched cb_mem work s = krhino_work_run cb_mem (g_workqueue_default s) work s"

definition krhino_work_cancel :: "k_timer_queue_cb \<Rightarrow> ptr \<Rightarrow> ksys \<Rightarrow> kstat \<times> ksys" where
  "krhino_work_cancel cb_mem work s =
     (if work = NULL then (RHINO_NULL_PTR, s)
      else let wq = work_wq (works s work)
           in if wq = NULL then
                (RHINO_SUCCESS, if work_dly (works s work) > 0 then snd (krhino_timer_stop cb_mem (work_timer (works s work)) s) else s)
              else if work_current (workqueues s wq) = work then (RHINO_WORKQUEUE_WORK_RUNNING, s)
              else if work_exit (works s work) = 1 then (RHINO_WORKQUEUE_WORK_EXIST, s)
              else (RHINO_SUCCESS, upd_work work (\<lambda>w. w\<lparr>work_wq := NULL\<rparr>) (work_unlink work s)))"

section \<open>The worker task\<close>

text \<open>
  The body of the task: the wait for the semaphore, what follows it up to the call of the work's
  function, and the rest.
\<close>

definition worker_task_wait :: "ptr \<Rightarrow> ksys \<Rightarrow> outcome \<times> ksys" where
  "worker_task_wait queue s = kcall (krhino_sem_take (wq_sem (workqueues s queue)) RHINO_WAIT_FOREVER) s"

definition worker_task_next :: "ptr \<Rightarrow> kstat \<Rightarrow> ksys \<Rightarrow> ksys" where
  "worker_task_next queue ret s =
     (let s = (if ret \<noteq> RHINO_SUCCESS then s\<lparr>kern := k_err_proc ret (kern s)\<rparr> else s)
      in case work_list (workqueues s queue) of
           [] \<Rightarrow> s\<lparr>kern := fault (kern s)\<rparr>
         | work # _ \<Rightarrow>
             upd_work work (\<lambda>w. w\<lparr>work_exit := 0\<rparr>) (upd_wq queue (\<lambda>q. q\<lparr>work_current := work\<rparr>) (work_unlink work s)))"

definition worker_task_run :: "(ptr \<Rightarrow> ptr \<Rightarrow> ksys \<Rightarrow> ksys) \<Rightarrow> ptr \<Rightarrow> ksys \<Rightarrow> ksys" where
  "worker_task_run handle queue s =
     (let w = works s (work_current (workqueues s queue))
      in upd_wq queue (\<lambda>q. q\<lparr>work_current := NULL\<rparr>) (handle (work_handle w) (work_arg w) s))"

section \<open>Works and lists\<close>

text \<open>A work is on the list of the queue it names exactly when it is marked as queued, and only once.\<close>

definition works_ok :: "ksys \<Rightarrow> bool" where
  "works_ok s \<longleftrightarrow> (\<forall>q. distinct (work_list (workqueues s q)))
     \<and> (\<forall>q w. w \<in> set (work_list (workqueues s q)) \<longleftrightarrow> work_exit (works s w) = 1 \<and> work_wq (works s w) = q)"

lemma works_same: "works s' = works s \<Longrightarrow> workqueues s' = workqueues s \<Longrightarrow> works_ok s' = works_ok s"
  by (simp add: works_ok_def)

lemma works_okD: "works_ok s \<Longrightarrow> w \<in> set (work_list (workqueues s q)) \<longleftrightarrow> work_exit (works s w) = 1 \<and> work_wq (works s w) = q"
  by (simp add: works_ok_def)

lemma timer_send_works [simp]: "works (snd (timer_send cb s)) = works s" "workqueues (snd (timer_send cb s)) = workqueues s"
  by (simp_all add: timer_send_def)

lemma work_unlink_idle:
  assumes "works_ok s" "work_exit (works s w) \<noteq> 1"
  shows "work_unlink w s = s"
proof -
  have "remove1 w (work_list (workqueues s q)) = work_list (workqueues s q)" for q
    using assms by (intro remove1_idem) (auto simp: works_ok_def)
  then show ?thesis by (simp add: work_unlink_def)
qed

lemma work_queue_add_eq:
  assumes "works_ok s" "work_exit (works s w) \<noteq> 1"
  shows "fst (work_queue_add q w s) = fst (krhino_sem_give (wq_sem (workqueues s q)) (kern s))"
    "kern (snd (work_queue_add q w s)) = snd (krhino_sem_give (wq_sem (workqueues s q)) (kern s))"
    "workqueues (snd (work_queue_add q w s)) = (workqueues s)(q := (workqueues s q)\<lparr>work_list := work_list (workqueues s q) @ [w]\<rparr>)"
    "works (snd (work_queue_add q w s)) = (works s)(w := (works s w)\<lparr>work_wq := q, work_exit := 1\<rparr>)"
    "timers (snd (work_queue_add q w s)) = timers s" "g_timer_head (snd (work_queue_add q w s)) = g_timer_head s"
    "g_timer_count (snd (work_queue_add q w s)) = g_timer_count s"
  unfolding work_queue_add_def work_unlink_idle [OF assms] by (simp_all add: Let_def upd_wq_def upd_work_def)

lemma work_queue_add_ok:
  assumes "works_ok s" "work_exit (works s w) \<noteq> 1"
  shows "works_ok (snd (work_queue_add q w s))" "kernel_ok (kern s) \<Longrightarrow> kernel_ok (kern (snd (work_queue_add q w s)))"
proof -
  show "works_ok (snd (work_queue_add q w s))"
    using assms by (auto simp: works_ok_def work_queue_add_eq)
  show "kernel_ok (kern s) \<Longrightarrow> kernel_ok (kern (snd (work_queue_add q w s)))"
    by (simp add: work_queue_add_eq [OF assms] krhino_sem_give_def sem_give_ok)
qed

lemma work_timer_cb_ok:
  assumes "works_ok s"
  shows "works_ok (work_timer_cb timer arg s)" "kernel_ok (kern s) \<Longrightarrow> kernel_ok (kern (work_timer_cb timer arg s))"
  using assms by (simp_all add: work_timer_cb_def Let_def work_queue_add_ok)

lemma krhino_work_run_ok:
  assumes "works_ok s"
  shows "works_ok (snd (krhino_work_run cb_mem q w s))"
    "\<lbrakk>kernel_ok (kern s); work_dly (works s w) \<noteq> 0 \<Longrightarrow> work_timer (works s w) \<noteq> NULL; length (cb_pad cb_mem) = 3;
      max_msg_size (buf_queues (kern s) (g_timer_queue s)) = SIZEOF_CB\<rbrakk> \<Longrightarrow> kernel_ok (kern (snd (krhino_work_run cb_mem q w s)))"
proof -
  show "works_ok (snd (krhino_work_run cb_mem q w s))"
    using assms works_same [of "snd (timer_send _ (upd_timer _ _ s))" s]
    by (simp add: krhino_work_run_def Let_def work_queue_add_ok krhino_timer_arg_change_auto_def upd_timer_def works_same [of "_\<lparr>kern := _\<rparr>" s])
  assume "kernel_ok (kern s)" "work_dly (works s w) \<noteq> 0 \<Longrightarrow> work_timer (works s w) \<noteq> NULL" "length (cb_pad cb_mem) = 3"
    "max_msg_size (buf_queues (kern s) (g_timer_queue s)) = SIZEOF_CB"
  then show "kernel_ok (kern (snd (krhino_work_run cb_mem q w s)))"
    using assms by (auto simp: krhino_work_run_def Let_def work_queue_add_ok upd_timer_def intro!: timer_calls_ok)
qed

text \<open>A work that is queued cannot be cancelled, and a cancelled work was on no list.\<close>

lemma krhino_work_cancel_lists:
  assumes "works_ok s"
  shows "workqueues (snd (krhino_work_cancel cb_mem w s)) = workqueues s"
    "w \<in> set (work_list (workqueues s q)) \<Longrightarrow> q \<noteq> NULL \<Longrightarrow> w \<noteq> NULL \<Longrightarrow> fst (krhino_work_cancel cb_mem w s) \<noteq> RHINO_SUCCESS"
proof -
  show "workqueues (snd (krhino_work_cancel cb_mem w s)) = workqueues s"
    using work_unlink_idle [OF assms, of w]
    by (simp add: krhino_work_cancel_def Let_def krhino_timer_stop_def timer_send_def upd_work_def)
  assume "w \<in> set (work_list (workqueues s q))" "q \<noteq> NULL" "w \<noteq> NULL"
  moreover from this assms have "work_exit (works s w) = 1" "work_wq (works s w) = q" by (auto simp: works_ok_def)
  ultimately show "fst (krhino_work_cancel cb_mem w s) \<noteq> RHINO_SUCCESS"
    by (simp add: krhino_work_cancel_def Let_def)
qed

lemma krhino_work_cancel_ok:
  assumes "works_ok s"
  shows "works_ok (snd (krhino_work_cancel cb_mem w s))"
    "\<lbrakk>kernel_ok (kern s); length (cb_pad cb_mem) = 3; max_msg_size (buf_queues (kern s) (g_timer_queue s)) = SIZEOF_CB\<rbrakk>
       \<Longrightarrow> kernel_ok (kern (snd (krhino_work_cancel cb_mem w s)))"
proof -
  show "works_ok (snd (krhino_work_cancel cb_mem w s))"
  proof (cases "fst (krhino_work_cancel cb_mem w s) = RHINO_SUCCESS \<and> w \<noteq> NULL \<and> work_wq (works s w) \<noteq> NULL")
    case True
    then have "work_exit (works s w) \<noteq> 1" "work_current (workqueues s (work_wq (works s w))) \<noteq> w"
      by (auto simp: krhino_work_cancel_def Let_def split: if_splits)
    with True assms show ?thesis
      by (auto simp: krhino_work_cancel_def Let_def work_unlink_idle upd_work_def works_ok_def)
  next
    case False
    then have "works (snd (krhino_work_cancel cb_mem w s)) = works s"
      by (auto simp: krhino_work_cancel_def Let_def krhino_timer_stop_def timer_send_def)
    then show ?thesis using assms krhino_work_cancel_lists(1) [OF assms] works_same by metis
  qed
  assume "kernel_ok (kern s)" "length (cb_pad cb_mem) = 3" "max_msg_size (buf_queues (kern s) (g_timer_queue s)) = SIZEOF_CB"
  then show "kernel_ok (kern (snd (krhino_work_cancel cb_mem w s)))"
    using timer_calls_ok(2) by (simp add: krhino_work_cancel_def Let_def upd_work_def work_unlink_def)
qed

text \<open>The worker takes the works in the order in which they were queued.\<close>

lemma worker_task_next_eq:
  assumes "works_ok s" "work_list (workqueues s q) = w # ws"
  shows "worker_task_next q RHINO_SUCCESS s = s\<lparr>workqueues := (workqueues s)(q := (workqueues s q)\<lparr>work_list := ws, work_current := w\<rparr>),
    works := (works s)(w := (works s w)\<lparr>work_exit := 0\<rparr>)\<rparr>"
proof -
  have "work_wq (works s w) = q" "work_exit (works s w) = 1" using assms works_okD [OF assms(1), of w q] by simp_all
  then have "w \<notin> set (work_list (workqueues s p))" if "p \<noteq> q" for p
    using works_okD [OF assms(1), of w p] that by simp
  then have "work_unlink w s = s\<lparr>workqueues := (workqueues s)(q := (workqueues s q)\<lparr>work_list := ws\<rparr>)\<rparr>"
    using assms(2) by (auto simp: work_unlink_def remove1_idem fun_eq_iff intro!: ksys.equality)
  then show ?thesis using assms(2) by (simp add: worker_task_next_def upd_work_def upd_wq_def)
qed

lemma worker_task_next_ok:
  assumes "works_ok s" "work_list (workqueues s q) = w # ws"
  shows "works_ok (worker_task_next q RHINO_SUCCESS s)" "kern (worker_task_next q RHINO_SUCCESS s) = kern s"
proof -
  have d: "distinct (w # ws)" "work_wq (works s w) = q"
    using assms works_okD [OF assms(1), of w q] by (metis works_ok_def, simp)
  then have i: "v \<in> set ws \<longleftrightarrow> v \<noteq> w \<and> work_exit (works s v) = 1 \<and> work_wq (works s v) = q" for v
    using works_okD [OF assms(1), of v q] assms(2) by auto
  show "works_ok (worker_task_next q RHINO_SUCCESS s)"
    unfolding worker_task_next_eq [OF assms] works_ok_def using assms(1) d by (simp add: i) (auto simp: works_ok_def)
  show "kern (worker_task_next q RHINO_SUCCESS s) = kern s" by (simp add: worker_task_next_eq [OF assms])
qed

lemma worker_task_run_ok:
  assumes "works_ok s" "\<And>f a s. works_ok s \<Longrightarrow> works_ok (handle f a s)"
  shows "works_ok (worker_task_run handle q s)"
  using assms(2) [OF assms(1)] by (simp add: worker_task_run_def Let_def upd_wq_def works_ok_def)

lemma timer_create_works:
  "works (snd (timer_create cb_mem t nm cb fi ro arg run al s)) = works s"
  "workqueues (snd (timer_create cb_mem t nm cb fi ro arg run al s)) = workqueues s"
  by (simp_all add: timer_create_def Let_def krhino_timer_start_def upd_timer_def)

lemma works_keep:
  assumes "workqueues s' = workqueues s" "\<And>v q. work_exit (works s' v) = 1 \<and> work_wq (works s' v) = q \<longleftrightarrow> work_exit (works s v) = 1 \<and> work_wq (works s v) = q"
  shows "works_ok s' = works_ok s"
  using assms by (simp add: works_ok_def)

lemma krhino_work_init_ok:
  assumes "works_ok s" "work_exit (works s w) \<noteq> 1"
  shows "works_ok (snd (krhino_work_init cb_mem tcb nm obj w handle arg dly s))"
proof -
  define u where "u = upd_work w (\<lambda>_. \<lparr>work_handle = handle, work_arg = arg, work_dly = dly, work_timer = NULL, work_wq = NULL, work_exit = 0\<rparr>) s"
  have u: "works_ok u" using assms works_keep [of u s] by (simp add: u_def upd_work_def)
  define r where "r = krhino_timer_dyn_create cb_mem w nm tcb dly 0 w 0 obj u"
  have r: "works (snd (snd r)) = works u" "workqueues (snd (snd r)) = workqueues u"
    by (simp_all add: r_def krhino_timer_dyn_create_def timer_create_works split_def Let_def)
  have "works_ok (upd_work w (\<lambda>k. k\<lparr>work_timer := p\<rparr>) (snd (snd r)))" for p
    using u works_keep [of "upd_work w (\<lambda>k. k\<lparr>work_timer := p\<rparr>) (snd (snd r))" u] r by (simp add: upd_work_def)
  moreover have "works_ok (snd (snd r))" using u works_same [OF r] by simp
  moreover have "snd (krhino_work_init cb_mem tcb nm obj w handle arg dly s) = (if w = NULL \<or> handle = NULL then s else if dly > 0 then
      (case fst (snd r) of None \<Rightarrow> snd (snd r) | Some p \<Rightarrow> upd_work w (\<lambda>k. k\<lparr>work_timer := p\<rparr>) (snd (snd r))) else u)"
    using assms(2) unfolding krhino_work_init_def Let_def by (simp add: u_def [symmetric] r_def [symmetric] split_def split: option.split)
  ultimately show ?thesis using assms(1) u by (simp split: option.split)
qed

end
