(* ===== verification/Rhino_Sys.thy ===== *)
theory Rhino_Sys
  imports Rhino_Workqueue
begin

text \<open>
  Start-up, interrupts and the tasks of the kernel itself: \<^verbatim>\<open>k_sys.c\<close>, \<^verbatim>\<open>k_idle.c\<close>, \<^verbatim>\<open>k_dyn_mem_proc.c\<close>,
  \<^verbatim>\<open>kobj_list_init\<close> of \<^verbatim>\<open>k_stats.c\<close>, \<^verbatim>\<open>ktimer_init\<close> of \<^verbatim>\<open>k_timer.c\<close>, \<^verbatim>\<open>workqueue_init\<close> of \<^verbatim>\<open>k_workqueue.c\<close> and the
  semaphores of tasks of \<^verbatim>\<open>k_task_sem.c\<close>.

  The addresses the linker gives to the objects, stacks, functions and names of the kernel are the
  record \<open>image\<close>.  The state before \<^verbatim>\<open>krhino_init\<close> is the zeroed memory of a C program.
\<close>

section \<open>The image\<close>

record image =
  i_res_sem :: oid
  i_dyn_task :: tid
  i_dyn_stack :: ptr
  i_dyn_entry :: ptr
  i_idle_task :: tid
  i_idle_stack :: ptr
  i_idle_entry :: ptr
  i_workqueue :: ptr
  i_wq_worker :: "ptr \<Rightarrow> tid"
  i_wq_sem :: "ptr \<Rightarrow> oid"
  i_wq_stack :: ptr
  i_worker_entry :: ptr
  i_timer_queue :: oid
  i_timer_buf :: ptr
  i_timer_mem :: "byte list"
  i_timer_task :: tid
  i_timer_stack :: ptr
  i_timer_entry :: ptr
  i_deathbed :: ptr
  i_name :: ptr

definition RHINO_CONFIG_K_DYN_MEM_TASK_PRI :: nat where
  "RHINO_CONFIG_K_DYN_MEM_TASK_PRI = 6"

definition RHINO_CONFIG_K_DYN_TASK_STACK :: size_t where
  "RHINO_CONFIG_K_DYN_TASK_STACK = 256"

definition RHINO_CONFIG_IDLE_TASK_STACK_SIZE :: size_t where
  "RHINO_CONFIG_IDLE_TASK_STACK_SIZE = 200"

definition RHINO_CONFIG_WORKQUEUE_TASK_PRIO :: nat where
  "RHINO_CONFIG_WORKQUEUE_TASK_PRIO = 20"

definition RHINO_CONFIG_WORKQUEUE_STACK_SIZE :: size_t where
  "RHINO_CONFIG_WORKQUEUE_STACK_SIZE = 768"

definition RHINO_CONFIG_TIMER_TASK_PRI :: nat where
  "RHINO_CONFIG_TIMER_TASK_PRI = 5"

definition RHINO_CONFIG_TIMER_TASK_STACK_SIZE :: size_t where
  "RHINO_CONFIG_TIMER_TASK_STACK_SIZE = 300"

definition RHINO_CONFIG_TIMER_MSG_NUM :: nat where
  "RHINO_CONFIG_TIMER_MSG_NUM = 20"

lemmas sys_config_defs = RHINO_CONFIG_K_DYN_MEM_TASK_PRI_def RHINO_CONFIG_K_DYN_TASK_STACK_def RHINO_CONFIG_IDLE_TASK_STACK_SIZE_def
  RHINO_CONFIG_WORKQUEUE_TASK_PRIO_def RHINO_CONFIG_WORKQUEUE_STACK_SIZE_def RHINO_CONFIG_TIMER_TASK_PRI_def
  RHINO_CONFIG_TIMER_TASK_STACK_SIZE_def RHINO_CONFIG_TIMER_MSG_NUM_def

text \<open>The memory before the start.\<close>

definition zero_ringbuf :: k_ringbuf where
  "zero_ringbuf = \<lparr>rb_buf = [], rb_head = 0, rb_tail = 0, rb_freesize = 0, rb_type = 0, rb_blk_size = 0\<rparr>"

definition zero_kernel :: "image \<Rightarrow> kernel" where
  "zero_kernel img = \<lparr>g_sys_stat = RHINO_SUCCESS, g_idle_task_spawned = 0,
     g_ready_queue = \<lparr>cur_list_item = (\<lambda>_. []), task_bit_map = BITMAP_DECLARE RHINO_CONFIG_PRI_MAX, highest_pri = 0\<rparr>,
     g_sched_lock = 0, g_intrpt_nested_level = 0, g_preferred_ready_task = 0, g_active_task = 0, g_tick_count = 0, g_tick_head = [],
     g_kobj_list = \<lparr>task_head = [], mutex_head = [], sem_head = [], queue_head = [], event_head = [], buf_queue_head = []\<rparr>,
     g_res_sem = i_res_sem img, g_res_list = [], tasks = (\<lambda>_. zero_task),
     objs = (\<lambda>_. \<lparr>blk_list = [], obj_name = 0, blk_policy = BLK_POLICY_PRI, obj_type = RHINO_OBJ_TYPE_NONE\<rparr>),
     sems = (\<lambda>_. \<lparr>sem_count = 0, peak_count = 0, sem_alloc_flag = 0\<rparr>),
     mutexes = (\<lambda>_. \<lparr>mutex_task = 0, mutex_next = 0, owner_nested = 0, mutex_alloc_flag = 0\<rparr>),
     events = (\<lambda>_. \<lparr>event_flags = 0, event_alloc_flag = 0\<rparr>),
     queues = (\<lambda>_. \<lparr>q_ringbuf = zero_ringbuf, queue_start = 0, q_size = 0, q_cur_num = 0, q_peak_num = 0, queue_alloc_flag = 0\<rparr>),
     buf_queues = (\<lambda>_. \<lparr>bq_buf = 0, bq_ringbuf = zero_ringbuf, max_msg_size = 0, bq_cur_num = 0, bq_peak_num = 0,
       min_free_buf_size = 0, bq_alloc_flag = 0\<rparr>),
     user_words = (\<lambda>_. 0), user_bufs = (\<lambda>_. []), stack_mem = (\<lambda>_. 0), deathbed_addr = i_deathbed img, k_err_log = [], k_fault = False\<rparr>"

definition zero_ksys :: "image \<Rightarrow> ksys" where
  "zero_ksys img = \<lparr>kern = zero_kernel img,
     timers = (\<lambda>_. \<lparr>to_head = False, timer_name = 0, timer_cb = 0, timer_cb_arg = 0, timer_match = 0, timer_remain = 0, init_count = 0,
       round_ticks = 0, timer_priv = 0, timer_obj_type = RHINO_OBJ_TYPE_NONE, timer_state = TIMER_DEACTIVE, timer_alloc_flag = 0\<rparr>),
     g_timer_head = [], g_timer_count = 0, g_timer_queue = i_timer_queue img,
     works = (\<lambda>_. \<lparr>work_handle = 0, work_arg = 0, work_dly = 0, work_timer = 0, work_wq = 0, work_exit = 0\<rparr>),
     workqueues = (\<lambda>q. \<lparr>work_list = [], work_current = 0, wq_name = 0, wq_worker = i_wq_worker img q, wq_sem = i_wq_sem img q\<rparr>),
     g_workqueue_list_head = [], g_workqueue_default = i_workqueue img, g_idle_count = 0\<rparr>"

section \<open>Start-up\<close>

definition kobj_list_init :: "kernel \<Rightarrow> kernel" where
  "kobj_list_init s = s\<lparr>g_kobj_list := \<lparr>task_head = [], mutex_head = [], sem_head = [], queue_head = [], event_head = [], buf_queue_head = []\<rparr>\<rparr>"

definition dyn_mem_proc_task_start :: "image \<Rightarrow> kernel \<Rightarrow> kernel" where
  "dyn_mem_proc_task_start img s = snd (krhino_task_create (i_dyn_task img) (i_name img) 0 RHINO_CONFIG_K_DYN_MEM_TASK_PRI 0
     (i_dyn_stack img) RHINO_CONFIG_K_DYN_TASK_STACK (i_dyn_entry img) 1 s)"

definition workqueue_init :: "image \<Rightarrow> ksys \<Rightarrow> ksys" where
  "workqueue_init img s = (let s = s\<lparr>g_workqueue_list_head := []\<rparr>
     in snd (krhino_workqueue_create (i_worker_entry img) (i_name img) (g_workqueue_default s) (i_name img)
          RHINO_CONFIG_WORKQUEUE_TASK_PRIO (i_wq_stack img) RHINO_CONFIG_WORKQUEUE_STACK_SIZE s))"

definition ktimer_init :: "image \<Rightarrow> ksys \<Rightarrow> ksys" where
  "ktimer_init img s =
     (let s = s\<lparr>g_timer_head := []\<rparr>;
          (_, s) = kcall (krhino_fix_buf_queue_create (g_timer_queue s) (i_name img) (i_timer_buf img) (i_timer_mem img)
                     SIZEOF_CB RHINO_CONFIG_TIMER_MSG_NUM) s;
          (_, s) = kcall (krhino_task_create (i_timer_task img) (i_name img) NULL RHINO_CONFIG_TIMER_TASK_PRI 0
                     (i_timer_stack img) RHINO_CONFIG_TIMER_TASK_STACK_SIZE (i_timer_entry img) 1) s
      in s)"

definition krhino_init :: "image \<Rightarrow> ksys \<Rightarrow> kstat \<times> ksys" where
  "krhino_init img s =
     (let k = (kern s)\<lparr>g_sys_stat := RHINO_STOPPED\<rparr>;
          k = k\<lparr>g_ready_queue := runqueue_init (g_ready_queue k)\<rparr>;
          k = tick_list_init k;
          k = kobj_list_init k;
          k = k\<lparr>g_res_list := []\<rparr>;
          k = snd (krhino_sem_create (g_res_sem k) (i_name img) 0 k);
          k = dyn_mem_proc_task_start img k;
          k = snd (krhino_task_create (i_idle_task img) (i_name img) NULL RHINO_IDLE_PRI 0 (i_idle_stack img)
                RHINO_CONFIG_IDLE_TASK_STACK_SIZE (i_idle_entry img) 1 k);
          s = s\<lparr>kern := k\<rparr>;
          s = workqueue_init img s;
          s = ktimer_init img s
      in (RHINO_SUCCESS, s))"

text \<open>\<open>None\<close> is a call that does not return, since the first task runs.\<close>

definition krhino_start :: "kernel \<Rightarrow> kstat option \<times> kernel" where
  "krhino_start s =
     (if g_sys_stat s = RHINO_STOPPED then
        case preferred_cpu_ready_task_get (g_ready_queue s) of
          None \<Rightarrow> (None, fault s)
        | Some preferred_task \<Rightarrow>
            (None, s\<lparr>g_preferred_ready_task := preferred_task, g_active_task := preferred_task, g_sys_stat := RHINO_RUNNING\<rparr>)
      else (Some RHINO_RUNNING, s))"

section \<open>Interrupts\<close>

definition krhino_intrpt_enter :: "kernel \<Rightarrow> kstat \<times> kernel" where
  "krhino_intrpt_enter s = (RHINO_SUCCESS, s\<lparr>g_intrpt_nested_level := g_intrpt_nested_level s + 1\<rparr>)"

definition krhino_intrpt_exit :: "kernel \<Rightarrow> kernel" where
  "krhino_intrpt_exit s =
     (let s = s\<lparr>g_intrpt_nested_level := g_intrpt_nested_level s - 1\<rparr>
      in if g_intrpt_nested_level s > 0 then s
         else if g_sched_lock s > 0 then s
         else case preferred_cpu_ready_task_get (g_ready_queue s) of
           None \<Rightarrow> fault s
         | Some preferred_task \<Rightarrow>
             if preferred_task = g_active_task s then s
             else s\<lparr>g_preferred_ready_task := preferred_task, g_active_task := preferred_task\<rparr>)"

section \<open>The tasks of the kernel\<close>

text \<open>One round of the idle task.\<close>

definition idle_task :: "ksys \<Rightarrow> ksys" where
  "idle_task s = s\<lparr>g_idle_count := g_idle_count s + 1\<rparr>"

text \<open>
  The task that frees the memory of deleted tasks: its wait, and what it does after it.  The
  result of \<open>dyn_mem_proc_task_drain\<close> has the addresses in the order they are freed in.
\<close>

definition dyn_mem_proc_task_wait :: "kernel \<Rightarrow> outcome \<times> kernel" where
  "dyn_mem_proc_task_wait s = krhino_sem_take (g_res_sem s) RHINO_WAIT_FOREVER s"

fun res_drain :: "ptr list list \<Rightarrow> ptr list" where
  "res_drain [] = []"
| "res_drain (r # rs) = r @ res_drain rs"

definition dyn_mem_proc_task_drain :: "kstat \<Rightarrow> kernel \<Rightarrow> ptr list \<times> kernel" where
  "dyn_mem_proc_task_drain ret s =
     (let s = (if ret \<noteq> RHINO_SUCCESS then k_err_proc RHINO_DYN_MEM_PROC_ERR s else s)
      in (res_drain (g_res_list s), s\<lparr>g_res_list := []\<rparr>))"

section \<open>Semaphores of tasks\<close>

definition krhino_task_sem_create :: "tid \<Rightarrow> oid \<Rightarrow> ptr \<Rightarrow> u32 \<Rightarrow> kernel \<Rightarrow> kstat \<times> kernel" where
  "krhino_task_sem_create task sem name cnt s =
     (if task = NULL then (RHINO_NULL_PTR, s)
      else let (ret, s) = krhino_sem_create sem name cnt s
           in (ret, upd_task task (\<lambda>k. k\<lparr>task_sem_obj := (if ret = RHINO_SUCCESS then sem else NULL)\<rparr>) s))"

definition krhino_task_sem_del :: "tid \<Rightarrow> kernel \<Rightarrow> kstat \<times> kernel" where
  "krhino_task_sem_del task s = (if task = NULL then (RHINO_NULL_PTR, s) else krhino_sem_del (task_sem_obj (tasks s task)) s)"

definition krhino_task_sem_give :: "tid \<Rightarrow> kernel \<Rightarrow> kstat \<times> kernel" where
  "krhino_task_sem_give task s = (if task = NULL then (RHINO_NULL_PTR, s) else krhino_sem_give (task_sem_obj (tasks s task)) s)"

definition krhino_task_sem_take :: "tick_t \<Rightarrow> kernel \<Rightarrow> outcome \<times> kernel" where
  "krhino_task_sem_take ticks s = krhino_sem_take (task_sem_obj (tasks s (g_active_task s))) ticks s"

definition krhino_task_sem_count_set :: "tid \<Rightarrow> u32 \<Rightarrow> kernel \<Rightarrow> kstat \<times> kernel" where
  "krhino_task_sem_count_set task cnt s =
     (if task = NULL then (RHINO_NULL_PTR, s) else krhino_sem_count_set (task_sem_obj (tasks s task)) cnt s)"

definition krhino_task_sem_count_get :: "tid \<Rightarrow> ptr \<Rightarrow> kernel \<Rightarrow> kstat \<times> u32 option" where
  "krhino_task_sem_count_get task cnt s =
     (if task = NULL then (RHINO_NULL_PTR, None) else krhino_sem_count_get (task_sem_obj (tasks s task)) cnt s)"

lemma krhino_task_sem_ok:
  assumes "kernel_ok s"
  shows "obj_type (objs s sem) = RHINO_OBJ_TYPE_NONE \<Longrightarrow> kernel_ok (snd (krhino_task_sem_create task sem name cnt s))"
    "kernel_ok (snd (krhino_task_sem_del task s))" "kernel_ok (snd (krhino_task_sem_give task s))"
    "may_block s \<Longrightarrow> kernel_ok (snd (krhino_task_sem_take ticks s))" "kernel_ok (snd (krhino_task_sem_count_set task cnt s))"
proof -
  have n: "neutral (\<lambda>k. k\<lparr>task_sem_obj := x\<rparr>)" for x by (simp add: neutral_def)
  show "kernel_ok (snd (krhino_task_sem_create task sem name cnt s))" if "obj_type (objs s sem) = RHINO_OBJ_TYPE_NONE"
    using assms sem_create_ok [OF assms that] n
    by (simp add: krhino_task_sem_create_def krhino_sem_create_def split_def Let_def neutral_ok)
  show "kernel_ok (snd (krhino_task_sem_del task s))" "kernel_ok (snd (krhino_task_sem_give task s))"
    "kernel_ok (snd (krhino_task_sem_count_set task cnt s))"
    using assms by (simp_all add: krhino_task_sem_del_def krhino_task_sem_give_def krhino_task_sem_count_set_def krhino_sem_del_def
        sem_del_ok krhino_sem_give_def sem_give_ok krhino_sem_count_set_ok)
  show "kernel_ok (snd (krhino_task_sem_take ticks s))" if "may_block s"
    using krhino_sem_take_ok [OF that] by (simp add: krhino_task_sem_take_def)
qed


section \<open>Before the start\<close>

text \<open>
  Before \<^verbatim>\<open>krhino_start\<close> no task waits and no mutex exists.  All tasks but the idle task are more
  urgent than it.
\<close>

definition boot_idle :: "kernel \<Rightarrow> bool" where
  "boot_idle s \<longleftrightarrow>
     (if g_idle_task_spawned s > 0
      then \<exists>u. ready (tasks s u) \<and> b_prio (tasks s u) = RHINO_IDLE_PRI
        \<and> (\<forall>t. live (tasks s t) \<longrightarrow> t \<noteq> u \<longrightarrow> b_prio (tasks s t) < RHINO_IDLE_PRI)
      else \<forall>t. live (tasks s t) \<longrightarrow> b_prio (tasks s t) < RHINO_IDLE_PRI)"

definition boot_ok :: "kernel \<Rightarrow> bool" where
  "boot_ok s \<longleftrightarrow> g_sys_stat s = RHINO_STOPPED \<and> g_intrpt_nested_level s = 0 \<and> g_sched_lock s = 0 \<and> \<not> k_fault s
     \<and> g_tick_head s = [] \<and> rdy_ok (g_ready_queue s) (tasks s) \<and> objs_ok s
     \<and> (\<forall>i. blk_list (objs s i) = [] \<and> obj_type (objs s i) \<noteq> RHINO_MUTEX_OBJ_TYPE)
     \<and> (\<forall>t. \<not> tick_head (tasks s t) \<and> (live (tasks s t) \<longrightarrow> t \<noteq> NULL \<and> newborn (tasks s t)))
     \<and> boot_idle s"

lemma boot_base:
  assumes "boot_ok s"
  shows "base_ok s" "none_ok {} (objs s)" "s_mtx_ok s" "s_pi_ok s"
proof -
  have b: "blk_list (objs s i) = []" "obj_type (objs s i) \<noteq> RHINO_MUTEX_OBJ_TYPE" for i
    using assms by (simp_all add: boot_ok_def)
  have n: "t \<noteq> NULL" "newborn (tasks s t)" if "live (tasks s t)" for t
    using assms that by (simp_all add: boot_ok_def)
  have np: "\<not> pended (tasks s t)" "\<not> sleeping (tasks s t)" for t
    using newborn_not [OF n(2)] dead_not by (cases "live (tasks s t)", blast+)+
  have "blk_ok (objs s) (tasks s)" by (rule blk_okI) (simp_all add: b np)
  moreover have "tick_ok (g_tick_head s) (g_tick_count s) (tasks s)"
    using assms np by (simp add: tick_ok_def boot_ok_def)
  moreover have "prio_ok (tasks s)" using n(2) by (simp add: prio_ok_def newborn_def)
  ultimately show "base_ok s" using assms by (simp add: base_ok_def boot_ok_def)
  show "none_ok {} (objs s)" by (simp add: none_ok_def b)
  have o: "s_owned s t = {}" for t by (simp add: owned_def b)
  show "s_mtx_ok s"
    using n by (auto simp: mtx_ok_def chain_of_def newborn_def o b intro!: exI [of _ "[]"])
  show "s_pi_ok s"
    using n by (simp add: pi_ok_def pi_exact_def pri_target_def waiters_def o newborn_def)
qed

lemma boot_start:
  assumes "boot_ok s" "g_idle_task_spawned s > 0"
  shows "kernel_ok (snd (krhino_start s))" "fst (krhino_start s) = None"
proof -
  have "s_owned s t = {}" for t using assms(1) by (simp add: owned_def boot_ok_def)
  then have "idle_ok s" using assms by (auto simp: idle_ok_def idle_task_ok_def boot_ok_def boot_idle_def)
  then have k: "kinv s" using boot_base [OF assms(1)] by (intro kinvI)
  then obtain u p where "u \<in> set (cur_list_item (g_ready_queue s) p)" using kinv_some_ready by blast
  then have "cur_list_item (g_ready_queue s) p \<noteq> []" by auto
  moreover have "rq_ok (g_ready_queue s)" using assms(1) by (simp add: boot_ok_def rdy_ok_def)
  ultimately obtain t where t: "preferred_cpu_ready_task_get (g_ready_queue s) = Some t"
    using rq_preferred(1) by blast
  define s' where "s' = s\<lparr>g_preferred_ready_task := t, g_active_task := t, g_sys_stat := RHINO_RUNNING\<rparr>"
  have e: "krhino_start s = (None, s')" using assms(1) t by (simp add: krhino_start_def boot_ok_def s'_def)
  have "kinv s'" using k by (simp add: s'_def)
  moreover have "sched_ok s'"
    using assms t by (simp add: sched_ok_def s'_def boot_ok_def SCHED_MAX_LOCK_COUNT_def)
  moreover have "objs_ok s'"
    using assms(1) obj_frame_ok [of s s'] by (simp add: obj_frame_def s'_def boot_ok_def)
  ultimately show "kernel_ok (snd (krhino_start s))" "fst (krhino_start s) = None" by (simp_all add: e kernel_ok_def)
qed


text \<open>The creation of a task and of an object.\<close>

lemma boot_task_create:
  assumes "boot_ok s" "\<not> live (tasks s t)" "fst (task_create t name arg pri ticks buf n entry autorun alloc cpu s) = RHINO_SUCCESS"
    and "pri = RHINO_IDLE_PRI \<Longrightarrow> autorun > 0"
  defines "s' \<equiv> snd (task_create t name arg pri ticks buf n entry autorun alloc cpu s)"
  shows "boot_ok s'" "g_idle_task_spawned s' = (if pri = RHINO_IDLE_PRI then 1 else g_idle_task_spawned s)"
    "\<exists>k. tasks s' = (tasks s)(t := k) \<and> prio k = pri \<and> (ready k \<longleftrightarrow> autorun > 0)" "objs s' = objs s" "buf_queues s' = buf_queues s"
proof -
  note e = task_create_eq [OF assms(3)]
  have st: "g_sys_stat s = RHINO_STOPPED" using assms(1) by (simp add: boot_ok_def)
  from e(5) obtain stk mem where eq: "s' = born t (new_task name pri ticks buf n autorun alloc cpu stk) (enrolled t pri mem s)"
    using st by (auto simp: s'_def Let_def)
  define k where "k = new_task name pri ticks buf n autorun alloc cpu stk"
  note k = new_task_newborn [OF e(2), of name ticks buf n autorun alloc cpu stk, folded k_def]
  have b: "base_ok (enrolled t pri mem s)" using boot_base(1) [OF assms(1)] by (simp add: enrolled_def)
  have r: "rdy_ok (g_ready_queue s') (tasks s')"
    using born_base [OF b _ k(1), of t] assms(2) base_okD(1) by (simp add: eq k_def enrolled_def)
  have s': "tasks s' = (tasks s)(t := k)" "objs s' = objs s" "buf_queues s' = buf_queues s" "g_tick_head s' = g_tick_head s"
    "g_sys_stat s' = g_sys_stat s" "g_intrpt_nested_level s' = g_intrpt_nested_level s" "g_sched_lock s' = g_sched_lock s" "k_fault s' = k_fault s"
    "g_idle_task_spawned s' = (if pri = RHINO_IDLE_PRI then 1 else g_idle_task_spawned s)"
    by (simp_all add: eq k_def born_def move_simps enrolled_def)
  have obj: "obj_frame (enrolled t pri mem s) s'" using born_obj_frame [OF b, of t] assms(2) by (simp add: eq enrolled_def)
  have "obj_inv (enrolled t pri mem s) i = obj_inv s i" for i by (simp add: enrolled_def)
  then have "objs_ok s'" using obj_frame_ok [OF obj] assms(1) by (simp add: objs_ok_def boot_ok_def)
  moreover have "boot_idle s'"
  proof (cases "pri = RHINO_IDLE_PRI")
    case True
    then have i: "g_idle_task_spawned s = 0" "ready k" "b_prio k = RHINO_IDLE_PRI" using e(4) k assms(4) by simp_all
    then have "\<forall>u. live (tasks s u) \<longrightarrow> b_prio (tasks s u) < RHINO_IDLE_PRI" using assms(1) by (simp add: boot_ok_def boot_idle_def)
    then show ?thesis
      using True i unfolding boot_idle_def s' by (simp, intro exI [of _ t]) simp
  next
    case False
    then have p: "b_prio k < RHINO_IDLE_PRI" using k e(2) by (simp add: RHINO_IDLE_PRI_def RHINO_CONFIG_PRI_MAX_def)
    show ?thesis
    proof (cases "g_idle_task_spawned s > 0")
      case T: True
      then obtain u where u: "ready (tasks s u)" "b_prio (tasks s u) = RHINO_IDLE_PRI"
        "\<forall>t. live (tasks s t) \<longrightarrow> t \<noteq> u \<longrightarrow> b_prio (tasks s t) < RHINO_IDLE_PRI"
        using assms(1) by (auto simp: boot_ok_def boot_idle_def)
      then have "u \<noteq> t" using assms(2) dead_not by blast
      with u T False p show ?thesis unfolding boot_idle_def s' by (simp, intro exI [of _ u]) simp
    next
      case F: False
      then show ?thesis using False p assms(1) unfolding boot_idle_def s' by (simp add: boot_ok_def boot_idle_def)
    qed
  qed
  ultimately show "boot_ok s'"
    using assms(1) r e(1) k(1) unfolding boot_ok_def s' by (simp add: newborn_def)
  show "g_idle_task_spawned s' = (if pri = RHINO_IDLE_PRI then 1 else g_idle_task_spawned s)" "objs s' = objs s" "buf_queues s' = buf_queues s"
    by (simp_all add: s')
  show "\<exists>k. tasks s' = (tasks s)(t := k) \<and> prio k = pri \<and> (ready k \<longleftrightarrow> autorun > 0)" using s'(1) k by blast
qed

lemma boot_object:
  assumes "boot_ok s" "blk_list b = []" "obj_type b \<noteq> RHINO_MUTEX_OBJ_TYPE" "objs s' = (objs s)(i := b)" "obj_inv s' i"
    and "\<And>j. j \<noteq> i \<Longrightarrow> sems s' j = sems s j \<and> events s' j = events s j \<and> queues s' j = queues s j \<and> buf_queues s' j = buf_queues s j"
    and "mutexes s' = mutexes s" "tasks s' = tasks s" "g_intrpt_nested_level s' = g_intrpt_nested_level s"
    and "g_sched_lock s' = g_sched_lock s" "g_ready_queue s' = g_ready_queue s" "g_tick_head s' = g_tick_head s" "k_fault s' = k_fault s"
    and "g_sys_stat s' = g_sys_stat s" "g_idle_task_spawned s' = g_idle_task_spawned s"
  shows "boot_ok s'"
proof -
  have "obj_inv s' j" for j
    using assms(1,5-8) obj_inv_same [of s' j s] by (cases "j = i") (auto simp: assms(4) boot_ok_def objs_ok_def)
  then have "objs_ok s'" by (simp add: objs_ok_def)
  moreover have "boot_idle s'" using assms by (simp add: boot_ok_def boot_idle_def)
  ultimately show ?thesis using assms by (simp add: boot_ok_def)
qed


lemma boot_sem_create:
  fixes cnt :: u32
  assumes "boot_ok s" "sem \<noteq> NULL" "name \<noteq> NULL"
  defines "s' \<equiv> snd (krhino_sem_create sem name cnt s)"
  shows "boot_ok s'" "fst (krhino_sem_create sem name cnt s) = RHINO_SUCCESS" "tasks s' = tasks s"
    "g_idle_task_spawned s' = g_idle_task_spawned s" "\<forall>i. i \<noteq> sem \<longrightarrow> objs s' i = objs s i" "buf_queues s' = buf_queues s"
proof -
  show "boot_ok s'"
    using assms(2,3) by (intro boot_object [OF assms(1), of "(objs s sem)\<lparr>blk_list := [], obj_name := name, blk_policy := BLK_POLICY_PRI,
        obj_type := RHINO_SEM_OBJ_TYPE\<rparr>" _ sem])
      (simp_all add: s'_def krhino_sem_create_def sem_create_def upd_defs obj_inv_def)
qed (use assms(2,3) in \<open>simp_all add: s'_def krhino_sem_create_def sem_create_def upd_defs\<close>)

lemma boot_buf_queue_create:
  assumes "boot_ok s" "queue \<noteq> NULL" "buf \<noteq> NULL" "name \<noteq> NULL" "0 < msg" "0 < num" "length mem = msg * num" "msg * num < 2 ^ 32"
  defines "s' \<equiv> snd (krhino_fix_buf_queue_create queue name buf mem msg num s)"
  shows "boot_ok s'" "tasks s' = tasks s" "g_idle_task_spawned s' = g_idle_task_spawned s" "max_msg_size (buf_queues s' queue) = msg"
    "obj_type (objs s' queue) = RHINO_BUF_QUEUE_OBJ_TYPE" "\<forall>i. i \<noteq> queue \<longrightarrow> objs s' i = objs s i"
proof -
  define rb where "rb = ringbuf_init mem RINGBUF_TYPE_FIX msg"
  have "rb_holds rb []" unfolding rb_def using assms(5-8) by (intro rb_holds_init) auto
  then have "bq_holds (q\<lparr>bq_buf := buf, bq_cur_num := 0, bq_peak_num := 0, max_msg_size := msg, bq_alloc_flag := al,
      bq_ringbuf := rb, min_free_buf_size := rb_freesize rb\<rparr>) []" for q al
    by (simp add: bq_holds_def) (simp add: rb_def ringbuf_init_def ringbuf_reset_def)
  then show "boot_ok s'"
    using assms(2-8) by (intro boot_object [OF assms(1), of "(objs s queue)\<lparr>blk_list := [], obj_name := name, blk_policy := BLK_POLICY_PRI,
        obj_type := RHINO_BUF_QUEUE_OBJ_TYPE\<rparr>" _ queue])
      (auto simp: s'_def krhino_fix_buf_queue_create_def buf_queue_create_def upd_defs obj_inv_def rb_def [symmetric])
qed (use assms(2-8) in \<open>simp_all add: s'_def krhino_fix_buf_queue_create_def buf_queue_create_def upd_defs\<close>)

lemma task_create_succeeds:
  "\<lbrakk>t \<noteq> NULL; name \<noteq> NULL; entry \<noteq> NULL; buf \<noteq> NULL; n \<noteq> 0; pri < RHINO_CONFIG_PRI_MAX; g_intrpt_nested_level s = 0;
    pri = RHINO_IDLE_PRI \<Longrightarrow> g_idle_task_spawned s = 0\<rbrakk>
   \<Longrightarrow> fst (task_create t name arg pri ticks buf n entry autorun alloc cpu s) = RHINO_SUCCESS"
  by (simp add: task_create_def Let_def split_def)

section \<open>The system at the start\<close>

definition image_ok :: "image \<Rightarrow> bool" where
  "image_ok img \<longleftrightarrow> (let w = i_workqueue img in
     distinct [i_dyn_task img, i_idle_task img, i_wq_worker img w, i_timer_task img]
     \<and> distinct [i_res_sem img, i_wq_sem img w, i_timer_queue img]
     \<and> NULL \<notin> {i_dyn_task img, i_idle_task img, i_wq_worker img w, i_timer_task img, i_res_sem img, i_wq_sem img w, i_timer_queue img,
         i_dyn_stack img, i_idle_stack img, i_wq_stack img, i_timer_stack img, i_dyn_entry img, i_idle_entry img, i_worker_entry img,
         i_timer_entry img, i_timer_buf img, i_name img, w}
     \<and> length (i_timer_mem img) = SIZEOF_CB * RHINO_CONFIG_TIMER_MSG_NUM)"

lemma boot_zero:
  "boot_ok ((kobj_list_init (tick_list_init ((zero_kernel img)\<lparr>g_sys_stat := RHINO_STOPPED,
     g_ready_queue := runqueue_init (g_ready_queue (zero_kernel img))\<rparr>)))\<lparr>g_res_list := []\<rparr>)" (is "boot_ok ?k")
proof -
  have "rq_ok (runqueue_init (g_ready_queue (zero_kernel img)))" by (rule rq_ok_init) (simp_all add: zero_kernel_def)
  then have "rdy_ok (g_ready_queue ?k) (tasks ?k)"
    by (simp add: rdy_ok_def kobj_list_init_def tick_list_init_def zero_kernel_def zero_task_def runqueue_init_def state_defs)
  then show ?thesis
    by (simp add: boot_ok_def boot_idle_def objs_ok_def obj_inv_def kobj_list_init_def tick_list_init_def zero_kernel_def zero_task_def state_defs)
qed

text \<open>The creation of one of the four tasks of the kernel.\<close>

lemma boot_kernel_task:
  fixes arg :: ptr
  assumes "boot_ok s" "\<not> live (tasks s t)" "t \<noteq> NULL" "name \<noteq> NULL" "entry \<noteq> NULL" "buf \<noteq> NULL" "n \<noteq> 0" "pri < RHINO_CONFIG_PRI_MAX"
    "pri = RHINO_IDLE_PRI \<Longrightarrow> g_idle_task_spawned s = 0"
  defines "s' \<equiv> snd (krhino_task_create t name arg pri 0 buf n entry 1 s)"
  shows "fst (krhino_task_create t name arg pri 0 buf n entry 1 s) = RHINO_SUCCESS" "boot_ok s'"
    "g_idle_task_spawned s' = (if pri = RHINO_IDLE_PRI then 1 else g_idle_task_spawned s)"
    "\<exists>k. tasks s' = (tasks s)(t := k) \<and> prio k = pri \<and> ready k" "objs s' = objs s" "buf_queues s' = buf_queues s"
proof -
  have g: "g_intrpt_nested_level s = 0" using assms(1) by (simp add: boot_ok_def)
  show f: "fst (krhino_task_create t name arg pri 0 buf n entry 1 s) = RHINO_SUCCESS"
    unfolding krhino_task_create_def using assms(3-9) g by (intro task_create_succeeds) simp_all
  note c = boot_task_create [OF assms(1,2) f [unfolded krhino_task_create_def], folded krhino_task_create_def, folded s'_def]
  show "boot_ok s'" "g_idle_task_spawned s' = (if pri = RHINO_IDLE_PRI then 1 else g_idle_task_spawned s)"
    "\<exists>k. tasks s' = (tasks s)(t := k) \<and> prio k = pri \<and> ready k" "objs s' = objs s" "buf_queues s' = buf_queues s"
    using c by simp_all
qed


lemma krhino_init_kernel:
  assumes "image_ok img"
  defines "k0 \<equiv> (kobj_list_init (tick_list_init ((zero_kernel img)\<lparr>g_sys_stat := RHINO_STOPPED,
     g_ready_queue := runqueue_init (g_ready_queue (zero_kernel img))\<rparr>)))\<lparr>g_res_list := []\<rparr>"
  defines "k3 \<equiv> snd (krhino_task_create (i_idle_task img) (i_name img) NULL RHINO_IDLE_PRI 0 (i_idle_stack img)
     RHINO_CONFIG_IDLE_TASK_STACK_SIZE (i_idle_entry img) 1 (dyn_mem_proc_task_start img (snd (krhino_sem_create (i_res_sem img) (i_name img) 0 k0))))"
  obtains kd ki where "boot_ok k3" "g_idle_task_spawned k3 = 1"
    "tasks k3 = (\<lambda>_. zero_task)(i_dyn_task img := kd, i_idle_task img := ki)"
    "ready kd" "prio kd = RHINO_CONFIG_K_DYN_MEM_TASK_PRI" "ready ki" "prio ki = RHINO_IDLE_PRI"
    "\<forall>i. i \<noteq> i_res_sem img \<longrightarrow> obj_type (objs k3 i) = RHINO_OBJ_TYPE_NONE"
proof -
  have I: "i_dyn_task img \<noteq> i_idle_task img" "i_dyn_task img \<noteq> NULL" "i_idle_task img \<noteq> NULL" "i_res_sem img \<noteq> NULL"
    "i_name img \<noteq> NULL" "i_dyn_stack img \<noteq> NULL" "i_idle_stack img \<noteq> NULL" "i_dyn_entry img \<noteq> NULL" "i_idle_entry img \<noteq> NULL"
    using assms(1) by (simp_all add: image_ok_def Let_def)
  define k1 where "k1 = snd (krhino_sem_create (i_res_sem img) (i_name img) 0 k0)"
  define k2 where "k2 = dyn_mem_proc_task_start img k1"
  have k0: "tasks k0 = (\<lambda>_. zero_task)" "g_idle_task_spawned k0 = 0" "obj_type (objs k0 i) = RHINO_OBJ_TYPE_NONE" for i
    by (simp_all add: k0_def kobj_list_init_def tick_list_init_def zero_kernel_def)
  have z: "\<not> live zero_task" by (simp add: zero_task_def state_defs)
  note b1 = boot_sem_create [OF boot_zero [of img, folded k0_def] I(4,5), of 0, folded k1_def]
  have b2: "boot_ok k2" "g_idle_task_spawned k2 = 0" "objs k2 = objs k1"
    "\<exists>k. tasks k2 = (\<lambda>_. zero_task)(i_dyn_task img := k) \<and> prio k = RHINO_CONFIG_K_DYN_MEM_TASK_PRI \<and> ready k"
    using boot_kernel_task [OF b1(1) _ I(2,5,8,6), of RHINO_CONFIG_K_DYN_TASK_STACK RHINO_CONFIG_K_DYN_MEM_TASK_PRI 0] b1 k0 z
    by (simp_all add: k2_def dyn_mem_proc_task_start_def sys_config_defs RHINO_CONFIG_PRI_MAX_def RHINO_IDLE_PRI_def)
  then obtain kd where kd: "tasks k2 = (\<lambda>_. zero_task)(i_dyn_task img := kd)" "prio kd = RHINO_CONFIG_K_DYN_MEM_TASK_PRI" "ready kd" by blast
  have "boot_ok k3" "g_idle_task_spawned k3 = 1" "objs k3 = objs k2" "\<exists>k. tasks k3 = (tasks k2)(i_idle_task img := k) \<and> prio k = RHINO_IDLE_PRI \<and> ready k"
    using boot_kernel_task [OF b2(1) _ I(3,5,9,7), of RHINO_CONFIG_IDLE_TASK_STACK_SIZE RHINO_IDLE_PRI NULL] b2(2) kd(1) I(1) z
    by (simp_all add: k3_def k2_def [symmetric] k1_def [symmetric] sys_config_defs RHINO_CONFIG_PRI_MAX_def RHINO_IDLE_PRI_def)
  moreover from this(3) have "\<forall>i. i \<noteq> i_res_sem img \<longrightarrow> obj_type (objs k3 i) = RHINO_OBJ_TYPE_NONE" using b2(3) b1(5) k0(3) by simp
  ultimately show ?thesis using that kd by metis
qed

lemma krhino_init_ok:
  assumes "image_ok img"
  obtains k kd ki kw kt where
    "krhino_init img (zero_ksys img) = (RHINO_SUCCESS, (zero_ksys img)\<lparr>kern := k, workqueues := (workqueues (zero_ksys img))(i_workqueue img :=
        (workqueues (zero_ksys img) (i_workqueue img))\<lparr>wq_name := i_name img\<rparr>), g_workqueue_list_head := [i_workqueue img]\<rparr>)"
    "boot_ok k" "g_idle_task_spawned k = 1"
    "tasks k = (\<lambda>_. zero_task)(i_dyn_task img := kd, i_idle_task img := ki, i_wq_worker img (i_workqueue img) := kw, i_timer_task img := kt)"
    "ready kd" "prio kd = RHINO_CONFIG_K_DYN_MEM_TASK_PRI" "ready ki" "prio ki = RHINO_IDLE_PRI"
    "ready kw" "prio kw = RHINO_CONFIG_WORKQUEUE_TASK_PRIO" "ready kt" "prio kt = RHINO_CONFIG_TIMER_TASK_PRI"
    "max_msg_size (buf_queues k (i_timer_queue img)) = SIZEOF_CB" "obj_type (objs k (i_timer_queue img)) = RHINO_BUF_QUEUE_OBJ_TYPE"
    "\<forall>i. i \<notin> {i_res_sem img, i_wq_sem img (i_workqueue img), i_timer_queue img} \<longrightarrow> obj_type (objs k i) = RHINO_OBJ_TYPE_NONE"
proof -
  let ?w = "i_workqueue img"
  define k0 where "k0 = (kobj_list_init (tick_list_init ((zero_kernel img)\<lparr>g_sys_stat := RHINO_STOPPED,
     g_ready_queue := runqueue_init (g_ready_queue (zero_kernel img))\<rparr>)))\<lparr>g_res_list := []\<rparr>"
  define k3 where "k3 = snd (krhino_task_create (i_idle_task img) (i_name img) NULL RHINO_IDLE_PRI 0 (i_idle_stack img)
     RHINO_CONFIG_IDLE_TASK_STACK_SIZE (i_idle_entry img) 1 (dyn_mem_proc_task_start img (snd (krhino_sem_create (i_res_sem img) (i_name img) 0 k0))))"
  obtain kd ki where k3: "boot_ok k3" "g_idle_task_spawned k3 = 1"
    "tasks k3 = (\<lambda>_. zero_task)(i_dyn_task img := kd, i_idle_task img := ki)"
    "ready kd" "prio kd = RHINO_CONFIG_K_DYN_MEM_TASK_PRI" "ready ki" "prio ki = RHINO_IDLE_PRI"
    "\<forall>i. i \<noteq> i_res_sem img \<longrightarrow> obj_type (objs k3 i) = RHINO_OBJ_TYPE_NONE"
    using krhino_init_kernel [OF assms, folded k0_def, folded k3_def] .
  have I: "i_wq_worker img ?w \<notin> {i_dyn_task img, i_idle_task img}" "i_timer_task img \<notin> {i_dyn_task img, i_idle_task img, i_wq_worker img ?w}"
    "i_wq_worker img ?w \<noteq> NULL" "i_timer_task img \<noteq> NULL" "i_wq_sem img ?w \<noteq> NULL" "i_timer_queue img \<noteq> NULL" "i_name img \<noteq> NULL"
    "i_wq_stack img \<noteq> NULL" "i_timer_stack img \<noteq> NULL" "i_worker_entry img \<noteq> NULL" "i_timer_entry img \<noteq> NULL" "i_timer_buf img \<noteq> NULL" "?w \<noteq> NULL"
    "length (i_timer_mem img) = SIZEOF_CB * RHINO_CONFIG_TIMER_MSG_NUM"
    using assms by (auto simp: image_ok_def Let_def)
  have z: "\<not> live zero_task" by (simp add: zero_task_def state_defs)
  define k4 where "k4 = snd (krhino_sem_create (i_wq_sem img ?w) (i_name img) 0 k3)"
  note b4 = boot_sem_create [OF k3(1) I(5,7), of 0, folded k4_def]
  define k5 where "k5 = snd (krhino_task_create (i_wq_worker img ?w) (i_name img) ?w RHINO_CONFIG_WORKQUEUE_TASK_PRIO 0
    (i_wq_stack img) RHINO_CONFIG_WORKQUEUE_STACK_SIZE (i_worker_entry img) 1 k4)"
  have b5: "fst (krhino_task_create (i_wq_worker img ?w) (i_name img) ?w RHINO_CONFIG_WORKQUEUE_TASK_PRIO 0
      (i_wq_stack img) RHINO_CONFIG_WORKQUEUE_STACK_SIZE (i_worker_entry img) 1 k4) = RHINO_SUCCESS"
    "boot_ok k5" "g_idle_task_spawned k5 = 1" "objs k5 = objs k4"
    "\<exists>k. tasks k5 = (tasks k3)(i_wq_worker img ?w := k) \<and> prio k = RHINO_CONFIG_WORKQUEUE_TASK_PRIO \<and> ready k"
    using boot_kernel_task [OF b4(1) _ I(3,7,10,8), of RHINO_CONFIG_WORKQUEUE_STACK_SIZE RHINO_CONFIG_WORKQUEUE_TASK_PRIO ?w, folded k5_def]
      b4 k3(2,3) I(1) z
    by (simp_all add: sys_config_defs RHINO_CONFIG_PRI_MAX_def RHINO_IDLE_PRI_def)
  then obtain kw where kw: "tasks k5 = (tasks k3)(i_wq_worker img ?w := kw)" "prio kw = RHINO_CONFIG_WORKQUEUE_TASK_PRIO" "ready kw" by blast
  define k6 where "k6 = snd (krhino_fix_buf_queue_create (i_timer_queue img) (i_name img) (i_timer_buf img) (i_timer_mem img)
    SIZEOF_CB RHINO_CONFIG_TIMER_MSG_NUM k5)"
  have b6: "boot_ok k6" "tasks k6 = tasks k5" "g_idle_task_spawned k6 = 1" "max_msg_size (buf_queues k6 (i_timer_queue img)) = SIZEOF_CB"
    "obj_type (objs k6 (i_timer_queue img)) = RHINO_BUF_QUEUE_OBJ_TYPE" "\<forall>i. i \<noteq> i_timer_queue img \<longrightarrow> objs k6 i = objs k5 i"
    using boot_buf_queue_create [OF b5(2) I(6,12,7) _ _ I(14), folded k6_def] b5(3)
    by (simp_all add: SIZEOF_CB_def RHINO_CONFIG_TIMER_MSG_NUM_def)
  define k7 where "k7 = snd (krhino_task_create (i_timer_task img) (i_name img) NULL RHINO_CONFIG_TIMER_TASK_PRI 0
    (i_timer_stack img) RHINO_CONFIG_TIMER_TASK_STACK_SIZE (i_timer_entry img) 1 k6)"
  have b7: "boot_ok k7" "g_idle_task_spawned k7 = 1" "objs k7 = objs k6" "buf_queues k7 = buf_queues k6"
    "\<exists>k. tasks k7 = (tasks k5)(i_timer_task img := k) \<and> prio k = RHINO_CONFIG_TIMER_TASK_PRI \<and> ready k"
    using boot_kernel_task [OF b6(1) _ I(4,7,11,9), of RHINO_CONFIG_TIMER_TASK_STACK_SIZE RHINO_CONFIG_TIMER_TASK_PRI NULL, folded k7_def]
      b6 kw(1) k3(3) I(2) z
    by (simp_all add: sys_config_defs RHINO_CONFIG_PRI_MAX_def RHINO_IDLE_PRI_def)
  then obtain kt where kt: "tasks k7 = (tasks k5)(i_timer_task img := kt)" "prio kt = RHINO_CONFIG_TIMER_TASK_PRI" "ready kt" by blast
  define s3 where "s3 = (zero_ksys img)\<lparr>kern := k3\<rparr>"
  have i1: "krhino_init img (zero_ksys img) = (RHINO_SUCCESS, ktimer_init img (workqueue_init img s3))"
    by (simp add: krhino_init_def Let_def s3_def k3_def k0_def zero_ksys_def kobj_list_init_def tick_list_init_def zero_kernel_def)
  define W where "W = (workqueues (zero_ksys img))(?w := (workqueues (zero_ksys img) ?w)\<lparr>wq_name := i_name img\<rparr>)"
  have pr: "krhino_sem_create (i_wq_sem img ?w) (i_name img) 0 k3 = (RHINO_SUCCESS, k4)"
    "krhino_task_create (i_wq_worker img ?w) (i_name img) ?w RHINO_CONFIG_WORKQUEUE_TASK_PRIO 0
      (i_wq_stack img) RHINO_CONFIG_WORKQUEUE_STACK_SIZE (i_worker_entry img) 1 k4 = (RHINO_SUCCESS, k5)"
    using b4(2) b5(1) by (simp_all add: k4_def k5_def prod_eq_iff)
  have i2: "workqueue_init img s3 = (zero_ksys img)\<lparr>kern := k5, workqueues := W, g_workqueue_list_head := [?w]\<rparr>"
    using I pr by (simp add: workqueue_init_def krhino_workqueue_create_def workqueue_is_exist_def Let_def kcall_def s3_def zero_ksys_def upd_wq_def
        W_def sys_config_defs RHINO_CONFIG_PRI_MAX_def)
  have i3: "ktimer_init img (workqueue_init img s3) = (zero_ksys img)\<lparr>kern := k7, workqueues := W, g_workqueue_list_head := [?w]\<rparr>"
    unfolding i2 by (simp add: ktimer_init_def Let_def kcall_def split_def k7_def k6_def zero_ksys_def)
  have "tasks k7 = (\<lambda>_. zero_task)(i_dyn_task img := kd, i_idle_task img := ki, i_wq_worker img ?w := kw, i_timer_task img := kt)"
    by (simp add: kt(1) kw(1) k3(3))
  moreover have "krhino_init img (zero_ksys img) = (RHINO_SUCCESS, (zero_ksys img)\<lparr>kern := k7, workqueues := W, g_workqueue_list_head := [?w]\<rparr>)"
    by (simp only: i1 i3)
  moreover have "\<forall>i. i \<notin> {i_res_sem img, i_wq_sem img ?w, i_timer_queue img} \<longrightarrow> obj_type (objs k7 i) = RHINO_OBJ_TYPE_NONE"
    using b7(3) b6(6) b5(4) b4(5) k3(8) by simp
  ultimately show ?thesis
    using that [of k7 kd ki kw kt] b7(1-4) b6(4,5) k3(4-7) kw(2,3) kt(2,3) by (simp add: W_def)
qed

end
