(* ===== verification/Rhino_Event.thy ===== *)
theory Rhino_Event
  imports Rhino_Mutex_Calls
begin

text \<open>
  Event flags: \<^verbatim>\<open>kernel/rhino/core/k_event.c\<close>.

  A task waits until all, or any, of the flags it asks for are set.  \<^verbatim>\<open>event_set\<close> wakes every
  task that the new flags satisfy, and the flags such tasks ask to be cleared are cleared
  afterwards; every task is measured against the flags as they were set.
\<close>

section \<open>Operations\<close>

definition RHINO_AND :: u8 where
  "RHINO_AND = 2"

definition RHINO_AND_CLEAR :: u8 where
  "RHINO_AND_CLEAR = 3"

definition RHINO_OR :: u8 where
  "RHINO_OR = 0"

definition RHINO_OR_CLEAR :: u8 where
  "RHINO_OR_CLEAR = 1"

definition event_create :: "oid \<Rightarrow> ptr \<Rightarrow> u32 \<Rightarrow> u8 \<Rightarrow> kernel \<Rightarrow> kstat \<times> kernel" where
  "event_create event name flags alloc s =
     (if event = NULL then (RHINO_NULL_PTR, s)
      else if name = NULL then (RHINO_NULL_PTR, s)
      else let s = upd_obj event (\<lambda>b. b\<lparr>blk_list := [], blk_policy := BLK_POLICY_PRI, obj_name := name\<rparr>) s;
               s = upd_event event (\<lambda>x. x\<lparr>event_flags := flags, event_alloc_flag := alloc\<rparr>) s;
               s = s\<lparr>g_kobj_list := (g_kobj_list s)\<lparr>event_head := event_head (g_kobj_list s) @ [event]\<rparr>\<rparr>;
               s = upd_obj event (\<lambda>b. b\<lparr>obj_type := RHINO_EVENT_OBJ_TYPE\<rparr>) s
           in (RHINO_SUCCESS, s))"

definition krhino_event_create :: "oid \<Rightarrow> ptr \<Rightarrow> u32 \<Rightarrow> kernel \<Rightarrow> kstat \<times> kernel" where
  "krhino_event_create event name flags s = event_create event name flags K_OBJ_STATIC_ALLOC s"

definition event_del :: "oid \<Rightarrow> kernel \<Rightarrow> kernel" where
  "event_del event s =
     (let s = upd_obj event (\<lambda>b. b\<lparr>obj_type := RHINO_OBJ_TYPE_NONE\<rparr>) s;
          s = wake_all pend_task_rm event s;
          s = upd_event event (\<lambda>x. x\<lparr>event_flags := 0\<rparr>) s;
          s = s\<lparr>g_kobj_list := (g_kobj_list s)\<lparr>event_head := remove1 event (event_head (g_kobj_list s))\<rparr>\<rparr>
      in core_sched s)"

definition krhino_event_del :: "oid \<Rightarrow> kernel \<Rightarrow> kstat \<times> kernel" where
  "krhino_event_del event s =
     (if event = NULL then (RHINO_NULL_PTR, s)
      else if g_intrpt_nested_level s > 0 then (RHINO_NOT_CALLED_BY_INTRPT, s)
      else if obj_type (objs s event) \<noteq> RHINO_EVENT_OBJ_TYPE then (RHINO_KOBJ_TYPE_ERR, s)
      else if event_alloc_flag (events s event) \<noteq> K_OBJ_STATIC_ALLOC then (RHINO_KOBJ_DEL_ERR, s)
      else (RHINO_SUCCESS, event_del event s))"

text \<open>\<open>event_obj\<close> is the address \<^verbatim>\<open>krhino_mm_alloc\<close> returned; the result names the new event.\<close>

definition krhino_event_dyn_create :: "ptr \<Rightarrow> ptr \<Rightarrow> u32 \<Rightarrow> oid \<Rightarrow> kernel \<Rightarrow> kstat \<times> oid option \<times> kernel" where
  "krhino_event_dyn_create event name flags event_obj s =
     (if event = NULL then (RHINO_NULL_PTR, None, s)
      else if event_obj = NULL then (RHINO_NO_MEM, None, s)
      else let (stat, s) = event_create event_obj name flags K_OBJ_DYN_ALLOC s
           in if stat \<noteq> RHINO_SUCCESS then (stat, None, s) else (stat, Some event_obj, s))"

definition krhino_event_dyn_del :: "oid \<Rightarrow> kernel \<Rightarrow> kstat \<times> kernel" where
  "krhino_event_dyn_del event s =
     (if event = NULL then (RHINO_NULL_PTR, s)
      else if g_intrpt_nested_level s > 0 then (RHINO_NOT_CALLED_BY_INTRPT, s)
      else if obj_type (objs s event) \<noteq> RHINO_EVENT_OBJ_TYPE then (RHINO_KOBJ_TYPE_ERR, s)
      else if event_alloc_flag (events s event) \<noteq> K_OBJ_DYN_ALLOC then (RHINO_KOBJ_DEL_ERR, s)
      else (RHINO_SUCCESS, event_del event s))"

definition krhino_event_get :: "oid \<Rightarrow> u32 \<Rightarrow> u8 \<Rightarrow> ptr \<Rightarrow> tick_t \<Rightarrow> kernel \<Rightarrow> outcome \<times> kernel" where
  "krhino_event_get event flags opt actl_flags ticks s =
     (if event = NULL then (Ret RHINO_NULL_PTR, s)
      else if actl_flags = NULL then (Ret RHINO_NULL_PTR, s)
      else if opt \<noteq> RHINO_AND \<and> opt \<noteq> RHINO_OR \<and> opt \<noteq> RHINO_AND_CLEAR \<and> opt \<noteq> RHINO_OR_CLEAR
        then (Ret RHINO_NO_THIS_EVENT_OPT, s)
      else if g_intrpt_nested_level s > 0 then (Ret RHINO_NOT_CALLED_BY_INTRPT, s)
      else if obj_type (objs s event) \<noteq> RHINO_EVENT_OBJ_TYPE then (Ret RHINO_KOBJ_TYPE_ERR, s)
      else if event_met opt flags (event_flags (events s event)) then
        let s = s\<lparr>user_words := (user_words s)(actl_flags := event_flags (events s event))\<rparr>;
            s = (if opt AND RHINO_FLAGS_CLEAR_MASK \<noteq> 0
                 then upd_event event (\<lambda>x. x\<lparr>event_flags := event_flags x AND NOT flags\<rparr>) s else s)
        in (Ret RHINO_SUCCESS, s)
      else if ticks = RHINO_NO_WAIT then (Ret RHINO_NO_PEND_WAIT, s)
      else if g_sched_lock s > 0 then (Ret RHINO_SCHED_DISABLE, s)
      else let s = upd_task (g_active_task s) (\<lambda>k. k\<lparr>pend_option := opt, pend_flags := flags, pend_info := actl_flags\<rparr>) s;
               s = pend_to_blk_obj event (g_active_task s) ticks s
           in (Pending, core_sched s))"

text \<open>
  The loop of \<^verbatim>\<open>event_set\<close> fetches the next node before it wakes the task of the current one, so
  that it goes through the list as it was found.
\<close>

fun event_set_loop :: "oid \<Rightarrow> u32 \<Rightarrow> tid list \<Rightarrow> kernel \<Rightarrow> kernel" where
  "event_set_loop event cur_event_flags [] s = s"
| "event_set_loop event cur_event_flags (task # iter_temp) s =
     (let k = tasks s task;
          s = (if event_met (pend_option k) (pend_flags k) cur_event_flags then
                 let s = s\<lparr>user_words := (user_words s)(pend_info k := cur_event_flags)\<rparr>;
                     s = pend_task_wakeup task s
                 in if pend_option k AND RHINO_FLAGS_CLEAR_MASK \<noteq> 0
                    then upd_event event (\<lambda>x. x\<lparr>event_flags := event_flags x AND NOT (pend_flags k)\<rparr>) s else s
               else s)
      in event_set_loop event cur_event_flags iter_temp s)"

definition event_set :: "oid \<Rightarrow> u32 \<Rightarrow> u8 \<Rightarrow> kernel \<Rightarrow> kstat \<times> kernel" where
  "event_set event flags opt s =
     (if obj_type (objs s event) \<noteq> RHINO_EVENT_OBJ_TYPE then (RHINO_KOBJ_TYPE_ERR, s)
      else if opt AND RHINO_FLAGS_AND_MASK \<noteq> 0 then
        (RHINO_SUCCESS, upd_event event (\<lambda>x. x\<lparr>event_flags := event_flags x AND flags\<rparr>) s)
      else let s = upd_event event (\<lambda>x. x\<lparr>event_flags := event_flags x OR flags\<rparr>) s;
               s = event_set_loop event (event_flags (events s event)) (blk_list (objs s event)) s
           in (RHINO_SUCCESS, core_sched s))"

definition krhino_event_set :: "oid \<Rightarrow> u32 \<Rightarrow> u8 \<Rightarrow> kernel \<Rightarrow> kstat \<times> kernel" where
  "krhino_event_set event flags opt s =
     (if event = NULL then (RHINO_NULL_PTR, s)
      else if opt \<noteq> RHINO_AND \<and> opt \<noteq> RHINO_OR then (RHINO_NO_THIS_EVENT_OPT, s)
      else event_set event flags opt s)"

section \<open>Fewer flags satisfy fewer tasks\<close>

definition flags_le :: "u32 \<Rightarrow> u32 \<Rightarrow> bool" where
  "flags_le a b \<longleftrightarrow> (\<forall>n. bit a n \<longrightarrow> bit b n)"

lemma flags_le_refl [simp]: "flags_le a a"
  by (simp add: flags_le_def)

lemma flags_le_and [simp]: "flags_le (a AND b) a"
  by (simp add: flags_le_def bit_and_iff)

lemma flags_le_trans: "flags_le a b \<Longrightarrow> flags_le b c \<Longrightarrow> flags_le a c"
  by (simp add: flags_le_def)

lemma event_met_mono: "flags_le a b \<Longrightarrow> event_met opt f a \<Longrightarrow> event_met opt f b"
  unfolding event_met_def flags_le_def word_gt_0 bit_eq_iff by (auto simp: bit_and_iff split: if_splits)

section \<open>The invariant\<close>

lemma event_obj_inv:
  "obj_type (objs s i) = RHINO_EVENT_OBJ_TYPE \<Longrightarrow> obj_inv s i \<longleftrightarrow> (\<forall>t \<in> set (blk_list (objs s i)).
     \<not> event_met (pend_option (tasks s t)) (pend_flags (tasks s t)) (event_flags (events s i)))"
  by (simp add: obj_inv_def)

lemma event_create_ok:
  assumes "kernel_ok s" "obj_type (objs s event) = RHINO_OBJ_TYPE_NONE"
  shows "kernel_ok (snd (event_create event name flags alloc s))"
proof (cases "event = NULL \<or> name = NULL")
  case True
  then show ?thesis using assms(1) by (auto simp: event_create_def)
next
  case False
  then show ?thesis
    by (intro create_ok [OF assms, of "(objs s event)\<lparr>blk_list := [], blk_policy := BLK_POLICY_PRI, obj_name := name,
        obj_type := RHINO_EVENT_OBJ_TYPE\<rparr>"])
      (simp_all add: event_create_def upd_defs obj_inv_def)
qed

lemma event_del_ok:
  assumes "kernel_ok s" "obj_type (objs s event) = RHINO_EVENT_OBJ_TYPE"
  shows "kernel_ok (event_del event s)"
  unfolding event_del_def Let_def
  by (rule del_resched_ok [OF assms(1), where f = "\<lambda>s. (upd_event event (\<lambda>x. x\<lparr>event_flags := 0\<rparr>) s)\<lparr>g_kobj_list :=
      (g_kobj_list (upd_event event (\<lambda>x. x\<lparr>event_flags := 0\<rparr>) s))\<lparr>event_head := remove1 event
        (event_head (g_kobj_list (upd_event event (\<lambda>x. x\<lparr>event_flags := 0\<rparr>) s)))\<rparr>\<rparr>"])
    (simp_all add: assms(2) run_frame_def upd_event_def, rule obj_inv_same, simp_all)

lemma fewer_flags_ok:
  assumes "kernel_ok s" "flags_le (event_flags x) (event_flags (events s i))"
  shows "kernel_ok (s\<lparr>events := (events s)(i := x)\<rparr>)" (is "kernel_ok ?s")
proof -
  have "obj_inv ?s i"
    using kernel_okD(4) [OF assms(1), of i] event_met_mono [OF assms(2)]
    by (cases "obj_type (objs s i)") (auto simp: obj_inv_def)
  then show ?thesis
    using kernel_okD(1) [OF assms(1)] by (intro change_ok [OF assms(1), where i = i]) simp_all
qed

lemma krhino_event_get_ok:
  assumes "may_block s"
  shows "kernel_ok (snd (krhino_event_get event flags opt actl_flags ticks s))"
proof (cases "obj_type (objs s event) = RHINO_EVENT_OBJ_TYPE")
  case False
  then show ?thesis using may_blockD(1) [OF assms] by (simp add: krhino_event_get_def)
next
  case True
  note b = may_blockD [OF assms]
  let ?t = "g_active_task s" and ?g = "\<lambda>k. k\<lparr>pend_option := opt, pend_flags := flags, pend_info := actl_flags\<rparr>"
  define s1 where "s1 = upd_task ?t ?g s"
  have act: "g_active_task s1 = ?t" by (simp add: s1_def upd_task_def)
  have "kernel_ok (upd_event event (\<lambda>x. x\<lparr>event_flags := event_flags x AND NOT flags\<rparr>) (s\<lparr>user_words := w\<rparr>))" for w
    using fewer_flags_ok [of "s\<lparr>user_words := w\<rparr>" "(events s event)\<lparr>event_flags := event_flags (events s event) AND NOT flags\<rparr>" event] b(1)
    by (simp add: upd_event_def)
  moreover have "kernel_ok (core_sched (pend_to_blk_obj event ?t ticks s1))"
    if "\<not> event_met opt flags (event_flags (events s event))" "g_sched_lock s = 0"
  proof -
    have neutral: "neutral ?g" by (simp add: neutral_def)
    have k1: "kinv s1" unfolding s1_def using neutral_kinvx [OF b(2) neutral] .
    have t1: "ready (tasks s1 ?t)" "prio (tasks s1 ?t) \<noteq> RHINO_IDLE_PRI" "obj_type (objs s1 event) = RHINO_EVENT_OBJ_TYPE"
      using b(3,4) True by (auto simp: s1_def upd_task_def ready_def)
    have s1: "objs s1 = objs s" "events s1 = events s" "pend_option (tasks s1 u) = (if u = ?t then opt else pend_option (tasks s u))"
      "pend_flags (tasks s1 u) = (if u = ?t then flags else pend_flags (tasks s u))" for u
      by (simp_all add: s1_def upd_task_def)
    note bf = block_frame [OF kinvD(1) [OF k1] t1(1) kinv_other [OF k1 t1(2)], where i = event and timeout = ticks]
    have "obj_inv (pend_to_blk_obj event ?t ticks s1) event"
      using kernel_okD(4) [OF b(1), of event] that(1) True t1(3) event_obj_inv [OF True]
      by (subst event_obj_inv) (auto simp: bf s1)
    then show ?thesis
      unfolding s1_def using block_ok [OF b(1) _ that(2) b(4), of event ?g ticks] True assms neutral by (simp add: may_block_def)
  qed
  ultimately show ?thesis
    using True b(1) unfolding krhino_event_get_def Let_def s1_def [symmetric] act by (simp add: word_gt_0)
qed

section \<open>Setting flags\<close>

definition satisfied :: "kernel \<Rightarrow> u32 \<Rightarrow> tid \<Rightarrow> bool" where
  "satisfied s cur t \<longleftrightarrow> event_met (pend_option (tasks s t)) (pend_flags (tasks s t)) cur"

text \<open>The flags left after the tasks have taken those they asked to be cleared.\<close>

fun left_flags :: "kernel \<Rightarrow> u32 \<Rightarrow> tid list \<Rightarrow> u32 \<Rightarrow> u32" where
  "left_flags s cur [] fl = fl"
| "left_flags s cur (t # ts) fl = left_flags s cur ts
     (if satisfied s cur t \<and> pend_option (tasks s t) AND RHINO_FLAGS_CLEAR_MASK \<noteq> 0
      then fl AND NOT (pend_flags (tasks s t)) else fl)"

lemma left_flags_le: "flags_le (left_flags s cur ts fl) fl"
proof (induction ts arbitrary: fl)
  case (Cons t ts)
  show ?case using flags_le_trans [OF Cons] by simp
qed simp

lemma left_flags_cong:
  "(\<And>t. t \<in> set ts \<Longrightarrow> pend_option (tasks s' t) = pend_option (tasks s t) \<and> pend_flags (tasks s' t) = pend_flags (tasks s t))
     \<Longrightarrow> left_flags s' cur ts fl = left_flags s cur ts fl"
  by (induction ts arbitrary: fl) (simp_all add: satisfied_def)

definition set_spec :: "oid \<Rightarrow> u32 \<Rightarrow> tid list \<Rightarrow> tid list \<Rightarrow> kernel \<Rightarrow> kernel \<Rightarrow> bool" where
  "set_spec e cur ps ts s s' \<longleftrightarrow> kinv s' \<and> run_frame s s' \<and> obj_frame s (s'\<lparr>events := events s\<rparr>)
     \<and> obj_type (objs s' e) = obj_type (objs s e)
     \<and> blk_list (objs s' e) = ps @ filter (\<lambda>t. \<not> satisfied s cur t) ts
     \<and> tasks s' = (\<lambda>t. if t \<in> set ts \<and> satisfied s cur t then woken BLK_FINISH (tasks s t) else tasks s t)
     \<and> events s' = (events s)(e := (events s e)\<lparr>event_flags := left_flags s cur ts (event_flags (events s e))\<rparr>)"

text \<open>One step of the loop, for a task whose flags are there.\<close>

lemma event_wake_step:
  assumes "kinv s" "\<not> is_mutex (objs s) e" "blk_list (objs s e) = ps @ t # ts"
    and s2_def: "s2 = (pend_task_wakeup t (s\<lparr>user_words := w\<rparr>))\<lparr>events := (events s)(e := x)\<rparr>"
  shows "kinv s2" "run_frame s s2" "obj_frame s (s2\<lparr>events := events s\<rparr>)" "obj_type (objs s2 e) = obj_type (objs s e)"
    and "blk_list (objs s2 e) = ps @ ts" "tasks s2 = (tasks s)(t := woken BLK_FINISH (tasks s t))" "events (pend_task_wakeup t (s\<lparr>user_words := w\<rparr>)) = events s"
    and "t \<notin> set ps \<union> set ts"
proof -
  let ?s = "s\<lparr>user_words := w\<rparr>"
  have k: "kinv ?s" "t \<in> set (blk_list (objs ?s e))" "\<not> is_mutex (objs ?s) e" using assms(1-3) by simp_all
  note W = wakeup_mem [OF k]
  have "distinct (ps @ t # ts)" using blk_okD(1) [OF base_okD(2) [OF kinvD(1) [OF assms(1)]], of e] assms(3) by simp
  then show "t \<notin> set ps \<union> set ts" by auto
  then show "blk_list (objs s2 e) = ps @ ts" using W(4) assms(3) by (simp add: s2_def remove1_append)
  show ev: "events (pend_task_wakeup t ?s) = events s" using obj_frameD(2) [OF W(2)] by simp
  show "kinv s2" using W(1) by (simp add: s2_def)
  show "run_frame s s2" using W(3) by (simp add: s2_def run_frame_def)
  have "obj_frame ?s (s2\<lparr>events := events s\<rparr>)"
    using W(2) ev by (simp add: obj_frame_def s2_def)
  then show "obj_frame s (s2\<lparr>events := events s\<rparr>)" by (simp add: obj_frame_def)
  show "obj_type (objs s2 e) = obj_type (objs s e)" "tasks s2 = (tasks s)(t := woken BLK_FINISH (tasks s t))"
    using W(5,6) by (simp_all add: s2_def)
qed

lemma event_set_loop_spec:
  assumes "kinv s" "\<not> is_mutex (objs s) e" "blk_list (objs s e) = ps @ ts"
  shows "set_spec e cur ps ts s (event_set_loop e cur ts s)"
  using assms
proof (induction ts arbitrary: s ps)
  case Nil
  then show ?case by (simp add: set_spec_def fun_eq_iff)
next
  case (Cons t ts)
  show ?case
  proof (cases "satisfied s cur t")
    case False
    have "set_spec e cur (ps @ [t]) ts s (event_set_loop e cur ts s)" using Cons.prems by (intro Cons.IH) simp_all
    with False show ?thesis by (auto simp: set_spec_def satisfied_def fun_eq_iff)
  next
    case True
    let ?k = "tasks s t"
    define x where "x = (if pend_option ?k AND RHINO_FLAGS_CLEAR_MASK \<noteq> 0
      then (events s e)\<lparr>event_flags := event_flags (events s e) AND NOT (pend_flags ?k)\<rparr> else events s e)"
    let ?s1 = "pend_task_wakeup t (s\<lparr>user_words := (user_words s)(pend_info ?k := cur)\<rparr>)"
    define s2 where "s2 = ?s1\<lparr>events := (events s)(e := x)\<rparr>"
    note st = event_wake_step [OF Cons.prems s2_def]
    have same: "?s1\<lparr>events := events s\<rparr> = ?s1" using st(7) by (metis kernel.surjective kernel.update_convs(17))
    have eq: "event_set_loop e cur (t # ts) s = event_set_loop e cur ts s2"
      using True st(7) by (auto simp: satisfied_def same s2_def x_def upd_event_def Let_def)
    have pend: "pend_option (tasks s2 u) = pend_option (tasks s u) \<and> pend_flags (tasks s2 u) = pend_flags (tasks s u)" for u
      by (simp add: st(6) woken_def)
    then have sat: "satisfied s2 cur = satisfied s cur" and lf: "left_flags s2 cur ts f = left_flags s cur ts f" for f
      by (auto simp: satisfied_def fun_eq_iff intro: left_flags_cong)
    have "set_spec e cur ps ts s2 (event_set_loop e cur ts s2)"
      using st(1,4,5) Cons.prems(2) by (intro Cons.IH) simp_all
    note IH = this [unfolded set_spec_def sat lf]
    let ?r = "event_set_loop e cur ts s2"
    have ev: "events s2 e = x" by (simp add: s2_def)
    have "obj_frame (s2\<lparr>events := events s\<rparr>) (?r\<lparr>events := events s\<rparr>)"
      using IH by (simp add: obj_frame_def woken_def)
    then have "obj_frame s (?r\<lparr>events := events s\<rparr>)" using obj_frame_trans [OF st(3)] by blast
    moreover have "run_frame s ?r" using IH run_frame_trans [OF st(2)] by blast
    moreover have "events ?r = (events s)(e := (events s e)\<lparr>event_flags := left_flags s cur (t # ts) (event_flags (events s e))\<rparr>)"
      using IH True unfolding ev by (simp add: s2_def x_def)
    moreover have "tasks ?r = (\<lambda>u. if u \<in> set (t # ts) \<and> satisfied s cur u then woken BLK_FINISH (tasks s u) else tasks s u)"
      using IH True st(6,8) by (auto simp: fun_eq_iff)
    ultimately show ?thesis
      unfolding eq set_spec_def using IH st(4) True by simp
  qed
qed

lemma event_set_ok:
  assumes "kernel_ok s"
  shows "kernel_ok (snd (event_set event flags opt s))"
proof (cases "obj_type (objs s event) = RHINO_EVENT_OBJ_TYPE")
  case False
  then show ?thesis using assms by (simp add: event_set_def)
next
  case True
  define cur where "cur = event_flags (events s event) OR flags"
  define s1 where "s1 = upd_event event (\<lambda>x. x\<lparr>event_flags := event_flags x OR flags\<rparr>) s"
  define s2 where "s2 = event_set_loop event cur (blk_list (objs s event)) s1"
  have k1: "kinv s1" using kernel_okD(1) [OF assms] by (simp add: s1_def upd_event_def)
  have "set_spec event cur [] (blk_list (objs s event)) s1 s2"
    unfolding s2_def using True by (intro event_set_loop_spec [OF k1]) (simp_all add: s1_def upd_event_def)
  note spec = this [unfolded set_spec_def]
  have run: "run_frame s s2" using spec by (auto simp: run_frame_def s1_def upd_event_def)
  have "obj_inv s2 j" for j
  proof (cases "j = event")
    case e: True
    have "flags_le (event_flags (events s2 event)) cur"
      using spec left_flags_le by (simp add: s1_def upd_event_def cur_def)
    then have "\<not> event_met (pend_option (tasks s2 t)) (pend_flags (tasks s2 t)) (event_flags (events s2 event))"
      if "t \<in> set (blk_list (objs s2 event))" for t
      using that spec event_met_mono by (auto simp: satisfied_def)
    then show ?thesis using spec True e event_obj_inv [of s2 event] by (simp add: s1_def upd_event_def)
  next
    case False
    have "obj_inv s1 j"
      using False kernel_okD(4) [OF assms, of j] obj_inv_same [of s1 j s] by (simp add: s1_def upd_event_def)
    then have "obj_inv (s2\<lparr>events := events s1\<rparr>) j"
      using spec by (blast intro: obj_frame_inv [of s1])
    moreover have "obj_inv (s2\<lparr>events := events s1\<rparr>) j = obj_inv s2 j"
      using False spec by (intro obj_inv_same) simp_all
    ultimately show ?thesis by simp
  qed
  then have "kernel_ok (core_sched s2)" using spec run by (intro resched_ok [OF assms]) (simp_all add: objs_ok_def)
  moreover have "kernel_ok (upd_event event (\<lambda>x. x\<lparr>event_flags := event_flags x AND flags\<rparr>) s)"
    using fewer_flags_ok [OF assms] by (simp add: upd_event_def)
  ultimately show ?thesis
    using True unfolding s2_def s1_def cur_def by (simp add: event_set_def Let_def upd_event_def)
qed

end
