(* ===== verification/Rhino_Run.thy ===== *)
theory Rhino_Run
  imports Rhino_Sys Rhino_Event Rhino_Mutex_Calls
begin

text \<open>
  The kernel in operation: the calls of the running task, the second halves of the calls that
  wait, interrupts and the tick, as a transition relation, and the invariant of all states that
  are reached from the start.

  The guards of the relation are what the kernel relies on: an object is created in memory that
  holds no object, a task is created in a block that holds no task, only living tasks are deleted,
  the idle task does not wait, the tick comes in an interrupt and interrupts are nested at most
  255 deep, and memory that is passed to a call has the size that is passed with it.
\<close>

section \<open>Interrupts and the scheduler lock\<close>

lemma krhino_intrpt_exit_eq: "krhino_intrpt_exit s = core_sched (s\<lparr>g_intrpt_nested_level := g_intrpt_nested_level s - 1\<rparr>)"
  by (simp add: krhino_intrpt_exit_def core_sched_def Let_def)

lemma obj_frame_counters:
  "obj_frame s (s\<lparr>g_intrpt_nested_level := l\<rparr>)" "obj_frame s (s\<lparr>g_sched_lock := l\<rparr>)"
  by (simp_all add: obj_frame_def)

lemma less_plus_one: "w < n \<Longrightarrow> w + 1 \<noteq> 0" for w n :: u8
  by (auto simp: eq_neg_iff_add_eq_0 [symmetric])

lemma krhino_intrpt_enter_ok:
  assumes "kernel_ok s" "g_intrpt_nested_level s < 255"
  shows "kernel_ok (snd (krhino_intrpt_enter s))"
proof -
  have "sched_ok (snd (krhino_intrpt_enter s))"
    using kernel_okD(2) [OF assms(1)] less_plus_one [OF assms(2)] by (simp add: sched_ok_def krhino_intrpt_enter_def)
  moreover have "objs_ok (snd (krhino_intrpt_enter s))"
    using obj_frame_ok [OF obj_frame_counters(1) kernel_okD(3) [OF assms(1)]] by (simp add: krhino_intrpt_enter_def)
  ultimately show ?thesis using kernel_okD(1) [OF assms(1)] by (simp add: kernel_ok_def krhino_intrpt_enter_def)
qed

lemma krhino_intrpt_exit_ok:
  assumes "kernel_ok s"
  shows "kernel_ok (krhino_intrpt_exit s)"
  unfolding krhino_intrpt_exit_eq
  using kernel_okD [OF assms] obj_frame_ok [OF obj_frame_counters(1)]
  by (intro resched_any [OF assms]) (simp_all add: sched_ok_def)

lemma krhino_sched_disable_ok:
  assumes "kernel_ok s"
  shows "kernel_ok (snd (krhino_sched_disable s))"
proof (cases "g_intrpt_nested_level s = 0 \<and> g_sched_lock s < SCHED_MAX_LOCK_COUNT")
  case True
  let ?s = "s\<lparr>g_sched_lock := g_sched_lock s + 1\<rparr>"
  have l: "g_sched_lock s + 1 \<le> SCHED_MAX_LOCK_COUNT" "g_sched_lock s + 1 \<noteq> 0"
    using True less_plus_one by (simp add: inc_le, blast)
  have "ready (tasks s (g_active_task s))" using active_ready [OF assms] True by simp
  then have "sched_ok ?s" using kernel_okD(2) [OF assms] l True
    by (simp add: sched_ok_def)
  moreover have "objs_ok ?s" using obj_frame_ok [OF obj_frame_counters(2) kernel_okD(3) [OF assms]] .
  ultimately have "kernel_ok ?s" using kernel_okD(1) [OF assms] by (simp add: kernel_ok_def)
  then show ?thesis using True assms by (simp add: krhino_sched_disable_def)
next
  case False
  then have "snd (krhino_sched_disable s) = s" by (auto simp: krhino_sched_disable_def not_less word_gt_0)
  then show ?thesis using assms by simp
qed


lemma krhino_sched_enable_ok:
  assumes "kernel_ok s"
  shows "kernel_ok (snd (krhino_sched_enable s))"
proof (cases "g_intrpt_nested_level s = 0 \<and> g_sched_lock s \<noteq> 0")
  case True
  let ?s = "s\<lparr>g_sched_lock := g_sched_lock s - 1\<rparr>"
  have o: "objs_ok ?s" using obj_frame_ok [OF obj_frame_counters(2) kernel_okD(3) [OF assms]] .
  have k: "kinv ?s" using kernel_okD(1) [OF assms] by simp
  have r: "ready (tasks s (g_active_task s))" using active_ready [OF assms] True by simp
  have "unat (g_sched_lock s - 1) \<le> unat (g_sched_lock s)" using True by (simp add: unat_minus_one)
  then have l: "g_sched_lock s - 1 \<le> SCHED_MAX_LOCK_COUNT"
    using kernel_okD(2) [OF assms] by (auto simp: sched_ok_def word_le_nat_alt)
  show ?thesis
  proof (cases "g_sched_lock s - 1 > 0")
    case T: True
    then have "sched_ok ?s" using kernel_okD(2) [OF assms] r l by (auto simp: sched_ok_def)
    with o k have "kernel_ok ?s" by (simp add: kernel_ok_def)
    with True T show ?thesis by (simp add: krhino_sched_enable_def Let_def)
  next
    case F: False
    have "sched_ok (core_sched ?s)"
      using kernel_okD(2) [OF assms] r l by (intro core_sched_sched_ok [OF k]) (simp_all add: sched_ok_def)
    moreover have "objs_ok (core_sched ?s)" by (rule obj_frame_ok [OF _ o]) (simp add: obj_frame_def)
    ultimately have "kernel_ok (core_sched ?s)" using core_sched_kinv [OF k] by (simp add: kernel_ok_def)
    with True F show ?thesis by (simp add: krhino_sched_enable_def Let_def)
  qed
next
  case False
  then have "snd (krhino_sched_enable s) = s" by (auto simp: krhino_sched_enable_def word_gt_0)
  then show ?thesis using assms by simp
qed


section \<open>Transitions\<close>

abbreviation unused :: "kernel \<Rightarrow> oid \<Rightarrow> bool" where
  "unused s i \<equiv> obj_type (objs s i) = RHINO_OBJ_TYPE_NONE"

text \<open>A task may wait in a task context, unless it is the idle task.\<close>

definition wait_ok :: "kernel \<Rightarrow> bool" where
  "wait_ok s \<longleftrightarrow> g_intrpt_nested_level s = 0 \<and> prio (tasks s (g_active_task s)) \<noteq> RHINO_IDLE_PRI"

inductive kstep :: "kernel \<Rightarrow> kernel \<Rightarrow> bool" where
  sem_create: "unused s i \<Longrightarrow> kstep s (snd (krhino_sem_create i name cnt s))"
| sem_dyn_create: "unused s i \<Longrightarrow> kstep s (snd (snd (krhino_sem_dyn_create p name cnt i s)))"
| sem_del: "kstep s (snd (krhino_sem_del i s))"
| sem_dyn_del: "kstep s (snd (krhino_sem_dyn_del i s))"
| sem_give: "kstep s (snd (krhino_sem_give i s))"
| sem_give_all: "kstep s (snd (krhino_sem_give_all i s))"
| sem_take: "wait_ok s \<Longrightarrow> kstep s (snd (krhino_sem_take i ticks s))"
| sem_count_set: "kstep s (snd (krhino_sem_count_set i cnt s))"
| task_sem_create: "unused s i \<Longrightarrow> kstep s (snd (krhino_task_sem_create t i name cnt s))"
| task_sem_del: "kstep s (snd (krhino_task_sem_del t s))"
| task_sem_give: "kstep s (snd (krhino_task_sem_give t s))"
| task_sem_take: "wait_ok s \<Longrightarrow> kstep s (snd (krhino_task_sem_take ticks s))"
| task_sem_count_set: "kstep s (snd (krhino_task_sem_count_set t cnt s))"
| mutex_create: "unused s i \<Longrightarrow> kstep s (snd (krhino_mutex_create i name s))"
| mutex_dyn_create: "unused s i \<Longrightarrow> kstep s (snd (snd (krhino_mutex_dyn_create p name i s)))"
| mutex_del: "kstep s (snd (krhino_mutex_del i s))"
| mutex_dyn_del: "kstep s (snd (krhino_mutex_dyn_del i s))"
| mutex_lock: "wait_ok s \<Longrightarrow> kstep s (snd (krhino_mutex_lock i ticks s))"
| mutex_unlock: "g_intrpt_nested_level s = 0 \<Longrightarrow> kstep s (snd (krhino_mutex_unlock i s))"
| event_create: "unused s i \<Longrightarrow> kstep s (snd (krhino_event_create i name flags s))"
| event_dyn_create: "unused s i \<Longrightarrow> kstep s (snd (snd (krhino_event_dyn_create p name flags i s)))"
| event_del: "kstep s (snd (krhino_event_del i s))"
| event_dyn_del: "kstep s (snd (krhino_event_dyn_del i s))"
| event_get: "wait_ok s \<Longrightarrow> kstep s (snd (krhino_event_get i flags opt p ticks s))"
| event_set: "kstep s (snd (krhino_event_set i flags opt s))"
| queue_create: "\<lbrakk>unused s i; length mem = n * SIZEOF_PTR; length mem < 2 ^ 32\<rbrakk> \<Longrightarrow> kstep s (snd (krhino_queue_create i name start mem n s))"
| queue_dyn_create: "\<lbrakk>unused s i; length mem = n * SIZEOF_PTR; length mem < 2 ^ 32\<rbrakk>
    \<Longrightarrow> kstep s (snd (snd (krhino_queue_dyn_create p name n i start mem s)))"
| queue_del: "kstep s (snd (krhino_queue_del i s))"
| queue_dyn_del: "kstep s (snd (krhino_queue_dyn_del i s))"
| queue_back_send: "kstep s (snd (krhino_queue_back_send i msg s))"
| queue_all_send: "kstep s (snd (krhino_queue_all_send i msg s))"
| queue_recv: "wait_ok s \<or> ticks = RHINO_NO_WAIT \<or> g_intrpt_nested_level s > 0 \<Longrightarrow> kstep s (snd (krhino_queue_recv i ticks p s))"
| queue_recv_end: "g_intrpt_nested_level s = 0 \<Longrightarrow> kstep s (snd (krhino_queue_recv_end p s))"
| queue_flush: "kstep s (snd (krhino_queue_flush i s))"
| buf_queue_create: "\<lbrakk>unused s i; length mem = n; n < 2 ^ 32\<rbrakk> \<Longrightarrow> kstep s (snd (krhino_buf_queue_create i name p mem n max_msg s))"
| fix_buf_queue_create: "\<lbrakk>unused s i; length mem = sz * n; sz * n < 2 ^ 32\<rbrakk>
    \<Longrightarrow> kstep s (snd (krhino_fix_buf_queue_create i name p mem sz n s))"
| buf_queue_dyn_create: "\<lbrakk>unused s i; length mem = n; n < 2 ^ 32\<rbrakk> \<Longrightarrow> kstep s (snd (snd (krhino_buf_queue_dyn_create p name n max_msg i buf mem s)))"
| buf_queue_del: "kstep s (snd (krhino_buf_queue_del i s))"
| buf_queue_dyn_del: "kstep s (snd (krhino_buf_queue_dyn_del i s))"
| buf_queue_send: "may_send (buf_queues s i) data n \<Longrightarrow> kstep s (snd (krhino_buf_queue_send i p data n s))"
| buf_queue_recv: "wait_ok s \<or> ticks = RHINO_NO_WAIT \<or> g_intrpt_nested_level s > 0 \<Longrightarrow> kstep s (snd (krhino_buf_queue_recv i ticks p sz s))"
| buf_queue_recv_end: "g_intrpt_nested_level s = 0 \<Longrightarrow> kstep s (snd (krhino_buf_queue_recv_end sz s))"
| buf_queue_flush: "kstep s (snd (krhino_buf_queue_flush i s))"
| task_create: "\<not> live (tasks s t) \<Longrightarrow> kstep s (snd (krhino_task_create t name arg pri ticks buf n entry autorun s))"
| task_dyn_create: "\<not> live (tasks s t) \<Longrightarrow> kstep s (snd (snd (krhino_task_dyn_create p name arg pri ticks n entry autorun stk t s)))"
| task_del: "live (tasks s (if t = NULL then g_active_task s else t)) \<Longrightarrow> kstep s (snd (krhino_task_del t s))"
| task_dyn_del: "live (tasks s (if t = NULL then g_active_task s else t)) \<Longrightarrow> kstep s (snd (krhino_task_dyn_del t s))"
| task_deathbed: "g_intrpt_nested_level s = 0 \<Longrightarrow> kstep s (snd (krhino_task_deathbed s))"
| task_sleep: "wait_ok s \<Longrightarrow> kstep s (snd (krhino_task_sleep ticks s))"
| task_yield: "g_intrpt_nested_level s = 0 \<Longrightarrow> kstep s (snd (krhino_task_yield s))"
| task_suspend: "kstep s (snd (krhino_task_suspend t s))"
| task_resume: "kstep s (snd (krhino_task_resume t s))"
| task_pri_change: "task_state (tasks s t) \<noteq> K_SEED \<Longrightarrow> kstep s (snd (snd (krhino_task_pri_change t pri old s)))"
| task_wait_abort: "kstep s (snd (krhino_task_wait_abort t s))"
| task_time_slice_set: "kstep s (snd (krhino_task_time_slice_set t n s))"
| sched_policy_set: "kstep s (snd (krhino_sched_policy_set t policy s))"
| task_info_set: "kstep s (snd (krhino_task_info_set t idx info s))"
| wait_end: "g_intrpt_nested_level s = 0 \<Longrightarrow> kstep s (snd (pend_state_end_proc (g_active_task s) s))"
| sched_disable: "kstep s (snd (krhino_sched_disable s))"
| sched_enable: "kstep s (snd (krhino_sched_enable s))"
| stack_ovf_check: "kstep s (krhino_stack_ovf_check s)"
| dyn_mem_proc: "kstep s (snd (dyn_mem_proc_task_drain ret s))"
| intrpt_enter: "g_intrpt_nested_level s < 255 \<Longrightarrow> kstep s (snd (krhino_intrpt_enter s))"
| intrpt_exit: "g_intrpt_nested_level s > 0 \<Longrightarrow> kstep s (krhino_intrpt_exit s)"
| tick_proc: "g_intrpt_nested_level s > 0 \<Longrightarrow> kstep s (krhino_tick_proc s)"

text \<open>What the creation and deletion calls do beside their checks.\<close>

lemma pend_state_end_ok: "kernel_ok s \<Longrightarrow> kernel_ok (snd (pend_state_end_proc t s))"
  by (simp add: pend_state_end_proc_def err_ok split: blk_state_t.split)

lemma stack_ovf_ok: "kernel_ok s \<Longrightarrow> kernel_ok (krhino_stack_ovf_check s)"
proof -
  have *: "kernel_ok (magic_check n p s)" if "kernel_ok s" for n p s
    using that by (induction n p s rule: magic_check.induct) (simp_all add: err_ok)
  then show "kernel_ok s \<Longrightarrow> kernel_ok (krhino_stack_ovf_check s)" by (simp add: krhino_stack_ovf_check_def Let_def err_ok)
qed

lemma dyn_mem_proc_ok: "kernel_ok s \<Longrightarrow> kernel_ok (snd (dyn_mem_proc_task_drain ret s))"
  by (simp add: dyn_mem_proc_task_drain_def Let_def err_ok)

lemma create_calls_ok:
  assumes "kernel_ok s" "unused s i"
  shows "kernel_ok (snd (krhino_sem_create i name cnt s))" "kernel_ok (snd (snd (krhino_sem_dyn_create p name cnt i s)))"
    "kernel_ok (snd (krhino_mutex_create i name s))" "kernel_ok (snd (snd (krhino_mutex_dyn_create p name i s)))"
    "kernel_ok (snd (krhino_event_create i name flags s))" "kernel_ok (snd (snd (krhino_event_dyn_create p name flags i s)))"
    "length mem = n * SIZEOF_PTR \<Longrightarrow> length mem < 2 ^ 32 \<Longrightarrow> kernel_ok (snd (krhino_queue_create i name start mem n s))"
    "length mem = n * SIZEOF_PTR \<Longrightarrow> length mem < 2 ^ 32 \<Longrightarrow> kernel_ok (snd (snd (krhino_queue_dyn_create p name n i start mem s)))"
    "length mem = n \<Longrightarrow> n < 2 ^ 32 \<Longrightarrow> kernel_ok (snd (krhino_buf_queue_create i name buf mem n max_msg s))"
    "length mem = sz * m \<Longrightarrow> sz * m < 2 ^ 32 \<Longrightarrow> kernel_ok (snd (krhino_fix_buf_queue_create i name buf mem sz m s))"
  using sem_create_ok [OF assms] krhino_mutex_create_ok [OF assms] event_create_ok [OF assms] queue_create_ok [OF assms] buf_queue_create_ok [OF assms] assms(1)
  by (simp_all add: krhino_sem_create_def krhino_sem_dyn_create_def krhino_mutex_create_def krhino_mutex_dyn_create_def
      krhino_event_create_def krhino_event_dyn_create_def krhino_queue_create_def krhino_queue_dyn_create_def
      krhino_buf_queue_create_def krhino_fix_buf_queue_create_def split_def Let_def RINGBUF_TYPE_FIX_def RINGBUF_TYPE_DYN_def)

lemma del_calls_ok:
  assumes "kernel_ok s"
  shows "kernel_ok (snd (krhino_sem_del i s))" "kernel_ok (snd (krhino_sem_dyn_del i s))"
    "kernel_ok (snd (krhino_mutex_del i s))" "kernel_ok (snd (krhino_mutex_dyn_del i s))"
    "kernel_ok (snd (krhino_event_del i s))" "kernel_ok (snd (krhino_event_dyn_del i s))"
    "kernel_ok (snd (krhino_queue_del i s))" "kernel_ok (snd (krhino_queue_dyn_del i s))"
    "kernel_ok (snd (krhino_buf_queue_del i s))" "kernel_ok (snd (krhino_buf_queue_dyn_del i s))"
  using assms by (simp_all add: krhino_sem_del_def krhino_sem_dyn_del_def krhino_mutex_del_def krhino_mutex_dyn_del_def krhino_event_del_def
      krhino_event_dyn_del_def krhino_queue_del_def krhino_queue_dyn_del_def krhino_buf_queue_del_def krhino_buf_queue_dyn_del_def
      sem_del_ok mutex_del_ok event_del_ok queue_del_ok buf_queue_del_ok)


lemma buf_queue_dyn_create_ok:
  assumes "kernel_ok s" "unused s i" "length mem = n" "n < 2 ^ 32"
  shows "kernel_ok (snd (snd (krhino_buf_queue_dyn_create p name n max_msg i buf mem s)))"
proof -
  define u where "u = upd_buf_queue i (\<lambda>q. q\<lparr>bq_buf := buf\<rparr>) s"
  have ub: "kernel_ok (upd_buf_queue i (\<lambda>q. q\<lparr>bq_buf := b\<rparr>) s)" for b
    using assms(2) kernel_okD(1) [OF assms(1)] unfolding upd_buf_queue_def
    by (intro change_ok [OF assms(1), where i = i]) (simp_all add: obj_inv_def)
  then have u: "kernel_ok u" by (simp add: u_def)
  have "unused u i" using assms(2) by (simp add: u_def upd_buf_queue_def)
  note c = buf_queue_create_ok [OF u this assms(3,4), of RINGBUF_TYPE_DYN max_msg]
  show ?thesis
    using c u ub assms(1) by (simp add: krhino_buf_queue_dyn_create_def split_def Let_def u_def [symmetric] RINGBUF_TYPE_FIX_def RINGBUF_TYPE_DYN_def)
qed

lemma send_calls_ok:
  assumes "kernel_ok s"
  shows "kernel_ok (snd (krhino_sem_give i s))" "kernel_ok (snd (krhino_sem_give_all i s))" "kernel_ok (snd (krhino_event_set i flags opt s))"
    "kernel_ok (snd (krhino_queue_back_send i msg s))" "kernel_ok (snd (krhino_queue_all_send i msg s))"
    "may_send (buf_queues s i) data n \<Longrightarrow> kernel_ok (snd (krhino_buf_queue_send i p data n s))"
  using assms by (simp_all add: krhino_sem_give_def krhino_sem_give_all_def sem_give_ok krhino_event_set_def event_set_ok
      krhino_queue_back_send_def krhino_queue_all_send_def msg_send_ok krhino_buf_queue_send_def buf_queue_send_ok)

lemma wait_may_block: "kernel_ok s \<Longrightarrow> wait_ok s \<Longrightarrow> may_block s"
  by (simp add: may_block_def wait_ok_def)

lemma recv_calls_ok:
  assumes "kernel_ok s" "wait_ok s \<or> ticks = RHINO_NO_WAIT \<or> g_intrpt_nested_level s > 0"
  shows "kernel_ok (snd (krhino_queue_recv i ticks p s))" "kernel_ok (snd (krhino_buf_queue_recv i ticks p sz s))"
  using assms wait_may_block [OF assms(1)] by (auto intro!: krhino_queue_recv_ok krhino_buf_queue_recv_ok)

theorem kstep_ok:
  assumes "kstep s s'" "kernel_ok s"
  shows "kernel_ok s'"
  using assms(1)
proof cases
  case (task_sem_create i t name cnt)
  then show ?thesis using krhino_task_sem_ok(1) [OF assms(2)] by simp
qed (use assms(2) in \<open>simp_all add: create_calls_ok del_calls_ok send_calls_ok recv_calls_ok wait_may_block krhino_task_sem_ok krhino_sem_take_ok
  krhino_sem_count_set_ok krhino_mutex_lock_ok krhino_mutex_unlock_ok krhino_event_get_ok krhino_queue_recv_end_ok krhino_queue_flush_ok
  buf_queue_dyn_create_ok krhino_buf_queue_recv_end_ok krhino_buf_queue_flush_ok krhino_task_create_ok krhino_task_dyn_create_ok krhino_task_del_ok
  krhino_task_dyn_del_ok krhino_task_deathbed_ok krhino_task_sleep_ok krhino_task_yield_ok krhino_task_suspend_ok krhino_task_resume_ok
  krhino_task_pri_change_ok krhino_task_wait_abort_ok krhino_task_setters_ok pend_state_end_ok krhino_sched_disable_ok krhino_sched_enable_ok
  stack_ovf_ok dyn_mem_proc_ok krhino_intrpt_enter_ok krhino_intrpt_exit_ok krhino_tick_proc_ok\<close>)

section \<open>Reachable states\<close>

text \<open>Before the start, the application creates its first tasks.\<close>

inductive boot_reach :: "image \<Rightarrow> kernel \<Rightarrow> bool" for img :: image where
  init: "boot_reach img (kern (snd (krhino_init img (zero_ksys img))))"
| create: "\<lbrakk>boot_reach img s; \<not> live (tasks s t)\<rbrakk> \<Longrightarrow> boot_reach img (snd (krhino_task_create t name arg pri ticks buf n entry autorun s))"

inductive kreach :: "image \<Rightarrow> kernel \<Rightarrow> bool" for img :: image where
  start: "boot_reach img s \<Longrightarrow> kreach img (snd (krhino_start s))"
| step: "\<lbrakk>kreach img s; kstep s s'\<rbrakk> \<Longrightarrow> kreach img s'"

lemma boot_reach_ok:
  assumes "boot_reach img s" "image_ok img"
  shows "boot_ok s \<and> g_idle_task_spawned s > 0"
  using assms(1)
proof induction
  case init
  show ?case by (rule krhino_init_ok [OF assms(2)]) simp
next
  case (create s t name arg pri ticks buf n entry autorun)
  show ?case
  proof (cases "fst (krhino_task_create t name arg pri ticks buf n entry autorun s) = RHINO_SUCCESS")
    case True
    note T = True [unfolded krhino_task_create_def]
    have "pri \<noteq> RHINO_IDLE_PRI" using task_create_eq(4) [OF T] create.IH by auto
    then show ?thesis
      using boot_task_create(1,2) [OF _ create.hyps(2) T] create.IH by (simp add: krhino_task_create_def)
  next
    case False
    then show ?thesis using task_create_refused create.IH unfolding krhino_task_create_def by metis
  qed
qed

theorem kreach_ok:
  assumes "kreach img s" "image_ok img"
  shows "kernel_ok s"
  using assms(1)
proof induction
  case (start s)
  then show ?case using boot_reach_ok [OF _ assms(2)] boot_start(1) by blast
next
  case (step s s')
  then show ?case using kstep_ok by blast
qed

section \<open>The running task\<close>

lemma active_most_urgent:
  assumes "kernel_ok s" "g_intrpt_nested_level s = 0" "g_sched_lock s = 0"
  shows "ready (tasks s (g_active_task s))" "ready (tasks s u) \<Longrightarrow> prio (tasks s (g_active_task s)) \<le> prio (tasks s u)"
proof -
  show r: "ready (tasks s (g_active_task s))" by (rule active_ready [OF assms(1,2)])
  have ok: "rdy_ok (g_ready_queue s) (tasks s)" using kernel_okD(1) [OF assms(1)] kinvD(1) base_okD(1) by blast
  have a: "preferred_cpu_ready_task_get (g_ready_queue s) = Some (g_active_task s)"
    using kernel_okD(2) [OF assms(1)] assms(2,3) by (simp add: sched_ok_def)
  assume u: "ready (tasks s u)"
  then have "u \<in> set (cur_list_item (g_ready_queue s) (prio (tasks s u)))" using rdy_ok_mem [OF ok] by simp
  then have ne: "cur_list_item (g_ready_queue s) (prio (tasks s u)) \<noteq> []" by auto
  have q: "rq_ok (g_ready_queue s)" using ok by (simp add: rdy_ok_def)
  note p = rq_preferred [OF q ne]
  have "g_active_task s \<in> set (cur_list_item (g_ready_queue s) (highest_pri (g_ready_queue s)))"
    using p(1,2) a hd_in_set [OF p(2)] by simp
  then have "prio (tasks s (g_active_task s)) = highest_pri (g_ready_queue s)" using rdy_ok_mem [OF ok] by blast
  with p(3) show "prio (tasks s (g_active_task s)) \<le> prio (tasks s u)" by simp
qed

lemma active_is:
  assumes "kernel_ok s" "g_intrpt_nested_level s = 0" "g_sched_lock s = 0" "ready (tasks s t)"
    and "\<And>u. u \<noteq> t \<Longrightarrow> ready (tasks s u) \<Longrightarrow> prio (tasks s t) < prio (tasks s u)"
  shows "g_active_task s = t"
  using active_most_urgent [OF assms(1-3)] assms(4,5) by (meson leD)

end
