(* ===== verification/Rhino_Services.thy ===== *)
theory Rhino_Services
  imports Rhino_Run
begin

text \<open>
  The kernel together with the timer task and the work queues.  A function called by a timer or by
  a worker is arbitrary, as long as it keeps the invariant of the system and leaves the list of
  timers to the timer task; \<open>work_timer_cb\<close> is such a function.
\<close>

definition sys_ok :: "ksys \<Rightarrow> bool" where
  "sys_ok s \<longleftrightarrow> kernel_ok (kern s) \<and> timers_ok s \<and> works_ok s
     \<and> max_msg_size (buf_queues (kern s) (g_timer_queue s)) = SIZEOF_CB"

definition handler_ok :: "(ptr \<Rightarrow> ptr \<Rightarrow> ptr \<Rightarrow> ksys \<Rightarrow> ksys) \<Rightarrow> bool" where
  "handler_ok run \<longleftrightarrow> quiet run \<and> (\<forall>f t a s. sys_ok s \<longrightarrow> sys_ok (run f t a s))"

section \<open>The timer task\<close>

lemma fire_timers_ok:
  assumes "quiet run" "timers_ok s" "t \<in> set (g_timer_head s)"
  shows "timers_ok (fire run t s)"
proof -
  have d: "distinct (g_timer_head s)" "timer_obj_type (timers s t) = RHINO_TIMER_OBJ_TYPE" "to_head (timers s t)"
    "timer_state (timers s t) = TIMER_ACTIVE"
    using assms(2,3) by (auto simp: timers_ok_def)
  then show ?thesis
    using assms(2,3) by (auto simp: timers_ok_def fire_fields [OF assms(1)] rearmed_def)
qed

lemma fire_sys_ok:
  assumes "handler_ok run" "sys_ok s" "t \<in> set (g_timer_head s)"
  shows "sys_ok (fire run t s)"
proof -
  let ?r = "run (timer_cb (timers s t)) t (timer_cb_arg (timers s t)) s"
  have q: "quiet run" and r: "sys_ok ?r" using assms(1,2) by (simp_all add: handler_ok_def)
  have "timers_ok (fire run t s)" using fire_timers_ok [OF q _ assms(3)] assms(2) by (simp add: sys_ok_def)
  moreover have "kern (fire run t s) = kern ?r" "works (fire run t s) = works ?r" "workqueues (fire run t s) = workqueues ?r"
    "g_timer_queue (fire run t s) = g_timer_queue ?r"
    by (simp_all add: fire_def Let_def)
  ultimately show ?thesis using r works_same [of "fire run t s" ?r] by (simp add: sys_ok_def)
qed

lemma next_of_mem: "next_of t ts = Some u \<Longrightarrow> u \<in> set ts"
  by (auto simp: next_of_def split: list.splits dest: set_dropWhileD [of u] intro: set_dropWhileD) (metis list.set_intros set_dropWhileD)

lemma next_of_other: "next_of t ts = Some u \<Longrightarrow> distinct ts \<Longrightarrow> u \<in> set (remove1 t ts)"
proof (induction ts)
  case (Cons x ts)
  then show ?case by (cases "x = t") (auto simp: next_of_def split: list.splits)
qed (simp add: next_of_def)

lemma timer_cb_loop_sys_ok:
  assumes "timer_cb_loop run q s = Some s'" "handler_ok run" "sys_ok s" "\<And>t. q = Some t \<Longrightarrow> t \<in> set (g_timer_head s)"
  shows "sys_ok s'"
proof -
  have "handler_ok run \<longrightarrow> sys_ok s \<longrightarrow> (\<forall>t. q = Some t \<longrightarrow> t \<in> set (g_timer_head s)) \<longrightarrow> sys_ok s'"
    using assms(1)
  proof (rule timer_cb_loop.raw_induct [where P = "\<lambda>run q s s'. handler_ok run \<longrightarrow> sys_ok s \<longrightarrow> (\<forall>t. q = Some t \<longrightarrow> t \<in> set (g_timer_head s)) \<longrightarrow> sys_ok s'", rotated], goal_cases)
    case (1 loop run q s s')
    show ?case
    proof (intro impI)
      assume h: "handler_ok run" and ok: "sys_ok s" and q: "\<forall>t. q = Some t \<longrightarrow> t \<in> set (g_timer_head s)"
      show "sys_ok s'"
      proof (cases q)
        case None
        then show ?thesis using 1(2) ok by simp
      next
        case (Some t)
        show ?thesis
        proof (cases "sint (time_left s t) \<le> 0")
          case True
          have tl: "quiet run" "t \<in> set (g_timer_head s)" "to_head (timers s t)" "distinct (g_timer_head s)"
            using h ok q Some by (auto simp: handler_ok_def sys_ok_def timers_ok_def)
          let ?q = "next_of t (g_timer_head (if round_ticks (timers s t) > 0 then fire run t s else s))"
          have "loop run ?q (fire run t s) = Some s'"
            using 1(2) Some True fire_body [OF tl(1,3,4), of "loop run"] by (simp del: Let_def)
          moreover have "u \<in> set (g_timer_head (fire run t s))" if "?q = Some u" for u
          proof (cases "round_ticks (timers s t) > 0")
            case r: True
            show ?thesis by (rule next_of_mem [of t]) (use that r in simp)
          next
            case r: False
            then show ?thesis using that next_of_other [of t "g_timer_head s" u] tl(4) by (simp add: fire_fields [OF tl(1)])
          qed
          ultimately show ?thesis using 1(1) h fire_sys_ok [OF h ok tl(2)] by blast
        next
          case False
          then show ?thesis using 1(2) ok Some by simp
        qed
      qed
    qed
  qed
  then show ?thesis using assms(2-4) by blast
qed


lemma timer_cb_proc_sys_ok:
  assumes "timer_cb_proc run s = Some s'" "handler_ok run" "sys_ok s"
  shows "sys_ok s'"
  by (rule timer_cb_loop_sys_ok [OF assms(1) [unfolded timer_cb_proc_def] assms(2,3)]) (auto split: list.splits)

lemma sys_ok_count [simp]: "sys_ok (s\<lparr>g_timer_count := n\<rparr>) = sys_ok s"
  by (simp add: sys_ok_def timers_ok_def works_ok_def)

lemma sys_ok_err: "sys_ok s \<Longrightarrow> sys_ok (s\<lparr>kern := k_err_proc e (kern s)\<rparr>)"
  by (simp add: sys_ok_def timers_ok_def works_ok_def err_ok) (simp add: k_err_proc_def)

lemma cmd_proc_keeps:
  "works (cmd_proc cb c s) = works s" "workqueues (cmd_proc cb c s) = workqueues s" "g_timer_queue (cmd_proc cb c s) = g_timer_queue s"
  "kern (cmd_proc cb c s) = kern s \<or> kern (cmd_proc cb c s) = k_err_proc RHINO_SYS_FATAL_ERR (kern s)"
  by (simp_all add: cmd_proc_def Let_def upd_timer_def timer_list_pri_insert_def timer_list_rm_def)

lemma timer_cmd_proc_keeps:
  "works (timer_cmd_proc cb s) = works s" "workqueues (timer_cmd_proc cb s) = workqueues s" "g_timer_queue (timer_cmd_proc cb s) = g_timer_queue s"
  by (simp_all add: timer_cmd_proc_def cmd_proc_keeps)

lemma cmd_proc_kern_ok: "kernel_ok (kern s) \<Longrightarrow> kernel_ok (kern (cmd_proc cb c s))" "buf_queues (kern (cmd_proc cb c s)) = buf_queues (kern s)"
  using cmd_proc_keeps(4) [of cb c s] by (auto simp: err_ok) (simp_all add: k_err_proc_def)

lemma timer_cmd_proc_sys_ok:
  assumes "sys_ok s" "valid_cmd cb"
  shows "sys_ok (timer_cmd_proc cb s)"
proof -
  have "kernel_ok (kern (timer_cmd_proc cb s))" "buf_queues (kern (timer_cmd_proc cb s)) = buf_queues (kern s)"
    using assms(1) by (simp_all add: sys_ok_def timer_cmd_proc_def cmd_proc_kern_ok)
  moreover have "works_ok (timer_cmd_proc cb s) = works_ok s" by (rule works_same) (simp_all add: timer_cmd_proc_keeps)
  ultimately show ?thesis using assms timer_cmd_proc_ok(1) [of s cb] by (simp add: sys_ok_def timer_cmd_proc_keeps)
qed

lemma timer_task_sys_ok:
  assumes "sys_ok s"
  shows "valid_cmd (timer_msg cb_msg s) \<Longrightarrow> sys_ok (timer_task_cmd cb_msg err s)"
    and "\<lbrakk>handler_ok run; err = RHINO_SUCCESS \<Longrightarrow> valid_cmd (timer_msg cb_msg s); timer_task_wait_end run cb_msg err s = Some s'\<rbrakk> \<Longrightarrow> sys_ok s'"
    and "\<lbrakk>handler_ok run; timer_task_due run s = Some s'\<rbrakk> \<Longrightarrow> sys_ok s'"
proof -
  have m: "timer_msg cb_msg (s\<lparr>g_timer_count := n\<rparr>) = timer_msg cb_msg s" "timer_msg cb_msg (s\<lparr>kern := k_err_proc e (kern s)\<rparr>) = timer_msg cb_msg s" for n e
    by (simp_all add: timer_msg_def k_err_proc_def)
  show "sys_ok (timer_task_cmd cb_msg err s)" if "valid_cmd (timer_msg cb_msg s)"
    using that assms by (simp add: timer_task_cmd_def Let_def m timer_cmd_proc_sys_ok sys_ok_err)
  show "sys_ok s'" if "handler_ok run" "err = RHINO_SUCCESS \<Longrightarrow> valid_cmd (timer_msg cb_msg s)" "timer_task_wait_end run cb_msg err s = Some s'"
    using timer_cb_proc_sys_ok [OF that(3) [unfolded timer_task_wait_end_def Let_def] that(1)] that(2) assms
    by (simp add: timer_cmd_proc_sys_ok sys_ok_err split: if_splits)
  show "sys_ok s'" if "handler_ok run" "timer_task_due run s = Some s'"
    using timer_cb_proc_sys_ok [OF that(2) [unfolded timer_task_due_def] that(1)] assms by simp
qed


section \<open>What the calls leave alone\<close>

lemma ready_list_keeps [simp]:
  "buf_queues (ready_list_add t s) = buf_queues s" "g_tick_count (ready_list_add t s) = g_tick_count s"
  "buf_queues (tick_list_rm t s) = buf_queues s" "g_tick_count (tick_list_rm t s) = g_tick_count s"
  "buf_queues (blk_list_rm t s) = buf_queues s" "g_tick_count (blk_list_rm t s) = g_tick_count s"
  by (simp_all add: ready_list_add_def ready_list_add_tail_def ready_list_add_head_def tick_list_rm_def blk_list_rm_def upd_defs Let_def fault_def)

lemma pend_task_wakeup_keeps [simp]:
  "buf_queues (pend_task_wakeup t s) = buf_queues s" "g_tick_count (pend_task_wakeup t s) = g_tick_count s"
  by (simp_all add: pend_task_wakeup_def upd_defs Let_def fault_def split: task_stat.split)

lemma sem_give_keeps:
  "buf_queues (snd (krhino_sem_give i s)) = buf_queues s" "g_tick_count (snd (krhino_sem_give i s)) = g_tick_count s"
  by (simp_all add: krhino_sem_give_def sem_give_def upd_sem_def Let_def split: list.split)

lemma buf_queue_send_keeps:
  "max_msg_size (buf_queues (snd (krhino_buf_queue_send q p d n s)) i) = max_msg_size (buf_queues s i)"
  by (simp add: krhino_buf_queue_send_def buf_queue_send_def upd_buf_queue_def upd_task_def put_buf_def Let_def fault_def split: list.split option.split prod.split)


lemma timer_send_sys_ok:
  assumes "sys_ok s" "length (cb_pad cb) = 3"
  shows "sys_ok (snd (timer_send cb s))"
proof -
  have "kernel_ok (kern (snd (timer_send cb s)))"
    using timer_send_ok assms by (simp add: sys_ok_def)
  moreover have "max_msg_size (buf_queues (kern (snd (timer_send cb s))) (g_timer_queue s)) = SIZEOF_CB"
    using assms(1) by (simp add: sys_ok_def timer_send_def buf_queue_send_keeps)
  moreover have "timers_ok (snd (timer_send cb s)) = timers_ok s" by (rule timers_same) (simp_all add: timer_send_timers)
  moreover have "works_ok (snd (timer_send cb s)) = works_ok s" by (rule works_same) simp_all
  moreover have "g_timer_queue (snd (timer_send cb s)) = g_timer_queue s" by (simp add: timer_send_def)
  ultimately show ?thesis using assms(1) by (simp add: sys_ok_def)
qed

lemma timer_calls_sys_ok:
  assumes "sys_ok s" "length (cb_pad cb) = 3"
  shows "sys_ok (snd (krhino_timer_start cb timer s))" "sys_ok (snd (krhino_timer_stop cb timer s))"
    "sys_ok (snd (krhino_timer_change cb timer first round s))" "sys_ok (snd (krhino_timer_arg_change cb timer arg s))"
    "sys_ok (snd (krhino_timer_arg_change_auto cb timer arg s))" "sys_ok (snd (krhino_timer_del cb timer s))"
    "sys_ok (snd (krhino_timer_dyn_del cb timer s))"
  using assms by (simp_all add: krhino_timer_start_def krhino_timer_stop_def krhino_timer_change_def krhino_timer_arg_change_def
      krhino_timer_arg_change_auto_def krhino_timer_del_def krhino_timer_dyn_del_def timer_send_sys_ok set_arg_def)

lemma timer_create_sys_ok:
  assumes "sys_ok s" "length (cb_pad cb_mem) = 3" "timer \<notin> set (g_timer_head s)"
  shows "sys_ok (snd (timer_create cb_mem timer name cb first round arg auto_run alloc s))"
proof -
  have "kernel_ok (kern (snd (timer_create cb_mem timer name cb first round arg auto_run alloc s)))"
    "timers_ok (snd (timer_create cb_mem timer name cb first round arg auto_run alloc s))"
    using timer_create_ok [of s cb_mem timer] assms by (simp_all add: sys_ok_def)
  moreover have "works_ok (snd (timer_create cb_mem timer name cb first round arg auto_run alloc s)) = works_ok s"
    by (rule works_same) (simp_all add: timer_create_works)
  moreover have "max_msg_size (buf_queues (kern (snd (timer_create cb_mem timer name cb first round arg auto_run alloc s))) (g_timer_queue s)) = SIZEOF_CB"
    "g_timer_queue (snd (timer_create cb_mem timer name cb first round arg auto_run alloc s)) = g_timer_queue s"
    using assms(1,3) by (simp_all add: sys_ok_def timer_create_def Let_def krhino_timer_start_def timer_send_def buf_queue_send_keeps upd_timer_def)
  ultimately show ?thesis using assms(1) by (simp add: sys_ok_def)
qed

lemma timer_create_calls_sys_ok:
  assumes "sys_ok s" "length (cb_pad cb_mem) = 3" "timer \<notin> set (g_timer_head s)"
  shows "sys_ok (snd (krhino_timer_create cb_mem timer name cb first round arg auto_run s))"
    "sys_ok (snd (snd (krhino_timer_dyn_create cb_mem p name cb first round arg auto_run timer s)))"
  using timer_create_sys_ok [OF assms] assms(1)
  by (simp_all add: krhino_timer_create_def krhino_timer_dyn_create_def split_def Let_def)

section \<open>Work queues\<close>

lemma work_queue_add_sys_ok:
  assumes "sys_ok s" "work_exit (works s w) \<noteq> 1"
  shows "sys_ok (snd (work_queue_add q w s))"
proof -
  have w: "works_ok s" using assms(1) by (simp add: sys_ok_def)
  note e = work_queue_add_eq [OF w assms(2), of q]
  have "timers_ok (snd (work_queue_add q w s)) = timers_ok s" by (rule timers_same) (simp_all add: e)
  moreover have "g_timer_queue (snd (work_queue_add q w s)) = g_timer_queue s"
    by (simp add: work_queue_add_def Let_def upd_work_def upd_wq_def work_unlink_def)
  ultimately show ?thesis
    using assms(1) work_queue_add_ok [OF w assms(2), of q] by (simp add: sys_ok_def e sem_give_keeps)
qed

text \<open>The function the timers of works call meets the conditions on such functions.\<close>

lemma work_timer_cb_handler: "handler_ok (\<lambda>f t a s. if f = work_cb then work_timer_cb t a s else s)"
proof -
  have "timers (work_timer_cb t a s) = timers s" "g_timer_head (work_timer_cb t a s) = g_timer_head s"
    "g_timer_count (work_timer_cb t a s) = g_timer_count s" "g_tick_count (kern (work_timer_cb t a s)) = g_tick_count (kern s)" for t a s
    by (simp_all add: work_timer_cb_def Let_def work_queue_add_def upd_work_def upd_wq_def work_unlink_def sem_give_keeps)
  moreover have "sys_ok (work_timer_cb t a s)" if "sys_ok s" for t a s
    using that by (simp add: work_timer_cb_def Let_def work_queue_add_sys_ok)
  ultimately show ?thesis by (simp add: handler_ok_def quiet_def)
qed

lemma sys_ok_priv: "sys_ok s \<Longrightarrow> sys_ok (upd_timer t (\<lambda>k. k\<lparr>timer_priv := p\<rparr>) s)"
  by (simp add: sys_ok_def timers_ok_def works_ok_def upd_timer_def)

lemma krhino_work_run_sys_ok:
  assumes "sys_ok s" "length (cb_pad cb_mem) = 3" "work_dly (works s w) \<noteq> 0 \<Longrightarrow> work_timer (works s w) \<noteq> NULL"
  shows "sys_ok (snd (krhino_work_run cb_mem q w s))"
  using assms by (auto simp: krhino_work_run_def Let_def work_queue_add_sys_ok intro!: timer_calls_sys_ok sys_ok_priv)

lemma sys_ok_work:
  assumes "sys_ok s" "works_ok s'" "kern s' = kern s" "timers s' = timers s" "g_timer_head s' = g_timer_head s" "g_timer_count s' = g_timer_count s"
    "g_timer_queue s' = g_timer_queue s"
  shows "sys_ok s'"
  using assms timers_same(1) [of s' s] by (simp add: sys_ok_def)

lemma krhino_work_cancel_sys_ok:
  assumes "sys_ok s" "length (cb_pad cb_mem) = 3"
  shows "sys_ok (snd (krhino_work_cancel cb_mem w s))"
proof (cases "w \<noteq> NULL \<and> work_wq (works s w) = NULL \<and> work_dly (works s w) > 0")
  case True
  then show ?thesis using timer_calls_sys_ok(2) [OF assms] by (simp add: krhino_work_cancel_def Let_def)
next
  case False
  have "works_ok (snd (krhino_work_cancel cb_mem w s))"
    using krhino_work_cancel_ok(1) assms(1) by (simp add: sys_ok_def)
  then show ?thesis
    using False by (intro sys_ok_work [OF assms(1)]) (auto simp: krhino_work_cancel_def Let_def upd_work_def work_unlink_def)
qed

lemma worker_next_sys_ok:
  assumes "sys_ok s" "work_list (workqueues s q) \<noteq> []"
  shows "sys_ok (worker_task_next q RHINO_SUCCESS s)"
proof -
  obtain w ws where l: "work_list (workqueues s q) = w # ws" using assms(2) by (cases "work_list (workqueues s q)") auto
  have "works_ok s" using assms(1) by (simp add: sys_ok_def)
  then show ?thesis
    using worker_task_next_ok [OF _ l] by (intro sys_ok_work [OF assms(1)]) (simp_all add: worker_task_next_eq [OF _ l])
qed

lemma worker_run_sys_ok:
  assumes "sys_ok s" "\<And>f a s. sys_ok s \<Longrightarrow> sys_ok (handle f a s)"
  shows "sys_ok (worker_task_run handle q s)"
proof -
  let ?h = "handle (work_handle (works s (work_current (workqueues s q)))) (work_arg (works s (work_current (workqueues s q)))) s"
  have h: "sys_ok ?h" using assms by blast
  then have "works_ok (upd_wq q (\<lambda>q. q\<lparr>work_current := NULL\<rparr>) ?h)" by (simp add: sys_ok_def works_ok_def upd_wq_def)
  then show ?thesis
    unfolding worker_task_run_def Let_def by (intro sys_ok_work [OF h]) (simp_all add: upd_wq_def)
qed

lemma krhino_work_init_sys_ok:
  assumes "sys_ok s" "length (cb_pad cb_mem) = 3" "work_exit (works s w) \<noteq> 1" "obj \<notin> set (g_timer_head s)"
  shows "sys_ok (snd (krhino_work_init cb_mem tcb nm obj w handle arg dly s))"
proof -
  define u where "u = upd_work w (\<lambda>_. \<lparr>work_handle = handle, work_arg = arg, work_dly = dly, work_timer = NULL, work_wq = NULL, work_exit = 0\<rparr>) s"
  define r where "r = krhino_timer_dyn_create cb_mem w nm tcb dly 0 w 0 obj u"
  have "works_ok s" using assms(1) by (simp add: sys_ok_def)
  then have "works_ok u" using assms(3) works_keep [of u s] by (simp add: u_def upd_work_def)
  then have u: "sys_ok u" by (rule sys_ok_work [OF assms(1)]) (simp_all add: u_def upd_work_def)
  have r: "sys_ok (snd (snd r))"
    using timer_create_calls_sys_ok(2) [OF u assms(2)] assms(4) by (simp add: r_def u_def upd_work_def)
  have "works_ok (upd_work w (\<lambda>k. k\<lparr>work_timer := p\<rparr>) (snd (snd r)))" for p
    using r works_keep [of "upd_work w (\<lambda>k. k\<lparr>work_timer := p\<rparr>) (snd (snd r))" "snd (snd r)"] by (simp add: upd_work_def sys_ok_def)
  then have rw: "sys_ok (upd_work w (\<lambda>k. k\<lparr>work_timer := p\<rparr>) (snd (snd r)))" for p
    by (rule sys_ok_work [OF r]) (simp_all add: upd_work_def)
  have "snd (krhino_work_init cb_mem tcb nm obj w handle arg dly s) = (if w = NULL \<or> handle = NULL then s else if dly > 0 then
      (case fst (snd r) of None \<Rightarrow> snd (snd r) | Some p \<Rightarrow> upd_work w (\<lambda>k. k\<lparr>work_timer := p\<rparr>) (snd (snd r))) else u)"
    using assms(3) unfolding krhino_work_init_def Let_def by (simp add: u_def [symmetric] r_def [symmetric] split_def split: option.split)
  with assms(1) u r rw show ?thesis by (simp split: option.split)
qed


lemma task_create_buf_queues: "buf_queues (snd (krhino_task_create t name arg pri ticks buf n entry autorun s)) = buf_queues s"
proof (cases "fst (krhino_task_create t name arg pri ticks buf n entry autorun s) = RHINO_SUCCESS")
  case True
  then show ?thesis
    using task_create_eq(5) [of t name arg pri ticks buf n entry autorun K_OBJ_STATIC_ALLOC 0 s]
    by (auto simp: krhino_task_create_def Let_def born_def move_simps enrolled_def)
next
  case False
  then show ?thesis using task_create_refused unfolding krhino_task_create_def by metis
qed

lemma wake_all_buf_queues: "(\<And>t s. buf_queues (f t s) = buf_queues s) \<Longrightarrow> buf_queues (wake_all f i s) = buf_queues s"
  by (induction f i s rule: wake_all.induct) (subst wake_all.simps, simp add: Let_def fault_def split: list.split)

lemma sem_del_buf_queues: "buf_queues (snd (krhino_sem_del i s)) = buf_queues s"
proof -
  have "buf_queues (pend_task_rm t s) = buf_queues s" for t s
    by (simp add: pend_task_rm_def upd_defs Let_def split: task_stat.split)
  then show ?thesis by (simp add: krhino_sem_del_def sem_del_def Let_def wake_all_buf_queues upd_obj_def)
qed

lemma works_lists:
  assumes "works s' = works s" "\<And>q. work_list (workqueues s' q) = work_list (workqueues s q)"
  shows "works_ok s' = works_ok s"
  using assms by (simp add: works_ok_def)

lemma krhino_workqueue_create_sys_ok:
  assumes "sys_ok s" "unused (kern s) (wq_sem (workqueues s q))" "\<not> live (tasks (kern s) (wq_worker (workqueues s q)))"
    and "work_list (workqueues s q) = []"
  shows "sys_ok (snd (krhino_workqueue_create entry nm q name pri stk n s))"
proof -
  let ?i = "wq_sem (workqueues s q)" and ?t = "wq_worker (workqueues s q)"
  define u where "u = upd_wq q (\<lambda>q. q\<lparr>work_list := [], work_current := NULL, wq_name := name\<rparr>) s"
  define k1 where "k1 = snd (krhino_sem_create ?i nm 0 (kern s))"
  define k2 where "k2 = snd (krhino_task_create ?t name q pri 0 stk n entry 1 k1)"
  define k3 where "k3 = snd (krhino_sem_del ?i k2)"
  have k1: "kernel_ok k1" "buf_queues k1 = buf_queues (kern s)" "tasks k1 = tasks (kern s)"
    using create_calls_ok(1) [OF _ assms(2)] assms(1)
    by (simp_all add: k1_def sys_ok_def) (simp_all add: krhino_sem_create_def sem_create_def upd_defs)
  have k2: "kernel_ok k2" "buf_queues k2 = buf_queues (kern s)"
    using k1 krhino_task_create_ok [OF k1(1)] assms(3) task_create_buf_queues by (simp_all add: k2_def)
  have k3: "kernel_ok k3" "buf_queues k3 = buf_queues (kern s)"
    using del_calls_ok(1) [OF k2(1)] k2(2) sem_del_buf_queues by (simp_all add: k3_def)
  have w: "works_ok u"
    using assms(1,4) works_lists [of u s] by (simp add: sys_ok_def u_def upd_wq_def)
  have "works_ok (u\<lparr>kern := k, g_workqueue_list_head := h\<rparr>)" for k h using w by (simp add: works_ok_def)
  moreover have "timers_ok (u\<lparr>kern := k, g_workqueue_list_head := h\<rparr>)" for k h
    using assms(1) by (simp add: timers_ok_def u_def upd_wq_def sys_ok_def)
  ultimately have ok: "sys_ok (u\<lparr>kern := k, g_workqueue_list_head := h\<rparr>)" if "kernel_ok k" "buf_queues k = buf_queues (kern s)" for k h
    using assms(1) that by (simp add: sys_ok_def u_def upd_wq_def)
  define r1 where "r1 = fst (krhino_sem_create ?i nm 0 (kern s))"
  define r2 where "r2 = fst (krhino_task_create ?t name q pri 0 stk n entry 1 k1)"
  define r3 where "r3 = fst (krhino_sem_del ?i k2)"
  define h where "h = g_workqueue_list_head u"
  have f: "wq_sem (workqueues u q) = ?i" "wq_worker (workqueues u q) = ?t" "kern u = kern s" by (simp_all add: u_def upd_wq_def)
  have c: "krhino_sem_create ?i nm 0 (kern s) = (r1, k1)" "krhino_task_create ?t name q pri 0 stk n entry 1 k1 = (r2, k2)"
    "krhino_sem_del ?i k2 = (r3, k3)"
    by (simp_all add: r1_def r2_def r3_def k1_def k2_def k3_def)
  have ok1: "sys_ok (u\<lparr>kern := k1\<rparr>)"
    using assms(1) w k1 by (simp add: sys_ok_def works_ok_def timers_ok_def u_def upd_wq_def)
  have "snd (krhino_workqueue_create entry nm q name pri stk n s) \<in>
      {s, u\<lparr>kern := k1\<rparr>, u\<lparr>kern := k2, g_workqueue_list_head := h @ [q]\<rparr>,
       u\<lparr>kern := k3, g_workqueue_list_head := remove1 q (h @ [q])\<rparr>}"
    unfolding krhino_workqueue_create_def Let_def u_def [symmetric] kcall_def
    by (simp add: c f h_def [symmetric])
  then show ?thesis using assms(1) ok1 ok [OF k2] ok [OF k3] by auto
qed

section \<open>The system in operation\<close>

inductive sstep :: "ksys \<Rightarrow> ksys \<Rightarrow> bool" where
  kernel: "\<lbrakk>kstep (kern s) k; max_msg_size (buf_queues k (g_timer_queue s)) = SIZEOF_CB\<rbrakk> \<Longrightarrow> sstep s (s\<lparr>kern := k\<rparr>)"
| timer_create: "\<lbrakk>length (cb_pad cb) = 3; t \<notin> set (g_timer_head s)\<rbrakk> \<Longrightarrow> sstep s (snd (krhino_timer_create cb t name f first round arg auto_run s))"
| timer_dyn_create: "\<lbrakk>length (cb_pad cb) = 3; t \<notin> set (g_timer_head s)\<rbrakk>
    \<Longrightarrow> sstep s (snd (snd (krhino_timer_dyn_create cb p name f first round arg auto_run t s)))"
| timer_start: "length (cb_pad cb) = 3 \<Longrightarrow> sstep s (snd (krhino_timer_start cb t s))"
| timer_stop: "length (cb_pad cb) = 3 \<Longrightarrow> sstep s (snd (krhino_timer_stop cb t s))"
| timer_change: "length (cb_pad cb) = 3 \<Longrightarrow> sstep s (snd (krhino_timer_change cb t first round s))"
| timer_arg_change: "length (cb_pad cb) = 3 \<Longrightarrow> sstep s (snd (krhino_timer_arg_change cb t arg s))"
| timer_arg_change_auto: "length (cb_pad cb) = 3 \<Longrightarrow> sstep s (snd (krhino_timer_arg_change_auto cb t arg s))"
| timer_del: "length (cb_pad cb) = 3 \<Longrightarrow> sstep s (snd (krhino_timer_del cb t s))"
| timer_dyn_del: "length (cb_pad cb) = 3 \<Longrightarrow> sstep s (snd (krhino_timer_dyn_del cb t s))"
| timer_cmd: "valid_cmd (timer_msg p s) \<Longrightarrow> sstep s (timer_task_cmd p err s)"
| timer_wait_end: "\<lbrakk>handler_ok run; err = RHINO_SUCCESS \<longrightarrow> valid_cmd (timer_msg p s); timer_task_wait_end run p err s = Some s'\<rbrakk> \<Longrightarrow> sstep s s'"
| timer_due: "\<lbrakk>handler_ok run; timer_task_due run s = Some s'\<rbrakk> \<Longrightarrow> sstep s s'"
| workqueue_create: "\<lbrakk>unused (kern s) (wq_sem (workqueues s q)); \<not> live (tasks (kern s) (wq_worker (workqueues s q))); work_list (workqueues s q) = []\<rbrakk>
    \<Longrightarrow> sstep s (snd (krhino_workqueue_create entry nm q name pri stk n s))"
| work_init: "\<lbrakk>length (cb_pad cb) = 3; work_exit (works s w) \<noteq> 1; obj \<notin> set (g_timer_head s)\<rbrakk>
    \<Longrightarrow> sstep s (snd (krhino_work_init cb tcb nm obj w f arg dly s))"
| work_run: "\<lbrakk>length (cb_pad cb) = 3; work_dly (works s w) \<noteq> 0 \<longrightarrow> work_timer (works s w) \<noteq> NULL\<rbrakk> \<Longrightarrow> sstep s (snd (krhino_work_run cb q w s))"
| work_sched: "\<lbrakk>length (cb_pad cb) = 3; work_dly (works s w) \<noteq> 0 \<longrightarrow> work_timer (works s w) \<noteq> NULL\<rbrakk> \<Longrightarrow> sstep s (snd (krhino_work_sched cb w s))"
| work_cancel: "length (cb_pad cb) = 3 \<Longrightarrow> sstep s (snd (krhino_work_cancel cb w s))"
| worker_next: "work_list (workqueues s q) \<noteq> [] \<Longrightarrow> sstep s (worker_task_next q RHINO_SUCCESS s)"
| worker_run: "(\<And>f a s. sys_ok s \<Longrightarrow> sys_ok (handle f a s)) \<Longrightarrow> sstep s (worker_task_run handle q s)"
| idle: "sstep s (idle_task s)"

lemma sstep_ok:
  assumes "sstep s s'" "sys_ok s"
  shows "sys_ok s'"
  using assms(1)
proof cases
  case (kernel k)
  then have "kernel_ok k" using kstep_ok assms(2) by (simp add: sys_ok_def)
  with kernel assms(2) show ?thesis by (simp add: sys_ok_def timers_ok_def works_ok_def)
next
  case (timer_wait_end run err p)
  then show ?thesis using timer_task_sys_ok(2) [OF assms(2)] by blast
next
  case (timer_due run)
  then show ?thesis using timer_task_sys_ok(3) [OF assms(2)] by blast
next
  case (worker_run handle q)
  then show ?thesis using worker_run_sys_ok [OF assms(2)] by blast
next
  case idle
  then show ?thesis using assms(2) by (simp add: idle_task_def sys_ok_def timers_ok_def works_ok_def)
qed (use assms(2) in \<open>simp_all add: timer_create_calls_sys_ok timer_calls_sys_ok timer_task_sys_ok(1) krhino_workqueue_create_sys_ok
  krhino_work_init_sys_ok krhino_work_run_sys_ok krhino_work_sched_def krhino_work_cancel_sys_ok worker_next_sys_ok\<close>)

text \<open>
  The states the system reaches from the zeroed memory: \<^verbatim>\<open>krhino_init\<close>, the tasks an application
  creates, \<^verbatim>\<open>krhino_start\<close>, and any sequence of steps.
\<close>

inductive sreach :: "image \<Rightarrow> ksys \<Rightarrow> bool" for img :: image where
  start: "boot_reach img k \<Longrightarrow> sreach img ((snd (krhino_init img (zero_ksys img)))\<lparr>kern := snd (krhino_start k)\<rparr>)"
| step: "\<lbrakk>sreach img s; sstep s s'\<rbrakk> \<Longrightarrow> sreach img s'"

lemma boot_timer_queue:
  assumes "boot_reach img k" "image_ok img"
  shows "max_msg_size (buf_queues k (i_timer_queue img)) = SIZEOF_CB"
  using assms(1)
proof induction
  case init
  show ?case by (rule krhino_init_ok [OF assms(2)]) simp
qed (simp add: task_create_buf_queues)

lemma boot_services:
  fixes k :: kernel
  assumes "image_ok img"
  defines "s \<equiv> (snd (krhino_init img (zero_ksys img)))\<lparr>kern := k\<rparr>"
  shows "timers_ok s" "works_ok s" "g_timer_queue s = i_timer_queue img"
proof -
  obtain k' W L where e: "snd (krhino_init img (zero_ksys img)) = (zero_ksys img)\<lparr>kern := k', workqueues := W, g_workqueue_list_head := L\<rparr>"
    and W: "\<forall>q. work_list (W q) = []"
    by (rule krhino_init_ok [OF assms(1)]) (simp add: zero_ksys_def)
  show "timers_ok s" "g_timer_queue s = i_timer_queue img" unfolding s_def e by (simp_all add: timers_ok_def zero_ksys_def)
  show "works_ok s" unfolding s_def e using W by (simp add: works_ok_def zero_ksys_def)
qed

lemma boot_sys_ok:
  assumes "boot_reach img k" "image_ok img"
  shows "sys_ok ((snd (krhino_init img (zero_ksys img)))\<lparr>kern := snd (krhino_start k)\<rparr>)"
proof -
  have "buf_queues (snd (krhino_start k)) = buf_queues k" by (simp add: krhino_start_def fault_def split: option.split)
  moreover have "kernel_ok (snd (krhino_start k))" using boot_reach_ok [OF assms] boot_start(1) by blast
  ultimately show ?thesis
    using boot_timer_queue [OF assms] boot_services [OF assms(2)] by (simp add: sys_ok_def)
qed

lemma sreach_sys_ok:
  assumes "sreach img s" "image_ok img"
  shows "sys_ok s"
  using assms(1) by induction (use boot_sys_ok [OF _ assms(2)] sstep_ok in blast)+

end
