(* ===== verification/Rhino_Example.thy ===== *)
theory Rhino_Example
  imports Rhino_Services
begin

text \<open>
  A concrete system, at which the properties of the kernel are evaluated: an image with an address
  for every object of the kernel, the state after \<^verbatim>\<open>krhino_init\<close> and \<^verbatim>\<open>krhino_start\<close>, and states that
  calls reach from it.
\<close>

section \<open>The image\<close>

definition demo_image :: image where
  "demo_image = \<lparr>i_res_sem = 0x1000, i_dyn_task = 0x1100, i_dyn_stack = 0x2000, i_dyn_entry = 0x8000,
     i_idle_task = 0x1200, i_idle_stack = 0x2400, i_idle_entry = 0x8100,
     i_workqueue = 0x1300, i_wq_worker = (\<lambda>q. q + 0x18), i_wq_sem = (\<lambda>q. q + 0x80), i_wq_stack = 0x2800, i_worker_entry = 0x8200,
     i_timer_queue = 0x1400, i_timer_buf = 0x3400, i_timer_mem = replicate 480 0, i_timer_task = 0x1500, i_timer_stack = 0x3800,
     i_timer_entry = 0x8300, i_deathbed = 0x8400, i_name = 0x9000\<rparr>"

lemma demo_image_ok: "image_ok demo_image"
  by (simp add: image_ok_def demo_image_def Let_def SIZEOF_CB_def RHINO_CONFIG_TIMER_MSG_NUM_def)

definition demo_boot :: kernel where
  "demo_boot = kern (snd (krhino_init demo_image (zero_ksys demo_image)))"

definition demo_kernel :: kernel where
  "demo_kernel = snd (krhino_start demo_boot)"

definition demo_system :: ksys where
  "demo_system = (snd (krhino_init demo_image (zero_ksys demo_image)))\<lparr>kern := demo_kernel\<rparr>"

lemma demo_reach: "boot_reach demo_image demo_boot" "kreach demo_image demo_kernel" "sreach demo_image demo_system"
proof -
  show b: "boot_reach demo_image demo_boot" unfolding demo_boot_def by (rule boot_reach.init)
  show "kreach demo_image demo_kernel" unfolding demo_kernel_def by (rule kreach.start [OF b])
  show "sreach demo_image demo_system" unfolding demo_system_def demo_kernel_def by (rule sreach.start [OF b])
qed

lemma demo_ok: "kernel_ok demo_kernel" "sys_ok demo_system"
  using kreach_ok [OF demo_reach(2) demo_image_ok] sreach_sys_ok [OF demo_reach(3) demo_image_ok] .

text \<open>The tasks of the system: the timer task is the most urgent.\<close>

abbreviation dyn_task :: tid where "dyn_task \<equiv> 0x1100"
abbreviation idle_tcb :: tid where "idle_tcb \<equiv> 0x1200"
abbreviation wq_task :: tid where "wq_task \<equiv> 0x1318"
abbreviation timer_tcb :: tid where "timer_tcb \<equiv> 0x1500"

lemma demo_boot_facts:
  "boot_ok demo_boot" "g_idle_task_spawned demo_boot = 1"
  "ready (tasks demo_boot t) \<longleftrightarrow> t \<in> {dyn_task, idle_tcb, wq_task, timer_tcb}"
  "t \<notin> {dyn_task, idle_tcb, wq_task, timer_tcb} \<Longrightarrow> tasks demo_boot t = zero_task"
  "prio (tasks demo_boot dyn_task) = 6" "prio (tasks demo_boot idle_tcb) = 61" "prio (tasks demo_boot wq_task) = 20"
  "prio (tasks demo_boot timer_tcb) = 5"
  "i \<notin> {0x1000, 0x1380, 0x1400} \<Longrightarrow> obj_type (objs demo_boot i) = RHINO_OBJ_TYPE_NONE"
proof -
  have z: "\<not> ready zero_task" by (simp add: zero_task_def state_defs)
  obtain kd ki kw kt where
    T: "tasks demo_boot = (\<lambda>_. zero_task)(dyn_task := kd, idle_tcb := ki, wq_task := kw, timer_tcb := kt)"
      "ready kd" "prio kd = 6" "ready ki" "prio ki = 61" "ready kw" "prio kw = 20" "ready kt" "prio kt = 5"
    and o: "\<forall>i. i \<notin> {0x1000, 0x1380, 0x1400} \<longrightarrow> obj_type (objs demo_boot i) = RHINO_OBJ_TYPE_NONE"
    and b: "boot_ok demo_boot" "g_idle_task_spawned demo_boot = 1"
    unfolding demo_boot_def
    by (rule krhino_init_ok [OF demo_image_ok]) (simp add: demo_image_def sys_config_defs RHINO_IDLE_PRI_def RHINO_CONFIG_PRI_MAX_def)
  show "boot_ok demo_boot" "g_idle_task_spawned demo_boot = 1" by (rule b)+
  show "ready (tasks demo_boot t) \<longleftrightarrow> t \<in> {dyn_task, idle_tcb, wq_task, timer_tcb}" using T z by simp
  show "t \<notin> {dyn_task, idle_tcb, wq_task, timer_tcb} \<Longrightarrow> tasks demo_boot t = zero_task" using T by simp
  show "prio (tasks demo_boot dyn_task) = 6" "prio (tasks demo_boot idle_tcb) = 61" "prio (tasks demo_boot wq_task) = 20"
    "prio (tasks demo_boot timer_tcb) = 5" using T by simp_all
  show "i \<notin> {0x1000, 0x1380, 0x1400} \<Longrightarrow> obj_type (objs demo_boot i) = RHINO_OBJ_TYPE_NONE" using o by simp
qed

lemma krhino_start_fields:
  "tasks (snd (krhino_start k)) = tasks k" "objs (snd (krhino_start k)) = objs k" "buf_queues (snd (krhino_start k)) = buf_queues k"
  "g_intrpt_nested_level (snd (krhino_start k)) = g_intrpt_nested_level k" "g_sched_lock (snd (krhino_start k)) = g_sched_lock k"
  "g_tick_head (snd (krhino_start k)) = g_tick_head k" "mutexes (snd (krhino_start k)) = mutexes k" "sems (snd (krhino_start k)) = sems k"
  by (simp_all add: krhino_start_def fault_def split: option.split)

lemma demo_facts:
  "g_intrpt_nested_level demo_kernel = 0" "g_sched_lock demo_kernel = 0" "g_tick_head demo_kernel = []"
  "ready (tasks demo_kernel t) \<longleftrightarrow> t \<in> {dyn_task, idle_tcb, wq_task, timer_tcb}"
  "prio (tasks demo_kernel dyn_task) = 6" "prio (tasks demo_kernel idle_tcb) = 61" "prio (tasks demo_kernel wq_task) = 20"
  "prio (tasks demo_kernel timer_tcb) = 5"
  "i \<notin> {0x1000, 0x1380, 0x1400} \<Longrightarrow> obj_type (objs demo_kernel i) = RHINO_OBJ_TYPE_NONE"
  using demo_boot_facts by (simp_all add: demo_kernel_def krhino_start_fields boot_ok_def)

lemma demo_base_prio: "ready (tasks demo_kernel t) \<Longrightarrow> b_prio (tasks demo_kernel t) = prio (tasks demo_kernel t)"
  using demo_boot_facts(1) dead_not by (auto simp: demo_kernel_def krhino_start_fields boot_ok_def newborn_def)

lemma demo_no_mutex: "obj_type (objs demo_kernel i) \<noteq> RHINO_MUTEX_OBJ_TYPE" "blk_list (objs demo_kernel i) = []"
  using demo_boot_facts(1) by (auto simp: demo_kernel_def krhino_start_fields boot_ok_def)

lemma demo_active: "g_active_task demo_kernel = timer_tcb"
  by (rule active_is [OF demo_ok(1)]) (auto simp: demo_facts)

lemma demo_new_task: "\<not> live (tasks demo_kernel 0x6000)"
  using demo_boot_facts(4) [of "0x6000"] by (simp add: demo_kernel_def krhino_start_fields zero_task_def state_defs)

lemma demo_create:
  "pri < RHINO_IDLE_PRI \<Longrightarrow> fst (krhino_task_create 0x6000 0x9000 0 pri 0 0x4000 100 0x8500 1 demo_kernel) = RHINO_SUCCESS"
  unfolding krhino_task_create_def by (intro task_create_succeeds) (simp_all add: demo_facts RHINO_CONFIG_PRI_MAX_def RHINO_IDLE_PRI_def)

lemma demo_lane: "cur_list_item (g_ready_queue demo_kernel) 5 = [timer_tcb]"
proof -
  have r: "rdy_ok (g_ready_queue demo_kernel) (tasks demo_kernel)" using kernel_okD(1) [OF demo_ok(1)] kinvD(1) base_okD(1) by blast
  let ?xs = "cur_list_item (g_ready_queue demo_kernel) 5"
  have "x \<in> set ?xs \<longleftrightarrow> x = timer_tcb" for x using rdy_ok_mem [OF r, of x 5] demo_facts(4) [of x] demo_facts(5-8) by auto
  then have "set ?xs = {timer_tcb}" by auto
  moreover have "distinct ?xs" using r by (simp add: rdy_ok_def rq_ok_def)
  ultimately have "length ?xs = 1" using distinct_card [of ?xs] by simp
  then obtain x where "?xs = [x]" by (auto simp: length_Suc_conv)
  with \<open>set ?xs = {timer_tcb}\<close> show ?thesis by simp
qed

end
