(* ===== verification/Rhino_Scheduling.thy ===== *)
theory Rhino_Scheduling
  imports Rhino_Example
begin

text \<open>
  What the invariant of the reachable states says about scheduling, and what the calls of the
  scheduler do: preemption, yielding, time slices, the scheduler lock, interrupts, suspension.
\<close>

section \<open>Reachable states\<close>



text \<open>
  (C3) In every reachable state in a task context with an unlocked scheduler, the running task is
  ready and no ready task is more urgent, and no error of the kernel (an empty list that is read, a
  node removed from a list that does not hold it, a loop over a list that does not end) has occurred.
\<close>

theorem running_most_urgent:
  assumes "kreach img s" "image_ok img"
  shows "\<not> k_fault s \<and> (g_intrpt_nested_level s = 0 \<and> g_sched_lock s = 0 \<longrightarrow>
    ready (tasks s (g_active_task s)) \<and> (\<forall>u. ready (tasks s u) \<longrightarrow> prio (tasks s (g_active_task s)) \<le> prio (tasks s u)))"
  using kreach_ok [OF assms] kernel_okD(1) kinvD(1) base_okD(5) active_most_urgent by blast

theorem running_most_urgent_witness:
  "\<not> k_fault demo_kernel \<and> ready (tasks demo_kernel timer_tcb) \<and> prio (tasks demo_kernel timer_tcb) \<le> prio (tasks demo_kernel wq_task)"
  using running_most_urgent [OF demo_reach(2) demo_image_ok] by (simp add: demo_facts demo_active)



section \<open>Preemption\<close>

lemma urgent_lanes:
  assumes "kernel_ok s" "g_intrpt_nested_level s = 0" "g_sched_lock s = 0"
  shows "\<forall>r < prio (tasks s (g_active_task s)). cur_list_item (g_ready_queue s) r = []"
    "g_active_task s \<in> set (cur_list_item (g_ready_queue s) (prio (tasks s (g_active_task s))))"
    "preferred_cpu_ready_task_get (g_ready_queue s) = Some (g_active_task s)" "rq_ok (g_ready_queue s)"
    "hd (cur_list_item (g_ready_queue s) (prio (tasks s (g_active_task s)))) = g_active_task s"
proof -
  have ok: "rdy_ok (g_ready_queue s) (tasks s)" using kernel_okD(1) [OF assms(1)] kinvD(1) base_okD(1) by blast
  note u = active_most_urgent [OF assms]
  show "\<forall>r < prio (tasks s (g_active_task s)). cur_list_item (g_ready_queue s) r = []"
  proof (intro allI impI)
    fix r assume r: "r < prio (tasks s (g_active_task s))"
    show "cur_list_item (g_ready_queue s) r = []"
    proof (rule ccontr)
      assume "cur_list_item (g_ready_queue s) r \<noteq> []"
      then have "ready (tasks s (hd (cur_list_item (g_ready_queue s) r))) \<and> prio (tasks s (hd (cur_list_item (g_ready_queue s) r))) = r"
        using rdy_ok_mem [OF ok] hd_in_set by blast
      then show False using u(2) r by (metis leD)
    qed
  qed
  then have l: "\<forall>r < prio (tasks s (g_active_task s)). cur_list_item (g_ready_queue s) r = []" .
  show m: "g_active_task s \<in> set (cur_list_item (g_ready_queue s) (prio (tasks s (g_active_task s))))"
    using rdy_ok_mem [OF ok] u(1) by blast
  show p: "preferred_cpu_ready_task_get (g_ready_queue s) = Some (g_active_task s)"
    using kernel_okD(2) [OF assms(1)] assms(2,3) by (simp add: sched_ok_def)
  show q: "rq_ok (g_ready_queue s)" using ok by (simp add: rdy_ok_def)
  from m have "cur_list_item (g_ready_queue s) (prio (tasks s (g_active_task s))) \<noteq> []" by auto
  then obtain r where "r \<le> prio (tasks s (g_active_task s))" "cur_list_item (g_ready_queue s) r \<noteq> []"
    "preferred_cpu_ready_task_get (g_ready_queue s) = Some (hd (cur_list_item (g_ready_queue s) r))"
    using rql.top [OF q] by blast
  then show "hd (cur_list_item (g_ready_queue s) (prio (tasks s (g_active_task s)))) = g_active_task s"
    using l p by (metis le_neq_implies_less option.inject)
qed

lemma sched_head:
  assumes "kernel_ok s" "g_intrpt_nested_level s = 0" "g_sched_lock s = 0"
    and "cur_list_item (g_ready_queue s) p = t # ts" "\<forall>r < p. cur_list_item (g_ready_queue s) r = []"
  shows "g_active_task s = t"
proof -
  note u = urgent_lanes [OF assms(1-3)]
  from assms(4) obtain r where "r \<le> p" "cur_list_item (g_ready_queue s) r \<noteq> []"
    "preferred_cpu_ready_task_get (g_ready_queue s) = Some (hd (cur_list_item (g_ready_queue s) r))"
    using rql.top [OF u(4), of p] by auto
  then show ?thesis using assms(4,5) u(3) by (metis le_neq_implies_less list.sel(1) option.inject)
qed

lemma task_create_started:
  assumes "kernel_ok s" "autorun > 0" "krhino_task_create t name arg pri ticks buf n entry autorun s = (RHINO_SUCCESS, s')"
  obtains k where "tasks s' = (tasks s)(t := k)" "ready k" "prio k = pri" "g_intrpt_nested_level s = 0" "g_intrpt_nested_level s' = 0"
    "g_sched_lock s' = g_sched_lock s" "g_ready_queue s' = rq_add_tail (g_ready_queue s) pri t" "pri < RHINO_CONFIG_PRI_MAX"
    "g_active_task s' = g_active_task s \<or> g_sched_lock s = 0" "task_alloc_flag k = K_OBJ_STATIC_ALLOC"
proof -
  have c: "fst (task_create t name arg pri ticks buf n entry autorun K_OBJ_STATIC_ALLOC 0 s) = RHINO_SUCCESS"
    using assms(3) by (simp add: krhino_task_create_def)
  note e = task_create_eq [OF c]
  have st: "g_sys_stat s = RHINO_RUNNING" using kernel_okD(2) [OF assms(1)] by (simp add: sched_ok_def)
  from e(5) obtain stk mem where eq: "s' = core_sched (born t (new_task name pri ticks buf n autorun K_OBJ_STATIC_ALLOC 0 stk) (enrolled t pri mem s))"
    using st assms(2,3) by (auto simp: krhino_task_create_def Let_def)
  define k where "k = new_task name pri ticks buf n autorun K_OBJ_STATIC_ALLOC 0 stk"
  have k: "ready k" "prio k = pri" using new_task_newborn(2,3) [OF e(2)] assms(2) by (simp_all add: k_def)
  have f: "tasks s' = (tasks s)(t := k)" "g_intrpt_nested_level s' = 0" "g_sched_lock s' = g_sched_lock s"
    "g_ready_queue s' = rq_add_tail (g_ready_queue s) pri t"
    using e(3) k by (simp_all add: eq k_def [symmetric] born_def) (simp_all add: enrolled_def)
  have act: "g_active_task s' = g_active_task s \<or> g_sched_lock s = 0"
    by (simp add: eq core_sched_def born_def word_gt_0) (simp add: enrolled_def)
  have "task_alloc_flag k = K_OBJ_STATIC_ALLOC" by (simp add: k_def new_task_def Let_def)
  then show ?thesis by (rule that [OF f(1) k e(3) f(2-4) e(2) act])
qed

lemma task_create_active:
  assumes "kernel_ok s" "\<not> live (tasks s t)" "g_sched_lock s = 0" "autorun > 0"
    and "krhino_task_create t name arg pri ticks buf n entry autorun s = (RHINO_SUCCESS, s')"
  shows "g_active_task s' = (if pri < prio (tasks s (g_active_task s)) then t else g_active_task s)"
proof -
  obtain k where k: "ready k" "prio k = pri"
    and s': "tasks s' = (tasks s)(t := k)" "g_intrpt_nested_level s' = 0" "g_sched_lock s' = 0" "g_ready_queue s' = rq_add_tail (g_ready_queue s) pri t"
    and e: "g_intrpt_nested_level s = 0" "pri < RHINO_CONFIG_PRI_MAX"
    using task_create_started [OF assms(1,4,5)] assms(3) by metis
  have ok: "kernel_ok s'" using krhino_task_create_ok [OF assms(1,2)] assms(5) by (metis snd_conv)
  note u = urgent_lanes [OF assms(1) e(1) assms(3)]
  note a = active_most_urgent [OF assms(1) e(1) assms(3)]
  have "t \<noteq> g_active_task s" using a(1) assms(2) dead_not by blast
  show ?thesis
  proof (cases "pri < prio (tasks s (g_active_task s))")
    case True
    have "g_active_task s' = t"
    proof (rule active_is [OF ok s'(2,3)])
      show "ready (tasks s' t)" using k s' by simp
      fix v assume "v \<noteq> t" "ready (tasks s' v)"
      then show "prio (tasks s' t) < prio (tasks s' v)" using a(2) [of v] True k s'(1) by simp
    qed
    with True show ?thesis by simp
  next
    case False
    have "rdy_ok (g_ready_queue s) (tasks s)" using kernel_okD(1) [OF assms(1)] kinvD(1) base_okD(1) by blast
    then have "t \<notin> set (cur_list_item (g_ready_queue s) pri)" using assms(2) dead_not rdy_ok_mem by blast
    then have "preferred_cpu_ready_task_get (g_ready_queue s') = Some (g_active_task s)"
      unfolding s'(4) using False by (intro rql.top_add_tail_other [OF u(4,3,2) _ _ e(2) u(1)]) simp_all
    with urgent_lanes(3) [OF ok s'(2,3)] False show ?thesis by simp
  qed
qed

text \<open>
  (C24) Creation preempts: a task that is created ready while the scheduler is unlocked runs at once if it is more
  urgent than the running task, and otherwise the running task goes on.
\<close>

theorem task_create_preempts:
  assumes "kernel_ok s" "\<not> live (tasks s t)" "g_sched_lock s = 0" "autorun > 0"
    and "krhino_task_create t name arg pri ticks buf n entry autorun s = (RHINO_SUCCESS, s')"
  shows "g_active_task s' = (if pri < prio (tasks s (g_active_task s)) then t else g_active_task s)"
  by (rule task_create_active [OF assms])

theorem task_create_preempts_witness:
  "g_active_task (snd (krhino_task_create 0x6000 0x9000 0 3 0 0x4000 100 0x8500 1 demo_kernel)) = 0x6000"
  using task_create_preempts [OF demo_ok(1) demo_new_task demo_facts(2), of 1 "0x9000" 0 3 0 "0x4000" 100 "0x8500"]
    demo_create [of 3] by (simp add: demo_facts demo_active prod_eq_iff RHINO_IDLE_PRI_def RHINO_CONFIG_PRI_MAX_def)

text \<open>
  (C26) Yielding is round robin: the running task goes to the tail of the list of its priority and the next
  task of that priority runs, or the same task if there is no other.
\<close>

theorem yield_round_robin:
  assumes "kernel_ok s" "g_intrpt_nested_level s = 0" "g_sched_lock s = 0"
  defines "p \<equiv> prio (tasks s (g_active_task s))" and "s' \<equiv> snd (krhino_task_yield s)"
  defines "ts \<equiv> tl (cur_list_item (g_ready_queue s) p)"
  shows "cur_list_item (g_ready_queue s) p = g_active_task s # ts \<and> cur_list_item (g_ready_queue s') p = ts @ [g_active_task s]
    \<and> g_active_task s' = hd (ts @ [g_active_task s]) \<and> tasks s' = tasks s"
proof -
  note u = urgent_lanes [OF assms(1-3), folded p_def]
  have l: "cur_list_item (g_ready_queue s) p = g_active_task s # ts"
    using u(2,5) by (cases "cur_list_item (g_ready_queue s) p") (simp_all add: ts_def)
  then obtain q where q: "rq_head_to_tail (g_ready_queue s) p = Some q" "cur_list_item q = (cur_list_item (g_ready_queue s))(p := ts @ [g_active_task s])"
    using rq_rotate [OF u(4), of p] by auto
  have e: "s' = core_sched (s\<lparr>g_ready_queue := q\<rparr>)"
    by (simp add: s'_def krhino_task_yield_def ready_list_head_to_tail_def p_def [symmetric] q(1))
  have ok: "kernel_ok s'" using krhino_task_yield_ok [OF assms(1,2)] by (simp add: s'_def)
  obtain v vs where v: "ts @ [g_active_task s] = v # vs" by (cases "ts @ [g_active_task s]") simp_all
  have "g_active_task s' = v"
    using assms(2,3) u(1) by (intro sched_head [OF ok, where p = p]) (simp_all add: e q(2) v)
  then show ?thesis using l q(2) v by (simp add: e)
qed

theorem yield_round_robin_witness:
  "cur_list_item (g_ready_queue (snd (krhino_task_yield demo_kernel))) 5 = tl (cur_list_item (g_ready_queue demo_kernel) 5) @ [timer_tcb]"
  using yield_round_robin [OF demo_ok(1)] by (simp add: demo_facts demo_active)

section \<open>Time slices\<close>

lemma time_slice_step:
  assumes "cur_list_item (g_ready_queue s) (prio (tasks s (g_active_task s))) = t # u # ts" "sched_policy (tasks s t) = KSCHED_RR"
    and "1 < time_slice (tasks s t)"
  shows "time_slice_upd s = upd_task t (\<lambda>k. k\<lparr>time_slice := time_slice k - 1\<rparr>) s"
proof -
  have "0 < time_slice (tasks s t)" "time_slice (tasks s t) - 1 \<noteq> 0" using assms(3) unfolding word_gt_0 by auto
  then show ?thesis using assms by (simp add: time_slice_upd_def Let_def KSCHED_RR_def KSCHED_FIFO_def upd_task_def word_gt_0)
qed

lemma time_slice_last:
  assumes "cur_list_item (g_ready_queue s) p = t # u # ts" "p = prio (tasks s (g_active_task s))" "prio (tasks s t) = p"
    and "sched_policy (tasks s t) = KSCHED_RR" "time_slice (tasks s t) = 1"
  shows "cur_list_item (g_ready_queue (time_slice_upd s)) p = u # ts @ [t]" "time_slice (tasks (time_slice_upd s) t) = time_total (tasks s t)"
  using assms by (simp_all add: time_slice_upd_def Let_def KSCHED_RR_def KSCHED_FIFO_def upd_task_def ready_list_head_to_tail_def rq_head_to_tail_def)

lemma time_slice_run:
  assumes "cur_list_item (g_ready_queue s) (prio (tasks s (g_active_task s))) = t # u # ts" "sched_policy (tasks s t) = KSCHED_RR"
    and "k < unat (time_slice (tasks s t))"
  shows "(time_slice_upd ^^ k) s = upd_task t (\<lambda>x. x\<lparr>time_slice := time_slice (tasks s t) - of_nat k\<rparr>) s"
  using assms(3)
proof (induction k)
  case (Suc k)
  let ?s = "upd_task t (\<lambda>x. x\<lparr>time_slice := time_slice (tasks s t) - of_nat k\<rparr>) s"
  have "unat (time_slice (tasks s t)) < 2 ^ 32" using unsigned_less [of "time_slice (tasks s t)", where 'a = nat] by simp
  then have k: "unat (of_nat k :: u32) = k" using Suc.prems by (simp add: unat_of_nat)
  have "unat (time_slice (tasks s t) - of_nat k) = unat (time_slice (tasks s t)) - k"
    using Suc.prems k by (subst unat_sub) (simp_all add: word_le_nat_alt)
  then have "1 < time_slice (tasks s t) - of_nat k" using Suc.prems by (simp add: word_less_nat_alt)
  then have "time_slice_upd ?s = upd_task t (\<lambda>k. k\<lparr>time_slice := time_slice k - 1\<rparr>) ?s"
    using assms(1,2) by (intro time_slice_step [of _ t u ts]) (auto simp: upd_task_def)
  with Suc show ?case by (simp add: upd_task_def algebra_simps)
qed (simp add: upd_task_def)

text \<open>
  (C25) Round robin by time: if the first ready task of the running priority has the policy \<^verbatim>\<open>KSCHED_RR\<close>, \<open>n\<close>
  ticks of its time slice left and another task behind it, the ticks before the \<open>n\<close>-th leave the ready queue
  as it is, and the \<open>n\<close>-th moves the task to the tail and refills its slice.
\<close>

theorem time_slice_round_robin:
  assumes "kernel_ok s" "p = prio (tasks s (g_active_task s))" "cur_list_item (g_ready_queue s) p = t # u # ts"
    and "sched_policy (tasks s t) = KSCHED_RR" "unat (time_slice (tasks s t)) = n" "0 < n"
  shows "(\<forall>k < n. g_ready_queue ((time_slice_upd ^^ k) s) = g_ready_queue s)
    \<and> cur_list_item (g_ready_queue ((time_slice_upd ^^ n) s)) p = u # ts @ [t]
    \<and> time_slice (tasks ((time_slice_upd ^^ n) s) t) = time_total (tasks s t)"
proof -
  note r = time_slice_run [OF assms(3) [unfolded assms(2)] assms(4), unfolded assms(5)]
  have "rdy_ok (g_ready_queue s) (tasks s)" using kernel_okD(1) [OF assms(1)] kinvD(1) base_okD(1) by blast
  from rdy_ok_mem [OF this, of t p] have t: "prio (tasks s t) = p" using assms(3) by simp
  define s1 where "s1 = (time_slice_upd ^^ (n - 1)) s"
  have s1: "s1 = upd_task t (\<lambda>x. x\<lparr>time_slice := time_slice (tasks s t) - of_nat (n - 1)\<rparr>) s"
    unfolding s1_def using assms(6) by (intro r) simp
  have "time_slice (tasks s t) = of_nat n" unfolding assms(5) [symmetric] by simp
  then have o: "time_slice (tasks s1 t) = 1" using assms(6) by (simp add: s1 upd_task_def of_nat_diff)
  have f: "cur_list_item (g_ready_queue s1) p = t # u # ts" "p = prio (tasks s1 (g_active_task s1))" "prio (tasks s1 t) = p"
    "sched_policy (tasks s1 t) = KSCHED_RR" "time_total (tasks s1 t) = time_total (tasks s t)"
    using assms(3,4) t assms(2) [symmetric] by (simp_all add: s1 upd_task_def)
  note l = time_slice_last [OF f(1-4) o]
  have "(time_slice_upd ^^ n) s = time_slice_upd s1" using assms(6) by (cases n) (simp_all add: s1_def)
  moreover have "g_ready_queue ((time_slice_upd ^^ k) s) = g_ready_queue s" if "k < n" for k
    using r [OF that] by (simp add: upd_task_def)
  ultimately show ?thesis using l f(5) by simp
qed

text \<open>Two tasks of the same priority, the first with three ticks left.\<close>

definition demo_two :: kernel where
  "demo_two = snd (krhino_sched_policy_set timer_tcb KSCHED_RR (snd (krhino_task_time_slice_set timer_tcb 3
     (snd (krhino_task_create 0x6000 0x9000 0 5 0 0x4000 100 0x8500 1 demo_kernel)))))"

lemma demo_two_facts:
  "kernel_ok demo_two" "g_active_task demo_two = timer_tcb" "cur_list_item (g_ready_queue demo_two) 5 = [timer_tcb, 0x6000]"
  "sched_policy (tasks demo_two timer_tcb) = KSCHED_RR" "time_slice (tasks demo_two timer_tcb) = 3" "prio (tasks demo_two timer_tcb) = 5"
  "kreach demo_image demo_two" "ready (tasks demo_two 0x6000)" "prio (tasks demo_two 0x6000) = 5"
  "task_alloc_flag (tasks demo_two 0x6000) = K_OBJ_STATIC_ALLOC" "g_intrpt_nested_level demo_two = 0"
proof -
  define s1 where "s1 = snd (krhino_task_create 0x6000 0x9000 0 5 0 0x4000 100 0x8500 1 demo_kernel)"
  have c: "krhino_task_create 0x6000 0x9000 0 5 0 0x4000 100 0x8500 1 demo_kernel = (RHINO_SUCCESS, s1)"
    using demo_create [of 5] by (simp add: s1_def prod_eq_iff RHINO_IDLE_PRI_def RHINO_CONFIG_PRI_MAX_def)
  have ok: "kernel_ok s1" using krhino_task_create_ok [OF demo_ok(1) demo_new_task] by (simp add: s1_def)
  have a: "g_active_task s1 = timer_tcb"
    using task_create_active [OF demo_ok(1) demo_new_task demo_facts(2) _ c] by (simp add: demo_active demo_facts)
  obtain k where k: "tasks s1 = (tasks demo_kernel)(0x6000 := k)" "g_intrpt_nested_level s1 = 0"
    "g_ready_queue s1 = rq_add_tail (g_ready_queue demo_kernel) 5 0x6000" "ready k" "prio k = 5" "task_alloc_flag k = K_OBJ_STATIC_ALLOC"
    using task_create_started [OF demo_ok(1) _ c] by auto
  then have q: "cur_list_item (g_ready_queue s1) 5 = [timer_tcb, 0x6000]"
    by (simp add: rq_add_tail_def is_ready_list_empty_def demo_lane)
  show "kernel_ok demo_two" unfolding demo_two_def s1_def [symmetric] by (intro krhino_task_setters_ok ok)
  show "g_active_task demo_two = timer_tcb" "cur_list_item (g_ready_queue demo_two) 5 = [timer_tcb, 0x6000]"
    "sched_policy (tasks demo_two timer_tcb) = KSCHED_RR" "time_slice (tasks demo_two timer_tcb) = 3" "prio (tasks demo_two timer_tcb) = 5"
    "ready (tasks demo_two 0x6000)" "prio (tasks demo_two 0x6000) = 5"
    "task_alloc_flag (tasks demo_two 0x6000) = K_OBJ_STATIC_ALLOC" "g_intrpt_nested_level demo_two = 0"
    using a q k unfolding demo_two_def s1_def [symmetric]
    by (simp_all add: krhino_sched_policy_set_def krhino_task_time_slice_set_def upd_task_def Let_def demo_facts ready_def)
  show "kreach demo_image demo_two" unfolding demo_two_def
    by (rule kreach.step [OF kreach.step [OF kreach.step [OF demo_reach(2) kstep.task_create [OF demo_new_task]] kstep.task_time_slice_set]
        kstep.sched_policy_set])
qed

theorem time_slice_round_robin_witness:
  "cur_list_item (g_ready_queue ((time_slice_upd ^^ 3) demo_two)) 5 = [0x6000, timer_tcb]
   \<and> g_ready_queue ((time_slice_upd ^^ 2) demo_two) = g_ready_queue demo_two"
  using time_slice_round_robin [OF demo_two_facts(1), of 5 timer_tcb "0x6000" "[]" 3] by (simp add: demo_two_facts)

section \<open>The scheduler lock and interrupts\<close>

text \<open>
  (C29) The lock of the scheduler never exceeds \<^verbatim>\<open>SCHED_MAX_LOCK_COUNT\<close>, so that its counter of 8 bits does not
  wrap: in every reachable state \<^verbatim>\<open>krhino_sched_disable\<close> adds one below 200, and at 200 it reports
  \<^verbatim>\<open>RHINO_SCHED_LOCK_COUNT_OVF\<close> and changes nothing.
\<close>

theorem sched_lock_bounded:
  assumes "kreach img s" "image_ok img"
  shows "unat (g_sched_lock s) \<le> 200 \<and> (g_intrpt_nested_level s = 0 \<longrightarrow>
    (if unat (g_sched_lock s) < 200
     then fst (krhino_sched_disable s) = RHINO_SUCCESS
       \<and> unat (g_sched_lock (snd (krhino_sched_disable s))) = unat (g_sched_lock s) + 1
     else krhino_sched_disable s = (RHINO_SCHED_LOCK_COUNT_OVF, s)))"
proof -
  have l: "unat (g_sched_lock s) \<le> 200"
    using kreach_ok [OF assms] kernel_okD(2) by (auto simp: sched_ok_def SCHED_MAX_LOCK_COUNT_def word_le_nat_alt)
  then have "unat (g_sched_lock s + 1) = unat (g_sched_lock s) + 1" by (simp add: unat_word_ariths)
  with l show ?thesis by (simp add: krhino_sched_disable_def SCHED_MAX_LOCK_COUNT_def word_le_nat_alt)
qed

theorem sched_lock_bounded_witness: "unat (g_sched_lock (snd (krhino_sched_disable demo_kernel))) = 1"
  using sched_lock_bounded [OF demo_reach(2) demo_image_ok] by (simp add: demo_facts)

text \<open>
  (C27) Leaving an interrupt reschedules at the outermost level only: an inner exit leaves the running task, the
  outermost one switches, if the scheduler is not locked, to a ready task such that no ready task is more urgent.
\<close>

theorem interrupt_exit_switches:
  assumes "kernel_ok s" "g_intrpt_nested_level s > 0" "ready (tasks s u)"
  defines "s' \<equiv> krhino_intrpt_exit s"
  shows "tasks s' = tasks s \<and> unat (g_intrpt_nested_level s') = unat (g_intrpt_nested_level s) - 1
    \<and> (if unat (g_intrpt_nested_level s) = 1 \<and> g_sched_lock s = 0
       then ready (tasks s (g_active_task s')) \<and> prio (tasks s (g_active_task s')) \<le> prio (tasks s u)
       else g_active_task s' = g_active_task s)"
proof -
  let ?s = "s\<lparr>g_intrpt_nested_level := g_intrpt_nested_level s - 1\<rparr>"
  have e: "s' = core_sched ?s" by (simp add: s'_def krhino_intrpt_exit_eq)
  have n: "unat (g_intrpt_nested_level s - 1) = unat (g_intrpt_nested_level s) - 1" using assms(2) by (simp add: unat_minus_one word_gt_0)
  have ok: "kernel_ok s'" using krhino_intrpt_exit_ok [OF assms(1)] by (simp add: s'_def)
  show ?thesis
  proof (cases "unat (g_intrpt_nested_level s) = 1 \<and> g_sched_lock s = 0")
    case True
    then have "g_intrpt_nested_level s' = 0" "g_sched_lock s' = 0" using n by (simp_all add: e unat_eq_0)
    from active_most_urgent [OF ok this] assms(3) True n show ?thesis by (simp add: e)
  next
    case False
    then have "g_intrpt_nested_level s - 1 > 0 \<or> g_sched_lock s > 0"
      using n assms(2) by (auto simp: word_gt_0 unat_eq_0 [symmetric])
    then have "g_active_task s' = g_active_task s" by (auto simp: e core_sched_def)
    with False n show ?thesis by (auto simp: e)
  qed
qed

theorem interrupt_exit_switches_witness:
  "g_intrpt_nested_level (snd (krhino_intrpt_enter demo_kernel)) = 1
   \<and> prio (tasks demo_kernel (g_active_task (krhino_intrpt_exit (snd (krhino_intrpt_enter demo_kernel))))) \<le> prio (tasks demo_kernel wq_task)"
proof -
  have "kernel_ok (snd (krhino_intrpt_enter demo_kernel))"
    by (rule krhino_intrpt_enter_ok [OF demo_ok(1)]) (simp add: demo_facts)
  from interrupt_exit_switches [OF this, of wq_task] show ?thesis by (simp add: krhino_intrpt_enter_def demo_facts)
qed

section \<open>Suspension\<close>

lemma list_ops_tasks:
  "tasks (ready_list_rm t s) = tasks s" "tasks (ready_list_add t s) = tasks s" "g_sched_lock (ready_list_rm t s) = g_sched_lock s"
  "g_sched_lock (ready_list_add t s) = g_sched_lock s"
  by (simp_all add: ready_list_rm_def ready_list_add_def ready_list_add_tail_def ready_list_add_head_def fault_def split: option.split)

lemma suspend_step:
  assumes "t \<noteq> NULL" "prio (tasks s t) \<noteq> RHINO_IDLE_PRI" "g_sched_lock s = 0"
    and "ready (tasks s t) \<and> c = 1 \<or> task_state (tasks s t) = K_SUSPENDED \<and> suspend_count (tasks s t) \<noteq> - 1 \<and> c = suspend_count (tasks s t) + 1"
  shows "tasks (snd (krhino_task_suspend t s)) = (tasks s)(t := (tasks s t)\<lparr>suspend_count := c, task_state := K_SUSPENDED\<rparr>)"
    "g_sched_lock (snd (krhino_task_suspend t s)) = 0" "fst (krhino_task_suspend t s) = RHINO_SUCCESS"
  using assms by (auto simp: krhino_task_suspend_def task_suspend_def ready_def Let_def upd_task_def list_ops_tasks fun_upd_def)

lemma resume_step:
  assumes "t \<noteq> NULL" "task_state (tasks s t) = K_SUSPENDED"
  shows "tasks (snd (krhino_task_resume t s)) = (tasks s)(t := (tasks s t)\<lparr>suspend_count := suspend_count (tasks s t) - 1,
    task_state := (if suspend_count (tasks s t) = 1 then K_RDY else K_SUSPENDED)\<rparr>)"
  using assms by (auto simp: krhino_task_resume_def task_resume_def Let_def upd_task_def list_ops_tasks)

lemma u8_of_nat: "m \<le> 255 \<Longrightarrow> unat (of_nat m :: u8) = m"
  by (simp add: unat_of_nat)

lemma suspend_times:
  assumes "ready (tasks s t)" "t \<noteq> NULL" "prio (tasks s t) \<noteq> RHINO_IDLE_PRI" "g_sched_lock s = 0" "n < 255"
  defines "S \<equiv> \<lambda>s. snd (krhino_task_suspend t s)"
  shows "tasks ((S ^^ Suc n) s) = (tasks s)(t := (tasks s t)\<lparr>suspend_count := of_nat (Suc n), task_state := K_SUSPENDED\<rparr>)
    \<and> g_sched_lock ((S ^^ Suc n) s) = 0"
  using assms(5)
proof (induction n)
  case 0
  show ?case using suspend_step(1,2) [OF assms(2-4), of 1] assms(1) by (simp add: S_def)
next
  case (Suc n)
  define s1 where "s1 = (S ^^ Suc n) s"
  note i = Suc.IH [OF Suc_lessD [OF Suc.prems], folded s1_def, THEN conjunct1] Suc.IH [OF Suc_lessD [OF Suc.prems], folded s1_def, THEN conjunct2]
  have c: "(of_nat (Suc n) :: u8) \<noteq> - 1"
  proof
    assume "(of_nat (Suc n) :: u8) = - 1"
    moreover have "(- 1 :: u8) = 255" by simp
    ultimately have "unat (of_nat (Suc n) :: u8) = unat (255 :: u8)" by (simp only:)
    then have "unat (of_nat (Suc n) :: u8) = 255" by simp
    with u8_of_nat [of "Suc n"] Suc.prems show False by linarith
  qed
  have p: "prio (tasks s1 t) \<noteq> RHINO_IDLE_PRI" "task_state (tasks s1 t) = K_SUSPENDED" "suspend_count (tasks s1 t) = of_nat (Suc n)"
    using assms(3) by (simp_all add: i(1))
  have "tasks (snd (krhino_task_suspend t s1)) = (tasks s1)(t := (tasks s1 t)\<lparr>suspend_count := of_nat (Suc (Suc n)), task_state := K_SUSPENDED\<rparr>)"
    "g_sched_lock (snd (krhino_task_suspend t s1)) = 0"
    using c p(2,3) by (intro suspend_step [OF assms(2) p(1) i(2), where c = "of_nat (Suc (Suc n))"], simp)+
  moreover have "(S ^^ Suc (Suc n)) s = snd (krhino_task_suspend t s1)" unfolding s1_def by simp (simp add: S_def)
  moreover have "(tasks s1)(t := (tasks s1 t)\<lparr>suspend_count := of_nat (Suc (Suc n)), task_state := K_SUSPENDED\<rparr>)
      = (tasks s)(t := (tasks s t)\<lparr>suspend_count := of_nat (Suc (Suc n)), task_state := K_SUSPENDED\<rparr>)"
    unfolding i(1) by simp
  ultimately show ?case by (simp only: simp_thms)
qed

lemma resume_times:
  assumes "t \<noteq> NULL" "tasks s = T(t := (T t)\<lparr>suspend_count := of_nat n, task_state := K_SUSPENDED\<rparr>)" "n \<le> 255" "k < n"
  defines "R \<equiv> \<lambda>s. snd (krhino_task_resume t s)"
  shows "tasks ((R ^^ k) s) = T(t := (T t)\<lparr>suspend_count := of_nat (n - k), task_state := K_SUSPENDED\<rparr>)"
  using assms(4)
proof (induction k)
  case (Suc k)
  define s1 where "s1 = (R ^^ k) s"
  have i: "tasks s1 = T(t := (T t)\<lparr>suspend_count := of_nat (n - k), task_state := K_SUSPENDED\<rparr>)" using Suc.IH [OF Suc_lessD [OF Suc.prems]] unfolding s1_def .
  have u: "unat (of_nat (n - k) :: u8) = n - k" using assms(3) by (intro u8_of_nat) simp
  have c: "(of_nat (n - k) :: u8) \<noteq> 1"
  proof
    assume "(of_nat (n - k) :: u8) = 1"
    then have "unat (of_nat (n - k) :: u8) = 1" by (simp only: unsigned_1)
    with u Suc.prems show False by linarith
  qed
  have "(of_nat (n - k) :: u8) - 1 = of_nat (n - Suc k)" using Suc.prems by (simp add: of_nat_diff)
  then have "tasks (snd (krhino_task_resume t s1)) = T(t := (T t)\<lparr>suspend_count := of_nat (n - Suc k), task_state := K_SUSPENDED\<rparr>)"
    using resume_step [OF assms(1), of s1] c by (simp add: i)
  moreover have "(R ^^ Suc k) s = snd (krhino_task_resume t s1)" by (simp add: s1_def) (simp add: R_def)
  ultimately show ?case by (simp only:)
qed (simp add: assms(2))

text \<open>
  (C28) Suspension nests: a ready task that was suspended \<open>n\<close> times (at most 255, the range of the counter) stays
  suspended for the first \<open>n - 1\<close> resumptions and is ready after the \<open>n\<close>-th, unchanged but for its counter, and no other
  task is changed.
\<close>

theorem suspend_resume_nesting:
  fixes t :: tid
  assumes "ready (tasks s t)" "t \<noteq> NULL" "prio (tasks s t) \<noteq> RHINO_IDLE_PRI" "g_sched_lock s = 0" "0 < n" "n \<le> 255"
  defines "S \<equiv> \<lambda>s. snd (krhino_task_suspend t s)" and "R \<equiv> \<lambda>s. snd (krhino_task_resume t s)"
  shows "(\<forall>k < n. task_state (tasks ((R ^^ k) ((S ^^ n) s)) t) = K_SUSPENDED)
    \<and> tasks ((R ^^ n) ((S ^^ n) s)) = (tasks s)(t := (tasks s t)\<lparr>suspend_count := 0\<rparr>)"
proof -
  obtain m where m: "n = Suc m" using assms(5) by (cases n) simp_all
  have T: "tasks ((S ^^ n) s) = (tasks s)(t := (tasks s t)\<lparr>suspend_count := of_nat n, task_state := K_SUSPENDED\<rparr>)"
    unfolding m using suspend_times [OF assms(1-4), of m, folded S_def, THEN conjunct1] assms(6) m by simp
  note r = resume_times [OF assms(2) T assms(6), folded R_def]
  define s1 where "s1 = (R ^^ m) ((S ^^ n) s)"
  have s1: "tasks s1 = (tasks s)(t := (tasks s t)\<lparr>suspend_count := 1, task_state := K_SUSPENDED\<rparr>)"
    unfolding s1_def using r [of m] by (simp add: m)
  have "(tasks s t)\<lparr>suspend_count := 0, task_state := K_RDY\<rparr> = (tasks s t)\<lparr>suspend_count := 0\<rparr>"
    using assms(1) by (intro ktask.equality) (simp_all add: ready_def)
  then have "tasks (snd (krhino_task_resume t s1)) = (tasks s)(t := (tasks s t)\<lparr>suspend_count := 0\<rparr>)"
    using resume_step [OF assms(2), of s1] by (simp add: s1)
  moreover have "(R ^^ n) ((S ^^ n) s) = snd (krhino_task_resume t s1)" unfolding s1_def by (simp add: m) (simp add: R_def)
  ultimately show ?thesis using r by simp
qed

theorem suspend_resume_nesting_witness:
  "task_state (tasks (((\<lambda>s. snd (krhino_task_resume wq_task s)) ^^ 1) (((\<lambda>s. snd (krhino_task_suspend wq_task s)) ^^ 2) demo_kernel)) wq_task) = K_SUSPENDED
   \<and> ready (tasks (((\<lambda>s. snd (krhino_task_resume wq_task s)) ^^ 2) (((\<lambda>s. snd (krhino_task_suspend wq_task s)) ^^ 2) demo_kernel)) wq_task)"
proof -
  have w: "ready (tasks demo_kernel wq_task)" "wq_task \<noteq> NULL" "prio (tasks demo_kernel wq_task) \<noteq> RHINO_IDLE_PRI"
    by (simp_all add: demo_facts RHINO_IDLE_PRI_def RHINO_CONFIG_PRI_MAX_def)
  have "(\<forall>k < 2. task_state (tasks (((\<lambda>s. snd (krhino_task_resume wq_task s)) ^^ k) (((\<lambda>s. snd (krhino_task_suspend wq_task s)) ^^ 2) demo_kernel)) wq_task) = K_SUSPENDED)
    \<and> tasks (((\<lambda>s. snd (krhino_task_resume wq_task s)) ^^ 2) (((\<lambda>s. snd (krhino_task_suspend wq_task s)) ^^ 2) demo_kernel))
      = (tasks demo_kernel)(wq_task := (tasks demo_kernel wq_task)\<lparr>suspend_count := 0\<rparr>)"
    by (rule suspend_resume_nesting [OF w demo_facts(2)]) simp_all
  note w2 = this [THEN conjunct1, rule_format, of 1] this [THEN conjunct2]
  show ?thesis using w(1) w2(1) by (simp add: w2(2) ready_def)
qed

section \<open>Start-up\<close>

text \<open>
  (C30) On a well-formed image \<^verbatim>\<open>krhino_init\<close> returns success and \<^verbatim>\<open>krhino_start\<close> does not return: afterwards the
  system runs, the ready tasks are the memory task, the idle task, the worker of the default work queue and the timer
  task, at their configured priorities, and the timer task, as the most urgent one, is running.
\<close>

theorem start_up:
  assumes "image_ok img"
  defines "k \<equiv> kern (snd (krhino_init img (zero_ksys img)))"
  defines "s \<equiv> snd (krhino_start k)"
  shows "fst (krhino_init img (zero_ksys img)) = RHINO_SUCCESS \<and> fst (krhino_start k) = None \<and> kernel_ok s
    \<and> {t. ready (tasks s t)} = {i_dyn_task img, i_idle_task img, i_wq_worker img (i_workqueue img), i_timer_task img}
    \<and> prio (tasks s (i_dyn_task img)) = 6 \<and> prio (tasks s (i_idle_task img)) = 61
    \<and> prio (tasks s (i_wq_worker img (i_workqueue img))) = 20 \<and> prio (tasks s (i_timer_task img)) = 5
    \<and> g_active_task s = i_timer_task img \<and> g_sys_stat s = RHINO_RUNNING"
proof -
  let ?w = "i_wq_worker img (i_workqueue img)"
  have z: "\<not> ready zero_task" by (simp add: zero_task_def state_defs)
  obtain kd ki kw kt where T: "tasks k = (\<lambda>_. zero_task)(i_dyn_task img := kd, i_idle_task img := ki, ?w := kw, i_timer_task img := kt)"
      "ready kd" "prio kd = 6" "ready ki" "prio ki = 61" "ready kw" "prio kw = 20" "ready kt" "prio kt = 5"
    and b: "boot_ok k" "g_idle_task_spawned k > 0" and i: "fst (krhino_init img (zero_ksys img)) = RHINO_SUCCESS"
    unfolding k_def by (rule krhino_init_ok [OF assms(1)]) (simp add: sys_config_defs RHINO_IDLE_PRI_def RHINO_CONFIG_PRI_MAX_def)
  have d: "distinct [i_dyn_task img, i_idle_task img, ?w, i_timer_task img]" using assms(1) by (simp add: image_ok_def Let_def)
  have ok: "kernel_ok s" "fst (krhino_start k) = None" using boot_start [OF b] by (simp_all add: s_def)
  have f: "tasks s = tasks k" "g_intrpt_nested_level s = 0" "g_sched_lock s = 0"
    using b(1) by (simp_all add: s_def krhino_start_fields boot_ok_def)
  have r: "ready (tasks s t) \<longleftrightarrow> t \<in> {i_dyn_task img, i_idle_task img, ?w, i_timer_task img}" for t
    using T z by (simp add: f(1))
  have p: "prio (tasks s (i_dyn_task img)) = 6" "prio (tasks s (i_idle_task img)) = 61" "prio (tasks s ?w) = 20" "prio (tasks s (i_timer_task img)) = 5"
    using T d by (simp_all add: f(1))
  have "g_active_task s = i_timer_task img" by (rule active_is [OF ok(1) f(2,3)]) (use r p in auto)
  moreover have "g_sys_stat s = RHINO_RUNNING" using kernel_okD(2) [OF ok(1)] by (simp add: sched_ok_def)
  ultimately show ?thesis using i ok p r by (simp add: set_eq_iff)
qed

theorem start_up_witness:
  "g_active_task demo_kernel = 0x1500 \<and> g_sys_stat demo_kernel = RHINO_RUNNING \<and> fst (krhino_init demo_image (zero_ksys demo_image)) = RHINO_SUCCESS"
  using start_up [OF demo_image_ok] by (simp add: demo_kernel_def demo_boot_def demo_image_def)

end
