(* ===== verification/Rhino_Locking.thy ===== *)
theory Rhino_Locking
  imports Rhino_Scheduling
begin

text \<open>
  Mutexes: exact priority inheritance in all reachable states, what a lock and an unlock do with and
  without contention, the changes of priorities that run along chains of owners, and the deletion of tasks
  and mutexes.
\<close>

section \<open>Priority inheritance\<close>

lemma target_Min:
  "s_target no_extra s t = Min (insert (b_prio (tasks s t)) {prio (tasks s w) |w m. obj_type (objs s m) = RHINO_MUTEX_OBJ_TYPE
     \<and> mutex_task (mutexes s m) = t \<and> w \<in> set (blk_list (objs s m))})"
proof -
  have "{prio (tasks s w) |w m. obj_type (objs s m) = RHINO_MUTEX_OBJ_TYPE \<and> mutex_task (mutexes s m) = t \<and> w \<in> set (blk_list (objs s m))}
    = (\<lambda>w. prio (tasks s w)) ` s_waiters s t"
    by (auto simp: waiters_def owned_def)
  then show ?thesis by (simp add: pri_target_def)
qed

text \<open>
  (C4) Priority inheritance is exact: in every reachable state the priority of a task is the most urgent of its
  base priority and the priorities of the tasks that wait for the mutexes it holds, so that it is raised as long
  as, and only as long as, a more urgent task waits for it, along chains of any length.
\<close>

theorem priority_inheritance_exact:
  assumes "kreach img s" "image_ok img" "live (tasks s t)"
  shows "prio (tasks s t) = Min (insert (b_prio (tasks s t)) {prio (tasks s w) |w m. obj_type (objs s m) = RHINO_MUTEX_OBJ_TYPE
     \<and> mutex_task (mutexes s m) = t \<and> w \<in> set (blk_list (objs s m))})"
proof -
  have "s_pi_ok s" using kreach_ok [OF assms(1,2)] kernel_okD(1) kinvD(4) by blast
  with assms(3) show ?thesis by (simp add: pi_ok_def pi_exact_def target_Min)
qed

section \<open>Lock and unlock\<close>

lemma lock_contended:
  assumes "may_block s" "is_mutex (objs s) m" "mutex_task (mutexes s m) = h" "h \<noteq> NULL" "h \<noteq> g_active_task s" "ticks \<noteq> RHINO_NO_WAIT"
    and "g_sched_lock s = 0"
  defines "t \<equiv> g_active_task s" and "s' \<equiv> snd (krhino_mutex_lock m ticks s)"
  shows "fst (krhino_mutex_lock m ticks s) = Pending" "mutexes s' = mutexes s" "tasks s' t = blocked m ticks (g_tick_count s) (tasks s t)"
    "set (blk_list (objs s' m)) = insert t (set (blk_list (objs s m)))" "obj_type (objs s' i) = obj_type (objs s i)"
    "prio (tasks s' h) \<le> prio (tasks s t)" "u \<noteq> t \<Longrightarrow> tasks s' u = (tasks s u)\<lparr>prio := prio (tasks s' u)\<rparr>"
    "g_active_task s' \<noteq> t" "kernel_ok s'" "g_intrpt_nested_level s' = 0" "g_sched_lock s' = 0"
proof -
  note b = may_blockD [OF assms(1)]
  have nest: "g_intrpt_nested_level s = 0" using assms(1) by (simp add: may_block_def)
  have st: "g_sys_stat s \<noteq> RHINO_STOPPED" using kernel_okD(2) [OF b(1)] by (simp add: sched_ok_def)
  have m0: "m \<noteq> NULL" using kinv_mutex_policy [OF b(2) assms(2)] by simp
  define s1 where "s1 = (if prio (tasks s t) < prio (tasks s h) then pri_change h (prio (tasks s t)) s else s)"
  define s2 where "s2 = pend_to_blk_obj m t ticks s1"
  have L: "krhino_mutex_lock m ticks s = (Pending, core_sched s2)"
    using assms(2-7) nest st m0 by (simp add: krhino_mutex_lock_def Let_def t_def s1_def s2_def)
  then have e: "s' = core_sched s2" by (simp add: s'_def)
  note I = inherit_block_kinv [OF b(2) b(3,4) assms(2-5), folded t_def, folded s1_def]
  have rd: "ready (tasks s1 t)" using b(3) reprio_task(9) [OF I(2)] by (simp add: t_def)
  have "some_other_ready (tasks s) t" using kinv_other [OF b(2,4)] by (simp add: t_def)
  then have so: "some_other_ready (tasks s1) t" using reprio_task(9) [OF I(2)] by (simp add: some_other_ready_def)
  obtain q ts where P: "s2 = s1\<lparr>g_ready_queue := q, g_tick_head := ts,
      objs := (objs s1)(m := (objs s1 m)\<lparr>blk_list := block_order (objs s1 m) (tasks s1) t\<rparr>),
      tasks := (tasks s1)(t := blocked m ticks (g_tick_count s1) (tasks s1 t))\<rparr>"
    using pend_to_blk_obj_spec(2) [OF I(3) rd so, of m ticks] by (auto simp: s2_def)
  have T: "tasks s1 u = (tasks s u)\<lparr>prio := prio (tasks s1 u)\<rparr>" for u using I(2) by (auto simp: reprio_def)
  then have "tasks s1 t = tasks s t" using I(4) by (metis ktask.surjective ktask.update_convs(24))
  moreover have "g_tick_count s1 = g_tick_count s" "mutexes s1 = mutexes s" using reprio_frame [OF I(2)] by simp_all
  ultimately show t': "mutexes s' = mutexes s" "tasks s' t = blocked m ticks (g_tick_count s) (tasks s t)" by (simp_all add: e P)
  show set': "set (blk_list (objs s' m)) = insert t (set (blk_list (objs s m)))" "obj_type (objs s' i) = obj_type (objs s i)" for i
    using reprio_obj [OF I(2)] by (simp_all add: e P set_block_order)
  show "u \<noteq> t \<Longrightarrow> tasks s' u = (tasks s u)\<lparr>prio := prio (tasks s' u)\<rparr>" using T [of u] by (simp add: e P)
  show "fst (krhino_mutex_lock m ticks s) = Pending" by (simp add: L)
  show ok: "kernel_ok s'" using krhino_mutex_lock_ok [OF assms(1)] by (simp add: s'_def)
  have "t \<in> s_waiters s' h" using set' t'(1) assms(2,3) by (auto simp: waiters_def owned_def)
  then have "s_target no_extra s' h \<le> prio (tasks s' t)" by (rule pri_target_le(2))
  moreover have "mutex_wf (objs s') (mutexes s') (tasks s') m" using mtx_okD(3) [OF kinvD(3) [OF kernel_okD(1) [OF ok]]] set'(2) assms(2) by simp
  then have "live (tasks s' h)" using t'(1) assms(3,4) by (simp add: mutex_wf_def)
  ultimately show "prio (tasks s' h) \<le> prio (tasks s t)"
    using kinvD(4) [OF kernel_okD(1) [OF ok]] t'(2) by (simp add: pi_ok_def pi_exact_def)
  show n': "g_intrpt_nested_level s' = 0" "g_sched_lock s' = 0" using reprio_frame [OF I(2)] nest assms(7) by (simp_all add: e P)
  have "ready (tasks s' (g_active_task s'))" by (rule active_ready [OF ok n'(1)])
  moreover have "\<not> ready (tasks s' t)" by (simp add: t' ready_def)
  ultimately show "g_active_task s' \<noteq> t" by metis
qed

text \<open>
  (C11) A lock of a mutex that another task holds waits: the caller is queued at the mutex and no longer ready, the
  holder keeps the mutex and is from now on at least as urgent as the caller, no base priority is
  changed, and another task runs.
\<close>

theorem mutex_lock_contended:
  assumes "may_block s" "obj_type (objs s m) = RHINO_MUTEX_OBJ_TYPE" "mutex_task (mutexes s m) = h" "h \<noteq> NULL" "h \<noteq> g_active_task s"
    and "ticks \<noteq> RHINO_NO_WAIT" "g_sched_lock s = 0"
  defines "t \<equiv> g_active_task s" and "s' \<equiv> snd (krhino_mutex_lock m ticks s)"
  shows "fst (krhino_mutex_lock m ticks s) = Pending \<and> t \<in> set (blk_list (objs s' m)) \<and> task_state (tasks s' t) = K_PEND
    \<and> mutex_task (mutexes s' m) = h \<and> prio (tasks s' h) \<le> prio (tasks s t) \<and> b_prio (tasks s' u) = b_prio (tasks s u)
    \<and> g_active_task s' \<noteq> t"
proof -
  note l = lock_contended [OF assms(1-7), folded t_def, folded s'_def]
  have "b_prio (tasks s' u) = b_prio (tasks s u)"
    using l(3) l(7) [of u] by (cases "u = t") (simp, metis ktask.update_convs(24) ktask.select_convs(25) ktask.surjective)
  with l assms(3) show ?thesis by simp
qed

lemma lock_free:
  assumes "may_block s" "is_mutex (objs s) m" "mutex_task (mutexes s m) = NULL"
  shows "krhino_mutex_lock m ticks s = (Ret RHINO_SUCCESS,
    s\<lparr>mutexes := (mutexes s)(m := (mutexes s m)\<lparr>mutex_task := g_active_task s, mutex_next := mutex_list (tasks s (g_active_task s)), owner_nested := 1\<rparr>),
      tasks := (tasks s)(g_active_task s := (tasks s (g_active_task s))\<lparr>mutex_list := m\<rparr>)\<rparr>)" "m \<noteq> NULL" "g_active_task s \<noteq> NULL"
proof -
  note b = may_blockD [OF assms(1)]
  have nest: "g_intrpt_nested_level s = 0" using assms(1) by (simp add: may_block_def)
  have st: "g_sys_stat s \<noteq> RHINO_STOPPED" using kernel_okD(2) [OF b(1)] by (simp add: sched_ok_def)
  show m0: "m \<noteq> NULL" using kinv_mutex_policy [OF b(2) assms(2)] by simp
  have "live (tasks s (g_active_task s))" using b(3) dead_not by blast
  then show t0: "g_active_task s \<noteq> NULL" by (rule mtx_okD(2) [OF kinvD(3) [OF b(2)]])
  show "krhino_mutex_lock m ticks s = (Ret RHINO_SUCCESS,
    s\<lparr>mutexes := (mutexes s)(m := (mutexes s m)\<lparr>mutex_task := g_active_task s, mutex_next := mutex_list (tasks s (g_active_task s)), owner_nested := 1\<rparr>),
      tasks := (tasks s)(g_active_task s := (tasks s (g_active_task s))\<lparr>mutex_list := m\<rparr>)\<rparr>)"
    using assms(2,3) nest st m0 t0 by (simp add: krhino_mutex_lock_def Let_def upd_defs)
qed

text \<open>
  (C12) A lock of a free mutex succeeds, and unlocking it again restores the tasks, with their priorities and
  chains of mutexes, the wait lists, the ready queue and all other mutexes.
\<close>

theorem mutex_lock_unlock:
  fixes ticks :: tick_t
  assumes "may_block s" "obj_type (objs s m) = RHINO_MUTEX_OBJ_TYPE" "mutex_task (mutexes s m) = NULL"
  defines "s1 \<equiv> snd (krhino_mutex_lock m ticks s)"
  defines "s2 \<equiv> snd (krhino_mutex_unlock m s1)"
  shows "fst (krhino_mutex_lock m ticks s) = Ret RHINO_SUCCESS \<and> mutex_task (mutexes s1 m) = g_active_task s
    \<and> fst (krhino_mutex_unlock m s1) = RHINO_SUCCESS \<and> mutex_task (mutexes s2 m) = NULL
    \<and> tasks s2 = tasks s \<and> objs s2 = objs s \<and> g_ready_queue s2 = g_ready_queue s \<and> (i \<noteq> m \<longrightarrow> mutexes s2 i = mutexes s i)"
proof -
  note b = may_blockD [OF assms(1)]
  define t where "t = g_active_task s"
  have rd: "ready (tasks s t)" using b(3) by (simp add: t_def)
  have lv: "live (tasks s t)" using rd dead_not by blast
  have nest: "g_intrpt_nested_level s = 0" using assms(1) by (simp add: may_block_def)
  have st: "g_sys_stat s \<noteq> RHINO_STOPPED" using kernel_okD(2) [OF b(1)] by (simp add: sched_ok_def)
  note m0 = lock_free(2) [OF assms(1-3)]
  have mt: "s_mtx_ok s" "s_pi_ok s" "blk_ok (objs s) (tasks s)" using kinvD [OF b(2)] base_okD(2) by blast+
  have t0: "t \<noteq> NULL" using lock_free(3) [OF assms(1-3)] by (simp add: t_def)
  obtain zs where zs: "chain_of (mutexes s) (tasks s t) zs" "set zs = s_owned s t" using mtx_okD(1) [OF mt(1) lv] by blast
  have mz: "m \<notin> set zs" using zs(2) assms(3) t0 by (simp add: owned_def)
  have bl: "blk_list (objs s m) = []" using detach_free(2) [OF b(2) assms(2,3)] .
  define n where "n = mutex_list (tasks s t)"
  have L: "krhino_mutex_lock m ticks s = (Ret RHINO_SUCCESS, s\<lparr>mutexes := (mutexes s)(m := (mutexes s m)\<lparr>mutex_task := t, mutex_next := n, owner_nested := 1\<rparr>),
      tasks := (tasks s)(t := (tasks s t)\<lparr>mutex_list := m\<rparr>)\<rparr>)"
    using lock_free(1) [OF assms(1-3)] by (simp add: t_def n_def)
  define s1n where "s1n = s\<lparr>tasks := (tasks s)(t := (tasks s t)\<lparr>mutex_list := m\<rparr>),
      mutexes := (mutexes s)(m := (mutexes s m)\<lparr>mutex_task := t, mutex_next := n, owner_nested := 0\<rparr>)\<rparr>"
  have f: "mutex_list (tasks s1n t) = m" "mutex_next (mutexes s1n m) = n" by (simp_all add: s1n_def)
  have "mutex_next (mutexes s1n i) = mutex_next (mutexes s i)" if "i \<in> set zs" for i using that mz by (auto simp: s1n_def)
  then have c: "mchain (\<lambda>m. mutex_next (mutexes s1n m)) n zs"
    using zs(1) mchain_cong [of zs "\<lambda>m. mutex_next (mutexes s1n m)" "\<lambda>m. mutex_next (mutexes s m)" n] by (simp add: chain_of_def n_def)
  have ch: "chain_of (mutexes s1n) (tasks s1n t) ([] @ m # zs)"
    using c m0 by (simp add: chain_of_def f)
  have fp: "first_blk_pri s1n i a = first_blk_pri s i a" for i a
    by (simp add: first_blk_pri_def s1n_def split: list.split)
  have "chain_pri s1n a xs = chain_pri s a xs" for a xs by (induction xs arbitrary: a) (simp_all add: fp)
  then have "chain_pri s1n (b_prio (tasks s1n t)) zs = prio (tasks s t)"
    using chain_pri_target [OF mt(3,1) zs(2)] mt(2) lv by (simp add: s1n_def pi_ok_def pi_exact_def)
  then have "mutex_pri_look t m s1n = Some (prio (tasks s t), s1n\<lparr>tasks := tasks s\<rparr>)"
    using mutex_pri_look_unlink(1) [OF ch] by (simp add: unlinked_def last_link_def upd_defs s1n_def n_def)
  then have R: "mutex_release t m s1n = s1n\<lparr>tasks := tasks s\<rparr>" by (simp add: mutex_release_def)
  have U: "krhino_mutex_unlock m s1 = (RHINO_SUCCESS, upd_mutex m (\<lambda>x. x\<lparr>mutex_task := NULL\<rparr>) (s1n\<lparr>tasks := tasks s\<rparr>))"
    using assms(2) nest st m0 bl R unfolding krhino_mutex_unlock_def s1_def L Let_def upd_mutex_def
    by (simp add: s1n_def t_def [symmetric])
  show ?thesis using L U by (simp add: s2_def s1_def upd_mutex_def s1n_def t_def)
qed

text \<open>
  (C10) The last unlock of a mutex with waiting tasks hands it over: the first of them, than which no other waiting task is
  more urgent, becomes the owner with one nested lock and no longer waits, the others go on waiting, no other mutex
  changes its owner, and the former owner falls back to the priority that the mutexes it still holds give it.
\<close>

theorem mutex_unlock_hands_over:
  assumes "kernel_ok s" "g_intrpt_nested_level s = 0" "obj_type (objs s m) = RHINO_MUTEX_OBJ_TYPE" "mutex_task (mutexes s m) = g_active_task s"
    and "owner_nested (mutexes s m) = 1" "blk_list (objs s m) = w # ws"
  defines "s' \<equiv> snd (krhino_mutex_unlock m s)"
  shows "fst (krhino_mutex_unlock m s) = RHINO_SUCCESS \<and> mutex_task (mutexes s' m) = w \<and> owner_nested (mutexes s' m) = 1
    \<and> blk_list (objs s' m) = ws \<and> blk_state (tasks s' w) = BLK_FINISH \<and> (task_state (tasks s w) = K_PEND \<longrightarrow> ready (tasks s' w))
    \<and> (\<forall>u \<in> set ws. prio (tasks s w) \<le> prio (tasks s u)) \<and> (i \<noteq> m \<longrightarrow> mutex_task (mutexes s' i) = mutex_task (mutexes s i))
    \<and> prio (tasks s' (g_active_task s)) = Min (insert (b_prio (tasks s' (g_active_task s))) {prio (tasks s' v) |v m.
        obj_type (objs s' m) = RHINO_MUTEX_OBJ_TYPE \<and> mutex_task (mutexes s' m) = g_active_task s \<and> v \<in> set (blk_list (objs s' m))})"
proof -
  define t where "t = g_active_task s"
  have k: "kinv s" "kinv (s\<lparr>mutexes := (mutexes s)(m := (mutexes s m)\<lparr>owner_nested := 0\<rparr>)\<rparr>)" (is "kinv ?n")
    using kernel_okD(1) [OF assms(1)] nested_kinv by blast+
  have rd: "ready (tasks s t)" using active_ready [OF assms(1,2)] by (simp add: t_def)
  have st: "g_sys_stat s \<noteq> RHINO_STOPPED" using kernel_okD(2) [OF assms(1)] by (simp add: sched_ok_def)
  have m0: "m \<noteq> NULL" "blk_policy (objs s m) = BLK_POLICY_PRI" using kinv_mutex_policy [OF k(1) assms(3)] by simp_all
  define r where "r = mutex_release t m ?n"
  have "release_spec t m ?n r" unfolding r_def using assms(3,4) rd by (intro release_ready [OF k(2)]) (simp_all add: t_def)
  then have R: "kinvx {m} (untyped m r)" "objs r = objs s" "task_state (tasks r v) = task_state (tasks s v)" "v \<noteq> t \<Longrightarrow> tasks r v = tasks s v"
    "mutex_task (mutexes r i) = mutex_task (mutexes s i)" "owner_nested (mutexes r i) = (if i = m then 0 else owner_nested (mutexes s i))" for v i
    by (simp_all add: release_spec_def)
  have b: "base_ok r" using kinvD(1) [OF R(1)] by simp
  have B: "blk_ok (objs s) (tasks s)" "blk_ok (objs r) (tasks r)" using kinvD(1) [OF k(1)] b base_okD(2) by blast+
  have wm: "w \<in> set (blk_list (objs s m))" using assms(6) by simp
  have pw: "pended (tasks s w)" "pended (tasks r w)" "blk_obj (tasks r w) = m" using blk_okD(2) [OF B(1)] blk_okD(2) [OF B(2)] wm R(2) by metis+
  have wt: "w \<noteq> t" using pw(1) rd by (auto simp: state_defs)
  obtain q ts where W: "pend_task_wakeup w r = r\<lparr>g_ready_queue := q, g_tick_head := ts,
      objs := (objs r)(m := (objs r m)\<lparr>blk_list := ws\<rparr>), tasks := (tasks r)(w := woken BLK_FINISH (tasks r w))\<rparr>"
    using pend_task_wakeup_wake(1) [OF b pw(2)] wake_eq [of w BLK_FINISH r] pw(3) R(2) assms(6) by auto
  have e: "krhino_mutex_unlock m s = (RHINO_SUCCESS, core_sched (r\<lparr>g_ready_queue := q, g_tick_head := ts,
      objs := (objs r)(m := (objs r m)\<lparr>blk_list := ws\<rparr>),
      tasks := (tasks r)(w := (woken BLK_FINISH (tasks r w))\<lparr>mutex_list := m\<rparr>),
      mutexes := (mutexes r)(m := (mutexes r m)\<lparr>mutex_task := w, mutex_next := mutex_list (tasks r w), owner_nested := 1\<rparr>)\<rparr>))"
    using assms(2-6) st m0 R(2) unfolding krhino_mutex_unlock_def Let_def upd_mutex_def
    by (simp add: t_def [symmetric] r_def [symmetric] W upd_task_def)
  have s': "mutexes s' = (mutexes r)(m := (mutexes r m)\<lparr>mutex_task := w, mutex_next := mutex_list (tasks r w), owner_nested := 1\<rparr>)"
    "blk_list (objs s' m) = ws" "tasks s' w = (woken BLK_FINISH (tasks s w))\<lparr>mutex_list := m\<rparr>" "tasks s' t = tasks r t"
    using wt R(2,4) by (simp_all add: s'_def e)
  have ok: "kernel_ok s'" using krhino_mutex_unlock_ok [OF assms(1,2)] by (simp add: s'_def)
  have "live (tasks s' t)" using rd R(3) [of t] by (simp add: s' live_def ready_def)
  then have "prio (tasks s' t) = s_target no_extra s' t" using kinvD(4) [OF kernel_okD(1) [OF ok]] by (simp add: pi_ok_def pi_exact_def)
  moreover have "\<forall>u \<in> set ws. prio (tasks s w) \<le> prio (tasks s u)" using blk_okD(3) [OF B(1) m0(2)] assms(6) by simp
  ultimately show ?thesis
    using s' R(5) unfolding target_Min [symmetric] by (simp add: e t_def [symmetric] woken_def ready_def)
qed

section \<open>Changes of priorities and deletion\<close>

text \<open>
  (C13) A change of a base priority always ends: the search for the limit that the held mutexes give and the
  change along the chain of owners return in every reachable state, the old priority is
  reported, the new base priority is stored, and afterwards the inheritance is exact for all tasks.
\<close>

theorem pri_change_terminates:
  assumes "kreach img s" "image_ok img" "live (tasks s t)" "prio (tasks s t) < RHINO_IDLE_PRI" "pri < RHINO_IDLE_PRI"
    and "g_intrpt_nested_level s = 0" "old_pri \<noteq> NULL"
  shows "\<exists>limit s'. mutex_pri_limit t pri s = Some limit
    \<and> task_pri_change t limit (s\<lparr>tasks := (tasks s)(t := (tasks s t)\<lparr>b_prio := pri\<rparr>)\<rparr>) = Some (RHINO_SUCCESS, s')
    \<and> krhino_task_pri_change t pri old_pri s = (RHINO_SUCCESS, Some (prio (tasks s t)), core_sched s')
    \<and> b_prio (tasks s' t) = pri
    \<and> (\<forall>u. live (tasks s' u) \<longrightarrow> prio (tasks s' u) = Min (insert (b_prio (tasks s' u)) {prio (tasks s' w) |w m.
        obj_type (objs s' m) = RHINO_MUTEX_OBJ_TYPE \<and> mutex_task (mutexes s' m) = u \<and> w \<in> set (blk_list (objs s' m))}))"
proof -
  note k = kernel_okD(1) [OF kreach_ok [OF assms(1,2)]]
  define s1 where "s1 = s\<lparr>tasks := (tasks s)(t := (tasks s t)\<lparr>b_prio := pri\<rparr>)\<rparr>"
  have e: "s1 = upd_task t (\<lambda>k. k\<lparr>b_prio := pri\<rparr>) s" by (simp add: s1_def upd_task_def)
  note r = rebase_ok [OF k assms(3-5), folded e]
  obtain s' where s': "task_pri_change t (s_target no_extra s1 t) s1 = Some (RHINO_SUCCESS, s')" "pri_post no_extra s1 s'"
    using task_pri_change_exact [OF r(1)] by blast
  have t0: "t \<noteq> NULL" "task_state (tasks s t) \<noteq> K_DELETED" using mtx_okD(2) [OF kinvD(3) [OF k] assms(3)] assms(3) by (auto simp: live_def)
  have "krhino_task_pri_change t pri old_pri s = (RHINO_SUCCESS, Some (prio (tasks s t)), core_sched s')"
    using assms(4-7) t0 r(5) s'(1) by (simp add: krhino_task_pri_change_def e)
  moreover have "reprio s1 s'" using s'(2) by (simp add: pri_post_def)
  then have "b_prio (tasks s' t) = pri" using reprio_task(3) by (fastforce simp: s1_def)
  moreover have "live (tasks s' u) \<longrightarrow> prio (tasks s' u) = s_target no_extra s' u" for u
    using s'(2) by (simp add: pri_post_def pi_ok_def pi_exact_def)
  ultimately show ?thesis using r(5) s'(1) unfolding target_Min [symmetric] s1_def by blast
qed

text \<open>
  (C14) A deleted task leaves nothing behind: after a deletion the task is no longer alive, it owns no mutex and is on
  no ready list, no wait list and not on the tick list, another task runs, and the invariant of the kernel holds.
\<close>

theorem task_del_releases:
  assumes "kreach img s" "image_ok img" "live (tasks s t)" "t \<noteq> NULL" "prio (tasks s t) \<noteq> RHINO_IDLE_PRI"
    and "task_alloc_flag (tasks s t) = K_OBJ_STATIC_ALLOC" "g_intrpt_nested_level s = 0" "t = g_active_task s \<Longrightarrow> g_sched_lock s = 0"
  defines "s' \<equiv> snd (krhino_task_del t s)"
  shows "fst (krhino_task_del t s) = RHINO_SUCCESS \<and> \<not> live (tasks s' t)
    \<and> (\<forall>m. obj_type (objs s' m) = RHINO_MUTEX_OBJ_TYPE \<longrightarrow> mutex_task (mutexes s' m) \<noteq> t)
    \<and> (\<forall>p. t \<notin> set (cur_list_item (g_ready_queue s') p)) \<and> (\<forall>i. t \<notin> set (blk_list (objs s' i))) \<and> t \<notin> set (g_tick_head s')
    \<and> g_active_task s' \<noteq> t \<and> kernel_ok s'"
proof -
  note ok = kreach_ok [OF assms(1,2)]
  obtain s1 where s1: "task_unlink t (task_mutex_free t s) = Some s1" "gone t s s1"
    using delete_ok [OF kernel_okD(1,3) [OF ok] assms(3,5)] by blast
  have D: "fst (krhino_task_del t s) = RHINO_SUCCESS \<and> tasks s' = tasks s1 \<and> g_intrpt_nested_level s' = g_intrpt_nested_level s1"
    using assms(4-8) s1(1) by (auto simp: krhino_task_del_def Let_def s'_def)
  then have dead: "\<not> live (tasks s' t)" "g_intrpt_nested_level s' = 0" using s1(2) assms(7) by (auto simp: gone_def)
  note n = dead_not [OF dead(1)]
  have ok': "kernel_ok s'" unfolding s'_def using assms(3,4) by (intro krhino_task_del_ok [OF ok]) simp
  note k = kernel_okD(1) [OF ok']
  note b = base_okD [OF kinvD(1) [OF k]]
  have "s_owned s' t = {}" using dead_owns_nothing [OF kinvD(3) [OF k] dead(1) assms(4)] .
  then have "\<forall>m. is_mutex (objs s') m \<longrightarrow> mutex_task (mutexes s' m) \<noteq> t" by (auto simp: owned_def)
  moreover have "g_active_task s' \<noteq> t" using active_ready [OF ok' dead(2)] n by blast
  moreover have "\<forall>i. t \<notin> set (blk_list (objs s' i))" using blk_okD(2) [OF b(2)] n by blast
  moreover have "\<forall>p. t \<notin> set (cur_list_item (g_ready_queue s') p)" using rdy_ok_mem [OF b(1)] n by blast
  moreover have "t \<notin> set (g_tick_head s')" using b(3) n by (auto simp: tick_ok_def)
  ultimately show ?thesis using D dead(1) ok' by blast
qed

section \<open>A contended mutex\<close>

text \<open>
  The timer task is suspended, so that the memory task runs and locks a mutex; it resumes the timer task,
  which locks the same mutex.
\<close>

definition demo_mutex :: kernel where
  "demo_mutex = snd (krhino_mutex_create 0x5000 0x9000 demo_kernel)"

definition demo_held :: kernel where
  "demo_held = snd (krhino_mutex_lock 0x5000 RHINO_WAIT_FOREVER (snd (krhino_task_suspend timer_tcb demo_mutex)))"

definition demo_awake :: kernel where
  "demo_awake = snd (krhino_task_resume timer_tcb demo_held)"

definition demo_contended :: kernel where
  "demo_contended = snd (krhino_mutex_lock 0x5000 RHINO_WAIT_FOREVER demo_awake)"

lemma suspend_frames:
  "objs (snd (krhino_task_suspend t s)) = objs s" "mutexes (snd (krhino_task_suspend t s)) = mutexes s"
  "g_intrpt_nested_level (snd (krhino_task_suspend t s)) = g_intrpt_nested_level s" "g_sched_lock (snd (krhino_task_suspend t s)) = g_sched_lock s"
  "objs (snd (krhino_task_resume t s)) = objs s" "mutexes (snd (krhino_task_resume t s)) = mutexes s"
  "g_intrpt_nested_level (snd (krhino_task_resume t s)) = g_intrpt_nested_level s" "g_sched_lock (snd (krhino_task_resume t s)) = g_sched_lock s"
  by (simp_all add: krhino_task_suspend_def task_suspend_def krhino_task_resume_def task_resume_def Let_def upd_task_def ready_list_rm_def
      ready_list_add_def ready_list_add_tail_def ready_list_add_head_def fault_def split: option.split task_stat.split)

lemma demo_mutex_facts:
  "kreach demo_image demo_mutex" "g_active_task demo_mutex = timer_tcb" "tasks demo_mutex = tasks demo_kernel" "g_sched_lock demo_mutex = 0"
  "g_intrpt_nested_level demo_mutex = 0" "obj_type (objs demo_mutex 0x5000) = RHINO_MUTEX_OBJ_TYPE" "mutex_task (mutexes demo_mutex 0x5000) = NULL"
  "may_block demo_mutex" "blk_list (objs demo_mutex 0x5000) = []" "obj_type (objs demo_mutex i) = RHINO_MUTEX_OBJ_TYPE \<longleftrightarrow> i = 0x5000"
proof -
  show k: "kreach demo_image demo_mutex" unfolding demo_mutex_def
    by (rule kreach.step [OF demo_reach(2)], rule kstep.mutex_create) (simp add: demo_facts)
  show f: "g_active_task demo_mutex = timer_tcb" "tasks demo_mutex = tasks demo_kernel" "g_sched_lock demo_mutex = 0" "blk_list (objs demo_mutex 0x5000) = []"
    "g_intrpt_nested_level demo_mutex = 0" "obj_type (objs demo_mutex 0x5000) = RHINO_MUTEX_OBJ_TYPE" "mutex_task (mutexes demo_mutex 0x5000) = NULL"
    by (simp_all add: demo_mutex_def krhino_mutex_create_def mutex_create_def upd_defs demo_facts demo_active)
  show "obj_type (objs demo_mutex i) = RHINO_MUTEX_OBJ_TYPE \<longleftrightarrow> i = 0x5000"
    by (simp add: demo_mutex_def krhino_mutex_create_def mutex_create_def upd_defs demo_facts demo_no_mutex)
  show "may_block demo_mutex" using kreach_ok [OF k demo_image_ok] f
    by (simp add: may_block_def demo_facts RHINO_IDLE_PRI_def RHINO_CONFIG_PRI_MAX_def)
qed

lemma demo_held_facts:
  "kreach demo_image demo_held" "g_active_task demo_held = dyn_task" "g_sched_lock demo_held = 0" "g_intrpt_nested_level demo_held = 0"
  "obj_type (objs demo_held 0x5000) = RHINO_MUTEX_OBJ_TYPE" "mutex_task (mutexes demo_held 0x5000) = dyn_task"
  "task_state (tasks demo_held timer_tcb) = K_SUSPENDED" "suspend_count (tasks demo_held timer_tcb) = 1"
  "t \<noteq> timer_tcb \<Longrightarrow> ready (tasks demo_held t) = ready (tasks demo_kernel t)" "prio (tasks demo_held t) = prio (tasks demo_kernel t)"
  "b_prio (tasks demo_held t) = b_prio (tasks demo_kernel t)" "blk_list (objs demo_held 0x5000) = []" "owner_nested (mutexes demo_held 0x5000) = 1"
  "objs demo_held = objs demo_mutex"
proof -
  define s where "s = snd (krhino_task_suspend timer_tcb demo_mutex)"
  have T: "tasks s = (tasks demo_kernel)(timer_tcb := (tasks demo_kernel timer_tcb)\<lparr>suspend_count := 1, task_state := K_SUSPENDED\<rparr>)"
    unfolding s_def demo_mutex_facts(3) [symmetric]
    by (rule suspend_step) (simp_all add: demo_mutex_facts demo_facts RHINO_IDLE_PRI_def RHINO_CONFIG_PRI_MAX_def)
  have f: "objs s = objs demo_mutex" "mutexes s = mutexes demo_mutex" "g_intrpt_nested_level s = 0" "g_sched_lock s = 0"
    by (simp_all add: s_def suspend_frames demo_mutex_facts)
  have k: "kreach demo_image s" unfolding s_def by (rule kreach.step [OF demo_mutex_facts(1)], rule kstep.task_suspend)
  note ok = kreach_ok [OF k demo_image_ok]
  have "ready (tasks s t) \<longleftrightarrow> t \<in> {dyn_task, idle_tcb, wq_task}" for t
    using demo_facts(4) [of t] by (auto simp: T ready_def)
  then have a: "g_active_task s = dyn_task"
    by (intro active_is [OF ok f(3,4)]) (auto simp: T demo_facts)
  have mb: "may_block s" using ok f a by (simp add: may_block_def T demo_facts RHINO_IDLE_PRI_def RHINO_CONFIG_PRI_MAX_def)
  have L: "demo_held = snd (krhino_mutex_lock 0x5000 RHINO_WAIT_FOREVER s)" by (simp add: demo_held_def s_def)
  show "kreach demo_image demo_held" unfolding L using mb
    by (intro kreach.step [OF k] kstep.mutex_lock) (simp add: wait_ok_def may_block_def)
  have "is_mutex (objs s) 0x5000" "mutex_task (mutexes s 0x5000) = NULL" by (simp_all add: f demo_mutex_facts)
  note e = lock_free(1) [OF mb this, of RHINO_WAIT_FOREVER]
  show "g_active_task demo_held = dyn_task" "g_sched_lock demo_held = 0" "g_intrpt_nested_level demo_held = 0"
    "obj_type (objs demo_held 0x5000) = RHINO_MUTEX_OBJ_TYPE" "mutex_task (mutexes demo_held 0x5000) = dyn_task"
    "task_state (tasks demo_held timer_tcb) = K_SUSPENDED" "suspend_count (tasks demo_held timer_tcb) = 1"
    unfolding L e by (simp_all add: a f T demo_mutex_facts)
  show "t \<noteq> timer_tcb \<Longrightarrow> ready (tasks demo_held t) = ready (tasks demo_kernel t)" "prio (tasks demo_held t) = prio (tasks demo_kernel t)"
    "b_prio (tasks demo_held t) = b_prio (tasks demo_kernel t)" "blk_list (objs demo_held 0x5000) = []" "owner_nested (mutexes demo_held 0x5000) = 1"
    "objs demo_held = objs demo_mutex"
    unfolding L e by (simp_all add: a T ready_def f demo_mutex_facts)
qed

lemma demo_awake_facts:
  "kreach demo_image demo_awake" "g_active_task demo_awake = timer_tcb" "g_sched_lock demo_awake = 0" "may_block demo_awake"
  "obj_type (objs demo_awake 0x5000) = RHINO_MUTEX_OBJ_TYPE" "mutex_task (mutexes demo_awake 0x5000) = dyn_task"
  "prio (tasks demo_awake t) = prio (tasks demo_kernel t)" "b_prio (tasks demo_awake t) = b_prio (tasks demo_kernel t)"
  "blk_list (objs demo_awake 0x5000) = []" "owner_nested (mutexes demo_awake 0x5000) = 1" "g_intrpt_nested_level demo_awake = 0"
  "ready (tasks demo_awake t) \<longleftrightarrow> t \<in> {dyn_task, idle_tcb, wq_task, timer_tcb}"
  "obj_type (objs demo_awake i) = RHINO_MUTEX_OBJ_TYPE \<longleftrightarrow> i = 0x5000"
proof -
  have T: "tasks demo_awake = (tasks demo_held)(timer_tcb := (tasks demo_held timer_tcb)\<lparr>suspend_count := 0, task_state := K_RDY\<rparr>)"
    unfolding demo_awake_def by (subst resume_step) (simp_all add: demo_held_facts)
  have f: "objs demo_awake = objs demo_held" "mutexes demo_awake = mutexes demo_held" "g_intrpt_nested_level demo_awake = 0" "g_sched_lock demo_awake = 0"
    by (simp_all add: demo_awake_def suspend_frames demo_held_facts)
  show k: "kreach demo_image demo_awake" unfolding demo_awake_def by (rule kreach.step [OF demo_held_facts(1)], rule kstep.task_resume)
  note ok = kreach_ok [OF k demo_image_ok]
  show p: "prio (tasks demo_awake t) = prio (tasks demo_kernel t)" for t by (simp add: T demo_held_facts)
  show r: "ready (tasks demo_awake t) \<longleftrightarrow> t \<in> {dyn_task, idle_tcb, wq_task, timer_tcb}" for t
    using demo_facts(4) [of t] demo_held_facts(9) [of t] by (auto simp: T) (simp_all add: ready_def)
  show a: "g_active_task demo_awake = timer_tcb"
    by (rule active_is [OF ok f(3,4)]) (auto simp: p demo_facts r)
  show "g_sched_lock demo_awake = 0" "obj_type (objs demo_awake 0x5000) = RHINO_MUTEX_OBJ_TYPE" "mutex_task (mutexes demo_awake 0x5000) = dyn_task"
    "blk_list (objs demo_awake 0x5000) = []" "owner_nested (mutexes demo_awake 0x5000) = 1" "g_intrpt_nested_level demo_awake = 0"
    by (simp_all add: f demo_held_facts demo_mutex_facts)
  show "obj_type (objs demo_awake i) = RHINO_MUTEX_OBJ_TYPE \<longleftrightarrow> i = 0x5000"
    by (simp add: f demo_held_facts(14) demo_mutex_facts(10))
  show "b_prio (tasks demo_awake t) = b_prio (tasks demo_kernel t)" for t by (simp add: T demo_held_facts)
  show "may_block demo_awake" using ok f a by (simp add: may_block_def p demo_facts RHINO_IDLE_PRI_def RHINO_CONFIG_PRI_MAX_def)
qed

lemma distinct_singleton: "distinct xs \<Longrightarrow> set xs = {x} \<Longrightarrow> xs = [x]"
  by (cases xs) (auto simp: subset_singleton_iff)

lemma demo_contended_facts:
  "kreach demo_image demo_contended" "g_active_task demo_contended = dyn_task" "g_intrpt_nested_level demo_contended = 0"
  "obj_type (objs demo_contended 0x5000) = RHINO_MUTEX_OBJ_TYPE" "mutex_task (mutexes demo_contended 0x5000) = dyn_task"
  "owner_nested (mutexes demo_contended 0x5000) = 1" "blk_list (objs demo_contended 0x5000) = [timer_tcb]"
  "prio (tasks demo_contended timer_tcb) = 5" "b_prio (tasks demo_contended dyn_task) = 6" "ready (tasks demo_contended dyn_task)"
  "prio (tasks demo_contended dyn_task) \<le> 5" "task_state (tasks demo_contended timer_tcb) = K_PEND"
  "obj_type (objs demo_contended i) = RHINO_MUTEX_OBJ_TYPE \<longleftrightarrow> i = 0x5000"
proof -
  note a = demo_awake_facts
  have d: "dyn_task \<noteq> g_active_task demo_awake" "dyn_task \<noteq> NULL" "RHINO_WAIT_FOREVER \<noteq> RHINO_NO_WAIT"
    by (simp_all add: a RHINO_WAIT_FOREVER_def RHINO_NO_WAIT_def)
  note l = lock_contended [OF a(4,5,6) d(2,1,3) a(3), unfolded a(2), folded demo_contended_def]
  show k: "kreach demo_image demo_contended" unfolding demo_contended_def using a(4)
    by (intro kreach.step [OF a(1)] kstep.mutex_lock) (simp add: wait_ok_def may_block_def)
  show n: "g_intrpt_nested_level demo_contended = 0" "mutex_task (mutexes demo_contended 0x5000) = dyn_task"
    "owner_nested (mutexes demo_contended 0x5000) = 1" "obj_type (objs demo_contended 0x5000) = RHINO_MUTEX_OBJ_TYPE"
    "prio (tasks demo_contended timer_tcb) = 5" "task_state (tasks demo_contended timer_tcb) = K_PEND"
    "prio (tasks demo_contended dyn_task) \<le> 5"
    using l(2,3,5,6,10) a by (simp_all add: demo_facts)
  show "obj_type (objs demo_contended i) = RHINO_MUTEX_OBJ_TYPE \<longleftrightarrow> i = 0x5000" by (simp add: l(5) a(13))
  have T: "tasks demo_contended u = (tasks demo_awake u)\<lparr>prio := prio (tasks demo_contended u)\<rparr>" if "u \<noteq> timer_tcb" for u
    using l(7) that .
  have "b_prio (tasks demo_contended dyn_task) = b_prio (tasks demo_awake dyn_task)" by (subst T) simp_all
  then show "b_prio (tasks demo_contended dyn_task) = 6" by (simp add: a demo_base_prio demo_facts)
  have st: "u \<noteq> timer_tcb \<Longrightarrow> task_state (tasks demo_contended u) = task_state (tasks demo_awake u)" for u by (subst T) simp_all
  have rd: "ready (tasks demo_contended u) \<longleftrightarrow> u \<in> {dyn_task, idle_tcb, wq_task}" for u
    using a(12) [of u] st [of u] n(6) by (cases "u = timer_tcb") (simp_all add: ready_def)
  then show r: "ready (tasks demo_contended dyn_task)" by simp
  have "prio (tasks demo_contended dyn_task) < prio (tasks demo_contended u)" if "u \<in> {idle_tcb, wq_task}" for u
  proof -
    have "live (tasks demo_contended u)" using rd [of u] that dead_not by blast
    moreover have "s_waiters demo_contended u = {}" using that by (auto simp: waiters_def owned_def l(5) a(13) n(2))
    ultimately have "prio (tasks demo_contended u) = b_prio (tasks demo_contended u)"
      using kinvD(4) [OF kernel_okD(1) [OF l(9)]] by (simp add: pi_ok_def pi_exact_def pri_target_def)
    moreover have "b_prio (tasks demo_contended u) = prio (tasks demo_kernel u)" using that by (subst T) (auto simp: a demo_base_prio demo_facts)
    ultimately show ?thesis using n(7) that by (auto simp: demo_facts)
  qed
  then show "g_active_task demo_contended = dyn_task" by (intro active_is [OF l(9,10,11) r]) (auto simp: rd)
  show "blk_list (objs demo_contended 0x5000) = [timer_tcb]"
    using l(4) a(9) blk_okD(1) [OF base_okD(2) [OF kinvD(1) [OF kernel_okD(1) [OF l(9)]]], of "0x5000"]
    by (simp add: distinct_singleton)
qed

theorem priority_inheritance_exact_witness:
  "kreach demo_image demo_contended \<and> b_prio (tasks demo_contended dyn_task) = 6 \<and> prio (tasks demo_contended dyn_task) = 5"
proof -
  note f = demo_contended_facts
  have "live (tasks demo_contended dyn_task)" using f(10) dead_not by blast
  from priority_inheritance_exact [OF f(1) demo_image_ok this] have "5 \<le> prio (tasks demo_contended dyn_task)"
    by (auto simp: f)
  with f show ?thesis by simp
qed

theorem mutex_lock_contended_witness:
  "fst (krhino_mutex_lock 0x5000 RHINO_WAIT_FOREVER demo_awake) = Pending \<and> mutex_task (mutexes demo_contended 0x5000) = dyn_task
    \<and> prio (tasks demo_contended dyn_task) \<le> prio (tasks demo_awake timer_tcb) \<and> prio (tasks demo_awake dyn_task) = 6
    \<and> prio (tasks demo_awake timer_tcb) = 5"
proof -
  note a = demo_awake_facts
  show ?thesis using mutex_lock_contended [OF a(4,5,6), of RHINO_WAIT_FOREVER] a(2,3,7)
    by (simp add: demo_contended_def demo_facts RHINO_WAIT_FOREVER_def RHINO_NO_WAIT_def)
qed

theorem mutex_lock_unlock_witness:
  "fst (krhino_mutex_lock 0x5000 RHINO_WAIT_FOREVER demo_mutex) = Ret RHINO_SUCCESS
    \<and> tasks (snd (krhino_mutex_unlock 0x5000 (snd (krhino_mutex_lock 0x5000 RHINO_WAIT_FOREVER demo_mutex)))) = tasks demo_mutex"
  using mutex_lock_unlock [OF demo_mutex_facts(8,6,7), of RHINO_WAIT_FOREVER] by simp

theorem mutex_unlock_hands_over_witness:
  "fst (krhino_mutex_unlock 0x5000 demo_contended) = RHINO_SUCCESS
    \<and> mutex_task (mutexes (snd (krhino_mutex_unlock 0x5000 demo_contended)) 0x5000) = timer_tcb
    \<and> ready (tasks (snd (krhino_mutex_unlock 0x5000 demo_contended)) timer_tcb)"
proof -
  note f = demo_contended_facts
  have "mutex_task (mutexes demo_contended 0x5000) = g_active_task demo_contended" by (simp add: f)
  from mutex_unlock_hands_over [OF kreach_ok [OF f(1) demo_image_ok] f(3,4) this f(6,7)] show ?thesis by (simp add: f(12))
qed

theorem pri_change_terminates_witness:
  "\<exists>s'. krhino_task_pri_change timer_tcb 30 0x9000 demo_contended = (RHINO_SUCCESS, Some 5, core_sched s') \<and> b_prio (tasks s' timer_tcb) = 30"
proof -
  note f = demo_contended_facts
  have "live (tasks demo_contended timer_tcb)" using f(12) by (simp add: live_def)
  from pri_change_terminates [OF f(1) demo_image_ok this, of 30 "0x9000"] f(3,8) show ?thesis
    by (auto simp: RHINO_IDLE_PRI_def RHINO_CONFIG_PRI_MAX_def)
qed

theorem task_del_releases_witness:
  "fst (krhino_task_del 0x6000 demo_two) = RHINO_SUCCESS \<and> \<not> live (tasks (snd (krhino_task_del 0x6000 demo_two)) 0x6000)
    \<and> 0x6000 \<in> set (cur_list_item (g_ready_queue demo_two) 5)
    \<and> 0x6000 \<notin> set (cur_list_item (g_ready_queue (snd (krhino_task_del 0x6000 demo_two))) 5)"
proof -
  note f = demo_two_facts
  have "live (tasks demo_two 0x6000)" using f(8) dead_not by blast
  from task_del_releases [OF f(7) demo_image_ok this] f show ?thesis by (simp add: RHINO_IDLE_PRI_def RHINO_CONFIG_PRI_MAX_def)
qed

end
