(* ===== verification/Rhino_Sync.thy ===== *)
theory Rhino_Sync
  imports Rhino_Locking
begin

text \<open>
  Semaphores and events: no wake-up is lost, a semaphore refines a counter with a queue of tasks ordered by priority,
  the flags of an event wake exactly the tasks they satisfy, and the deletion of an object releases all who wait for it.
\<close>

section \<open>Waiting at an object\<close>

text \<open>The common last step of the calls that wait: the running task is queued and another one is chosen.\<close>

lemma block_call:
  fixes i :: oid and ticks :: tick_t
  assumes "may_block s" "neutral g"
  defines "t \<equiv> g_active_task s"
  defines "s' \<equiv> core_sched (pend_to_blk_obj i t ticks (upd_task t g s))"
  shows "tasks s' = (tasks s)(t := blocked i ticks (g_tick_count s) (g (tasks s t)))"
    "objs s' = (objs s)(i := (objs s i)\<lparr>blk_list := block_order (objs s i) (tasks s) t\<rparr>)"
    "sems s' = sems s" "events s' = events s" "queues s' = queues s" "buf_queues s' = buf_queues s" "mutexes s' = mutexes s"
    "g_sched_lock s' = g_sched_lock s" "g_intrpt_nested_level s' = 0" "g_tick_count s' = g_tick_count s" "user_words s' = user_words s"
    "user_bufs s' = user_bufs s"
proof -
  note b = may_blockD [OF assms(1)]
  let ?s1 = "upd_task t g s"
  have g: "prio (g k) = prio k" "task_state (g k) = task_state k" for k using assms(2) by (simp_all add: neutral_def)
  have k: "base_ok ?s1" using kinvD(1) [OF neutral_kinvx [OF b(2) assms(2)]] .
  have r: "ready (tasks ?s1 t)" "some_other_ready (tasks ?s1) t"
    using b(3) kinv_other [OF b(2,4)] g by (auto simp: upd_task_def ready_def some_other_ready_def t_def)
  have o: "block_order (objs s i) (tasks ?s1) t = block_order (objs s i) (tasks s) t"
    by (auto simp: block_order_def upd_task_def g intro: insert_before_first_cong)
  obtain q ts where P: "pend_to_blk_obj i t ticks ?s1 = ?s1\<lparr>g_ready_queue := q, g_tick_head := ts,
      objs := (objs s)(i := (objs s i)\<lparr>blk_list := block_order (objs s i) (tasks s) t\<rparr>),
      tasks := (tasks ?s1)(t := blocked i ticks (g_tick_count s) (tasks ?s1 t))\<rparr>"
    using pend_to_blk_obj_spec(2) [OF k r, of i ticks] o by (auto simp: upd_task_def)
  show "tasks s' = (tasks s)(t := blocked i ticks (g_tick_count s) (g (tasks s t)))"
    "objs s' = (objs s)(i := (objs s i)\<lparr>blk_list := block_order (objs s i) (tasks s) t\<rparr>)"
    "sems s' = sems s" "events s' = events s" "queues s' = queues s" "buf_queues s' = buf_queues s" "mutexes s' = mutexes s"
    "g_sched_lock s' = g_sched_lock s" "g_intrpt_nested_level s' = 0" "g_tick_count s' = g_tick_count s" "user_words s' = user_words s"
    "user_bufs s' = user_bufs s"
    using assms(1) unfolding s'_def P by (simp_all add: upd_task_def may_block_def)
qed

lemmas block_call_id = block_call [OF _ neutral_id, unfolded upd_task_def, simplified]

text \<open>
  (C5) No wake-up is lost: in every reachable state no task waits at a semaphore that has a count, at a queue or
  buffer queue that holds a message, or at an event whose flags satisfy it.
\<close>

theorem no_lost_wakeup:
  assumes "kreach img s" "image_ok img" "w \<in> set (blk_list (objs s i))"
  shows "(obj_type (objs s i) = RHINO_SEM_OBJ_TYPE \<longrightarrow> sem_count (sems s i) = 0)
    \<and> (obj_type (objs s i) = RHINO_QUEUE_OBJ_TYPE \<longrightarrow> q_cur_num (queues s i) = 0)
    \<and> (obj_type (objs s i) = RHINO_BUF_QUEUE_OBJ_TYPE \<longrightarrow> bq_cur_num (buf_queues s i) = 0)
    \<and> (obj_type (objs s i) = RHINO_EVENT_OBJ_TYPE \<longrightarrow> \<not> event_met (pend_option (tasks s w)) (pend_flags (tasks s w)) (event_flags (events s i)))"
proof -
  have "obj_inv s i" using kernel_okD(4) [OF kreach_ok [OF assms(1,2)]] .
  with assms(3) show ?thesis
    by (cases "obj_type (objs s i)") (auto simp: obj_inv_def q_holds_def bq_holds_def)
qed

section \<open>Semaphores\<close>

text \<open>A semaphore as its user sees it: a number of tokens, and the tasks that wait for one.\<close>

definition sem_view :: "kernel \<Rightarrow> oid \<Rightarrow> nat \<times> tid list" where
  "sem_view s i = (unat (sem_count (sems s i)), blk_list (objs s i))"

fun give_spec :: "nat \<times> tid list \<Rightarrow> kstat \<times> nat \<times> tid list" where
  "give_spec (n, []) = (if n = 2 ^ 32 - 1 then (RHINO_SEM_OVF, n, []) else (RHINO_SUCCESS, n + 1, []))"
| "give_spec (n, w # ws) = (RHINO_SUCCESS, n, ws)"

fun take_spec :: "(tid \<Rightarrow> nat) \<Rightarrow> tid \<Rightarrow> bool \<Rightarrow> nat \<times> tid list \<Rightarrow> outcome \<times> nat \<times> tid list" where
  "take_spec pri t wait (Suc n, ws) = (Ret RHINO_SUCCESS, n, ws)"
| "take_spec pri t wait (0, ws) =
     (if wait then (Pending, 0, filter (\<lambda>w. pri w \<le> pri t) ws @ t # filter (\<lambda>w. pri t < pri w) ws) else (Ret RHINO_NO_PEND_WAIT, 0, ws))"

lemma sem_give_wakes:
  assumes "kernel_ok s" "obj_type (objs s i) = RHINO_SEM_OBJ_TYPE" "i \<noteq> NULL" "blk_list (objs s i) = w # ws"
  shows "fst (krhino_sem_give i s) = RHINO_SUCCESS" "sems (snd (krhino_sem_give i s)) = sems s"
    "objs (snd (krhino_sem_give i s)) = (objs s)(i := (objs s i)\<lparr>blk_list := ws\<rparr>)"
    "tasks (snd (krhino_sem_give i s)) = (tasks s)(w := woken BLK_FINISH (tasks s w))"
proof -
  note b = kinvD(1) [OF kernel_okD(1) [OF assms(1)]]
  have w: "pended (tasks s w)" "blk_obj (tasks s w) = i" using blk_okD(2) [OF base_okD(2) [OF b], of w i] assms(4) by auto
  obtain q ts where W: "pend_task_wakeup w s = s\<lparr>g_ready_queue := q, g_tick_head := ts,
      objs := (objs s)(i := (objs s i)\<lparr>blk_list := ws\<rparr>), tasks := (tasks s)(w := woken BLK_FINISH (tasks s w))\<rparr>"
    using pend_task_wakeup_wake(1) [OF b w(1)] wake_eq [of w BLK_FINISH s] w(2) assms(4) by auto
  show "fst (krhino_sem_give i s) = RHINO_SUCCESS" "sems (snd (krhino_sem_give i s)) = sems s"
    "objs (snd (krhino_sem_give i s)) = (objs s)(i := (objs s i)\<lparr>blk_list := ws\<rparr>)"
    "tasks (snd (krhino_sem_give i s)) = (tasks s)(w := woken BLK_FINISH (tasks s w))"
    using assms(2-4) by (simp_all add: krhino_sem_give_def sem_give_def Let_def W)
qed

lemma sem_give_counts:
  assumes "obj_type (objs s i) = RHINO_SEM_OBJ_TYPE" "i \<noteq> NULL" "blk_list (objs s i) = []" "sem_count (sems s i) \<noteq> - 1"
  shows "\<exists>x. krhino_sem_give i s = (RHINO_SUCCESS, s\<lparr>sems := (sems s)(i := x)\<rparr>) \<and> sem_count x = sem_count (sems s i) + 1"
  using assms by (auto simp: krhino_sem_give_def sem_give_def Let_def upd_sem_def)

lemma all_ones_iff: "w = - 1 \<longleftrightarrow> unat w = 2 ^ 32 - 1" for w :: u32
  by (auto simp: word_unat_eq_iff unsigned_minus_1_eq_mask mask_eq_exp_minus_1)

lemma unat_plus_one: "w \<noteq> - 1 \<Longrightarrow> unat (w + 1) = unat w + 1" for w :: u32
  using unsigned_less [of w, where 'a = nat] by (auto simp: all_ones_iff unat_word_ariths)

text \<open>
  (C9) The semaphore refines the counter with a queue: give hands a token to the first waiting task, or adds one
  unless the 32 bits of the count are exhausted, and take uses one up, returns at once, or queues the
  caller behind all tasks that are at least as urgent; no other semaphore and no other wait list is touched.
\<close>

theorem semaphore_refines:
  fixes ticks :: tick_t
  assumes "may_block s" "obj_type (objs s i) = RHINO_SEM_OBJ_TYPE" "i \<noteq> NULL" "blk_policy (objs s i) = BLK_POLICY_PRI" "g_sched_lock s = 0"
  defines "g \<equiv> krhino_sem_give i s" and "t \<equiv> krhino_sem_take i ticks s"
  shows "give_spec (sem_view s i) = (fst g, sem_view (snd g) i)
    \<and> take_spec (\<lambda>u. prio (tasks s u)) (g_active_task s) (ticks \<noteq> RHINO_NO_WAIT) (sem_view s i) = (fst t, sem_view (snd t) i)
    \<and> (j \<noteq> i \<longrightarrow> sem_view (snd g) j = sem_view s j \<and> sem_view (snd t) j = sem_view s j)"
proof -
  note b = may_blockD [OF assms(1)]
  have B: "blk_ok (objs s) (tasks s)" using base_okD(2) [OF kinvD(1) [OF b(2)]] .
  have "give_spec (sem_view s i) = (fst g, sem_view (snd g) i) \<and> (j \<noteq> i \<longrightarrow> sem_view (snd g) j = sem_view s j)"
  proof (cases "blk_list (objs s i)")
    case Nil
    show ?thesis
    proof (cases "sem_count (sems s i) = - 1")
      case True
      then have "g = (RHINO_SEM_OVF, s)" using assms(2,3) Nil by (simp add: g_def krhino_sem_give_def sem_give_def)
      with True Nil show ?thesis by (simp add: sem_view_def all_ones_iff)
    next
      case False
      then obtain x where "g = (RHINO_SUCCESS, s\<lparr>sems := (sems s)(i := x)\<rparr>)" "sem_count x = sem_count (sems s i) + 1"
        using sem_give_counts [OF assms(2,3) Nil] by (auto simp: g_def)
      moreover have "unat (sem_count (sems s i) + 1) = unat (sem_count (sems s i)) + 1"
        using unat_plus_one [OF False] .
      ultimately show ?thesis using False Nil by (simp add: sem_view_def all_ones_iff)
    qed
  next
    case (Cons w ws)
    note e = sem_give_wakes [OF b(1) assms(2,3) Cons, folded g_def]
    with Cons show ?thesis by (cases g) (simp add: sem_view_def)
  qed
  moreover have "take_spec (\<lambda>u. prio (tasks s u)) (g_active_task s) (ticks \<noteq> RHINO_NO_WAIT) (sem_view s i) = (fst t, sem_view (snd t) i)
    \<and> (j \<noteq> i \<longrightarrow> sem_view (snd t) j = sem_view s j)"
  proof (cases "sem_count (sems s i) = 0")
    case True
    have "block_order (objs s i) (tasks s) (g_active_task s) = filter (\<lambda>u. prio (tasks s u) \<le> prio (tasks s (g_active_task s))) (blk_list (objs s i))
        @ g_active_task s # filter (\<lambda>u. prio (tasks s (g_active_task s)) < prio (tasks s u)) (blk_list (objs s i))"
      using assms(4) pl.ins_after_equal [OF blk_okD(3) [OF B assms(4)]] by (simp add: block_order_def)
    with True show ?thesis
      using assms(1-5) block_call_id [OF assms(1), where i = i and ticks = ticks]
      by (auto simp: t_def krhino_sem_take_def sem_view_def may_block_def)
  next
    case False
    then obtain n where "unat (sem_count (sems s i)) = Suc n" by (metis not0_implies_Suc unat_eq_zero)
    with False show ?thesis using assms(1-3)
      by (simp add: t_def krhino_sem_take_def may_block_def word_gt_0 upd_sem_def sem_view_def unat_minus_one)
  qed
  ultimately show ?thesis by blast
qed

text \<open>The contract of a pool of tokens with an upper limit.\<close>

locale token_pool =
  fixes ok :: "'s \<Rightarrow> bool" and tokens :: "'s \<Rightarrow> nat" and limit :: nat
    and give :: "'s \<Rightarrow> bool \<times> 's" and take :: "'s \<Rightarrow> bool \<times> 's"
  assumes give_adds: "ok s \<Longrightarrow> tokens s < limit \<Longrightarrow> fst (give s) \<and> ok (snd (give s)) \<and> tokens (snd (give s)) = tokens s + 1"
    and take_removes: "ok s \<Longrightarrow> 0 < tokens s \<Longrightarrow> fst (take s) \<and> ok (snd (take s)) \<and> tokens (snd (take s)) = tokens s - 1"
    and take_empty: "ok s \<Longrightarrow> tokens s = 0 \<Longrightarrow> \<not> fst (take s)"
begin

lemma gives: "ok s \<Longrightarrow> tokens s + n \<le> limit \<Longrightarrow> ok (((\<lambda>s. snd (give s)) ^^ n) s) \<and> tokens (((\<lambda>s. snd (give s)) ^^ n) s) = tokens s + n"
  by (induction n) (auto simp: give_adds)

lemma takes: "ok s \<Longrightarrow> n \<le> tokens s \<Longrightarrow> ok (((\<lambda>s. snd (take s)) ^^ n) s) \<and> tokens (((\<lambda>s. snd (take s)) ^^ n) s) = tokens s - n"
  by (induction n) (auto simp: take_removes)

lemma as_many_takes:
  assumes "ok s" "tokens s + n \<le> limit" "m \<le> tokens s + n"
  shows "fst (take (((\<lambda>s. snd (take s)) ^^ m) (((\<lambda>s. snd (give s)) ^^ n) s))) \<longleftrightarrow> m < tokens s + n"
  using gives [OF assms(1,2)] takes [of "((\<lambda>s. snd (give s)) ^^ n) s" m] assms(3) take_removes take_empty
  by (metis add_diff_inverse_nat diff_is_0_eq less_irrefl not_gr_zero zero_less_diff le_neq_implies_less not_le)

end

text \<open>A semaphore for which no task waits is such a pool.\<close>

definition idle_sem :: "oid \<Rightarrow> kernel \<Rightarrow> bool" where
  "idle_sem i s \<longleftrightarrow> g_intrpt_nested_level s = 0 \<and> obj_type (objs s i) = RHINO_SEM_OBJ_TYPE \<and> i \<noteq> NULL \<and> blk_list (objs s i) = []"

interpretation smp: token_pool "idle_sem i" "\<lambda>s. unat (sem_count (sems s i))" "2 ^ 32 - 1"
  "\<lambda>s. (fst (krhino_sem_give i s) = RHINO_SUCCESS, snd (krhino_sem_give i s))"
  "\<lambda>s. (fst (krhino_sem_take i ticks s) = Ret RHINO_SUCCESS, snd (krhino_sem_take i ticks s))" for i ticks
proof unfold_locales
  fix s
  assume s: "idle_sem i s"
  show "fst (fst (krhino_sem_give i s) = RHINO_SUCCESS, snd (krhino_sem_give i s))
    \<and> idle_sem i (snd (fst (krhino_sem_give i s) = RHINO_SUCCESS, snd (krhino_sem_give i s)))
    \<and> unat (sem_count (sems (snd (fst (krhino_sem_give i s) = RHINO_SUCCESS, snd (krhino_sem_give i s))) i)) = unat (sem_count (sems s i)) + 1"
    if "unat (sem_count (sems s i)) < 2 ^ 32 - 1"
  proof -
    have n: "sem_count (sems s i) \<noteq> - 1" using that by (simp add: all_ones_iff)
    obtain x where "krhino_sem_give i s = (RHINO_SUCCESS, s\<lparr>sems := (sems s)(i := x)\<rparr>)" "sem_count x = sem_count (sems s i) + 1"
      using sem_give_counts [of s i] s n by (auto simp: idle_sem_def)
    with s n show ?thesis by (simp add: unat_plus_one idle_sem_def)
  qed
  show "fst (fst (krhino_sem_take i ticks s) = Ret RHINO_SUCCESS, snd (krhino_sem_take i ticks s))
    \<and> idle_sem i (snd (fst (krhino_sem_take i ticks s) = Ret RHINO_SUCCESS, snd (krhino_sem_take i ticks s)))
    \<and> unat (sem_count (sems (snd (fst (krhino_sem_take i ticks s) = Ret RHINO_SUCCESS, snd (krhino_sem_take i ticks s))) i)) = unat (sem_count (sems s i)) - 1"
    if "0 < unat (sem_count (sems s i))"
    using that s by (simp add: idle_sem_def krhino_sem_take_def upd_sem_def word_gt_0 unat_minus_one unat_gt_0)
  show "\<not> fst (fst (krhino_sem_take i ticks s) = Ret RHINO_SUCCESS, snd (krhino_sem_take i ticks s))" if "unat (sem_count (sems s i)) = 0"
    using that s by (simp add: idle_sem_def krhino_sem_take_def unat_eq_zero)
qed

text \<open>
  (C32) A semaphore gives out exactly the tokens it was given: after \<open>n\<close> calls of give on a semaphore with count \<open>c\<close> for
  which no task waits, the next calls of take succeed as long as fewer than \<open>c + n\<close> of them have been made, and the one
  after that does not.
\<close>

theorem semaphore_tokens:
  fixes i :: oid and ticks :: tick_t
  assumes "g_intrpt_nested_level s = 0" "obj_type (objs s i) = RHINO_SEM_OBJ_TYPE" "i \<noteq> NULL" "blk_list (objs s i) = []"
    and "unat (sem_count (sems s i)) + n < 2 ^ 32" "m \<le> unat (sem_count (sems s i)) + n"
  defines "give \<equiv> \<lambda>s. snd (krhino_sem_give i s)" and "tak \<equiv> \<lambda>s. snd (krhino_sem_take i ticks s)"
  shows "fst (krhino_sem_take i ticks ((tak ^^ m) ((give ^^ n) s))) = Ret RHINO_SUCCESS \<longleftrightarrow> m < unat (sem_count (sems s i)) + n"
  using smp.as_many_takes [of i s n m ticks] assms(1-6) by (simp add: give_def tak_def idle_sem_def)

section \<open>Events\<close>

lemma bit_left_flags:
  "bit (left_flags s cur ts fl) n \<longleftrightarrow> bit fl n \<and> \<not> (\<exists>t \<in> set ts. satisfied s cur t
     \<and> pend_option (tasks s t) AND RHINO_FLAGS_CLEAR_MASK \<noteq> 0 \<and> bit (pend_flags (tasks s t)) n)"
proof (induction ts arbitrary: fl)
  case (Cons t ts)
  have "bit fl n \<Longrightarrow> n < 32" using bit_imp_le_length [of fl n] by simp
  then show ?case by (auto simp: Cons bit_and_iff bit_not_iff)
qed simp

text \<open>
  (C16) Setting flags wakes exactly the waiting tasks that the flags satisfy, all of them against the same flags: they
  stop waiting, the others stay queued in their order and unchanged, and afterwards those flags are cleared
  that some woken task asked to be cleared, and no others.
\<close>

theorem event_set_wakes:
  fixes flags :: u32
  assumes "kernel_ok s" "obj_type (objs s e) = RHINO_EVENT_OBJ_TYPE" "e \<noteq> NULL"
  defines "ws \<equiv> blk_list (objs s e)" and "cur \<equiv> event_flags (events s e) OR flags"
  defines "s' \<equiv> snd (krhino_event_set e flags RHINO_OR s)"
  shows "fst (krhino_event_set e flags RHINO_OR s) = RHINO_SUCCESS
    \<and> blk_list (objs s' e) = filter (\<lambda>t. \<not> event_met (pend_option (tasks s t)) (pend_flags (tasks s t)) cur) ws
    \<and> (\<forall>t \<in> set ws. if event_met (pend_option (tasks s t)) (pend_flags (tasks s t)) cur
         then \<not> pended (tasks s' t) \<and> blk_state (tasks s' t) = BLK_FINISH \<and> (task_state (tasks s t) = K_PEND \<longrightarrow> ready (tasks s' t))
         else tasks s' t = tasks s t)
    \<and> (\<forall>n. bit (event_flags (events s' e)) n \<longleftrightarrow> bit cur n \<and> \<not> (\<exists>t \<in> set ws. event_met (pend_option (tasks s t)) (pend_flags (tasks s t)) cur
         \<and> pend_option (tasks s t) AND RHINO_FLAGS_CLEAR_MASK \<noteq> 0 \<and> bit (pend_flags (tasks s t)) n))"
proof -
  define s1 where "s1 = upd_event e (\<lambda>x. x\<lparr>event_flags := event_flags x OR flags\<rparr>) s"
  define s2 where "s2 = event_set_loop e cur ws s1"
  have k1: "kinv s1" using kernel_okD(1) [OF assms(1)] by (simp add: s1_def upd_event_def)
  have "set_spec e cur [] ws s1 s2" unfolding s2_def using assms(2) by (intro event_set_loop_spec [OF k1]) (simp_all add: s1_def upd_event_def ws_def)
  note S = this [unfolded set_spec_def]
  have f: "tasks s1 = tasks s" "event_flags (events s1 e) = cur" by (simp_all add: s1_def upd_event_def cur_def)
  have "krhino_event_set e flags RHINO_OR s = (RHINO_SUCCESS, core_sched s2)"
    using assms(2,3) unfolding s2_def
    by (simp add: krhino_event_set_def event_set_def Let_def RHINO_OR_def RHINO_FLAGS_AND_MASK_def s1_def cur_def ws_def upd_event_def)
  with S f show ?thesis
    by (auto simp: s'_def satisfied_def woken_def pended_def ready_def bit_left_flags)
qed

section \<open>Deletion\<close>

lemma drained_facts:
  assumes "kernel_ok s" "s' = wake_all pend_task_rm i (upd_obj i (\<lambda>b. b\<lparr>obj_type := RHINO_OBJ_TYPE_NONE\<rparr>) s)"
  shows "blk_list (objs s' i) = []" "obj_type (objs s' i) = RHINO_OBJ_TYPE_NONE"
    "tasks s' = (\<lambda>u. if u \<in> set (blk_list (objs s i)) then woken BLK_DEL (tasks s u) else tasks s u)"
proof -
  let ?s1 = "upd_obj i (\<lambda>b. b\<lparr>obj_type := RHINO_OBJ_TYPE_NONE\<rparr>) s"
  have b: "base_ok ?s1" using kinvD(1) [OF kernel_okD(1) [OF assms(1)]] by (auto simp: base_ok_def blk_ok_def upd_obj_def)
  obtain q ts where "s' = ?s1\<lparr>g_ready_queue := q, g_tick_head := ts, objs := drained i (objs ?s1),
      tasks := (\<lambda>u. if u \<in> set (blk_list (objs ?s1 i)) then woken BLK_DEL (tasks ?s1 u) else tasks ?s1 u)\<rparr>"
    using wake_all_spec(2) [OF pend_task_rm_id neutral_id b, of i] assms(2) by blast
  then show "blk_list (objs s' i) = []" "obj_type (objs s' i) = RHINO_OBJ_TYPE_NONE"
    "tasks s' = (\<lambda>u. if u \<in> set (blk_list (objs s i)) then woken BLK_DEL (tasks s u) else tasks s u)"
    by (simp_all add: drained_def upd_obj_def fun_eq_iff)
qed

text \<open>
  (C15) The deletion of a semaphore, event, queue or buffer queue leaves no task waiting for it: every waiting task is
  released with \<^verbatim>\<open>RHINO_BLK_DEL\<close> as the result of its call, all other tasks are unchanged, and the object is invalid from then on.
\<close>

theorem object_del_releases:
  assumes "kernel_ok s" "r \<in> {krhino_sem_del i s, krhino_event_del i s, krhino_queue_del i s, krhino_buf_queue_del i s}"
    and "fst r = RHINO_SUCCESS"
  shows "obj_type (objs (snd r) i) = RHINO_OBJ_TYPE_NONE \<and> blk_list (objs (snd r) i) = []
    \<and> (\<forall>w \<in> set (blk_list (objs s i)). \<not> pended (tasks (snd r) w) \<and> (task_state (tasks s w) = K_PEND \<longrightarrow> ready (tasks (snd r) w))
         \<and> fst (pend_state_end_proc w (snd r)) = RHINO_BLK_DEL)
    \<and> (\<forall>u. u \<notin> set (blk_list (objs s i)) \<longrightarrow> tasks (snd r) u = tasks s u)"
proof -
  define s' where "s' = wake_all pend_task_rm i (upd_obj i (\<lambda>b. b\<lparr>obj_type := RHINO_OBJ_TYPE_NONE\<rparr>) s)"
  note d = drained_facts [OF assms(1) s'_def]
  have "objs (snd r) = objs s'" "tasks (snd r) = tasks s'"
    using assms(2,3) by (auto simp: krhino_sem_del_def sem_del_def krhino_event_del_def event_del_def krhino_queue_del_def queue_del_def
        krhino_buf_queue_del_def buf_queue_del_def Let_def s'_def upd_event_def upd_queue_def upd_buf_queue_def split: if_splits)
  with d show ?thesis by (auto simp: woken_def pended_def ready_def pend_state_end_proc_def)
qed

section \<open>A waiting task\<close>

text \<open>The timer task takes from an empty semaphore, or waits for two flags of an event, and the memory task runs.\<close>

definition demo_sem :: kernel where
  "demo_sem = snd (krhino_sem_create 0x5100 0x9000 0 demo_kernel)"

definition demo_sem_wait :: kernel where
  "demo_sem_wait = snd (krhino_sem_take 0x5100 RHINO_WAIT_FOREVER demo_sem)"

definition demo_event :: kernel where
  "demo_event = snd (krhino_event_create 0x5200 0x9000 4 demo_kernel)"

definition demo_event_wait :: kernel where
  "demo_event_wait = snd (krhino_event_get 0x5200 6 RHINO_AND_CLEAR 0x9800 RHINO_WAIT_FOREVER demo_event)"

lemma demo_may_block:
  assumes "kreach demo_image s" "tasks s = tasks demo_kernel" "g_active_task s = timer_tcb" "g_intrpt_nested_level s = 0"
  shows "may_block s"
  using kreach_ok [OF assms(1) demo_image_ok] assms(2-4) by (simp add: may_block_def demo_facts RHINO_IDLE_PRI_def RHINO_CONFIG_PRI_MAX_def)

lemma demo_block_active:
  assumes "kreach demo_image s" "tasks s = (tasks demo_kernel)(timer_tcb := k)" "\<not> ready k" "g_intrpt_nested_level s = 0" "g_sched_lock s = 0"
  shows "g_active_task s = dyn_task"
  by (rule active_is [OF kreach_ok [OF assms(1) demo_image_ok] assms(4,5)]) (use assms(2,3) in \<open>auto simp: demo_facts\<close>)

lemma demo_sem_facts:
  "kreach demo_image demo_sem" "may_block demo_sem" "obj_type (objs demo_sem 0x5100) = RHINO_SEM_OBJ_TYPE" "sem_count (sems demo_sem 0x5100) = 0"
  "blk_list (objs demo_sem 0x5100) = []" "blk_policy (objs demo_sem 0x5100) = BLK_POLICY_PRI" "g_sched_lock demo_sem = 0"
  "g_active_task demo_sem = timer_tcb" "g_intrpt_nested_level demo_sem = 0" "tasks demo_sem = tasks demo_kernel"
  "sem_alloc_flag (sems demo_sem 0x5100) = K_OBJ_STATIC_ALLOC"
proof -
  show k: "kreach demo_image demo_sem" unfolding demo_sem_def
    by (rule kreach.step [OF demo_reach(2)], rule kstep.sem_create) (simp add: demo_facts)
  show f: "obj_type (objs demo_sem 0x5100) = RHINO_SEM_OBJ_TYPE" "sem_count (sems demo_sem 0x5100) = 0"
    "blk_list (objs demo_sem 0x5100) = []" "blk_policy (objs demo_sem 0x5100) = BLK_POLICY_PRI" "g_sched_lock demo_sem = 0"
    "g_active_task demo_sem = timer_tcb" "g_intrpt_nested_level demo_sem = 0" "tasks demo_sem = tasks demo_kernel"
    "sem_alloc_flag (sems demo_sem 0x5100) = K_OBJ_STATIC_ALLOC"
    by (simp_all add: demo_sem_def krhino_sem_create_def sem_create_def upd_defs demo_facts demo_active)
  show "may_block demo_sem" by (rule demo_may_block [OF k f(8,6,7)])
qed

lemma demo_sem_wait_facts:
  "kreach demo_image demo_sem_wait" "blk_list (objs demo_sem_wait 0x5100) = [timer_tcb]" "obj_type (objs demo_sem_wait 0x5100) = RHINO_SEM_OBJ_TYPE"
  "sems demo_sem_wait = sems demo_sem" "g_intrpt_nested_level demo_sem_wait = 0" "task_state (tasks demo_sem_wait timer_tcb) = K_PEND"
proof -
  note f = demo_sem_facts
  show "kreach demo_image demo_sem_wait" unfolding demo_sem_wait_def using f(2)
    by (intro kreach.step [OF f(1)] kstep.sem_take) (simp add: wait_ok_def may_block_def)
  have e: "demo_sem_wait = core_sched (pend_to_blk_obj 0x5100 (g_active_task demo_sem) RHINO_WAIT_FOREVER demo_sem)"
    using f by (simp add: demo_sem_wait_def krhino_sem_take_def RHINO_WAIT_FOREVER_def RHINO_NO_WAIT_def)
  note b = block_call_id [OF f(2), where i = "0x5100" and ticks = RHINO_WAIT_FOREVER]
  show "blk_list (objs demo_sem_wait 0x5100) = [timer_tcb]" "obj_type (objs demo_sem_wait 0x5100) = RHINO_SEM_OBJ_TYPE"
    "sems demo_sem_wait = sems demo_sem" "g_intrpt_nested_level demo_sem_wait = 0" "task_state (tasks demo_sem_wait timer_tcb) = K_PEND"
    using b f unfolding e by (simp_all add: block_order_def)
qed

lemma demo_event_wait_facts:
  "kernel_ok demo_event_wait" "blk_list (objs demo_event_wait 0x5200) = [timer_tcb]" "obj_type (objs demo_event_wait 0x5200) = RHINO_EVENT_OBJ_TYPE"
  "event_flags (events demo_event_wait 0x5200) = 4" "pend_flags (tasks demo_event_wait timer_tcb) = 6"
  "pend_option (tasks demo_event_wait timer_tcb) = RHINO_AND_CLEAR" "task_state (tasks demo_event_wait timer_tcb) = K_PEND"
proof -
  have k: "kreach demo_image demo_event" unfolding demo_event_def
    by (rule kreach.step [OF demo_reach(2)], rule kstep.event_create) (simp add: demo_facts)
  have f: "obj_type (objs demo_event 0x5200) = RHINO_EVENT_OBJ_TYPE" "event_flags (events demo_event 0x5200) = 4"
    "blk_list (objs demo_event 0x5200) = []" "blk_policy (objs demo_event 0x5200) = BLK_POLICY_PRI" "g_sched_lock demo_event = 0"
    "g_active_task demo_event = timer_tcb" "g_intrpt_nested_level demo_event = 0" "tasks demo_event = tasks demo_kernel"
    by (simp_all add: demo_event_def krhino_event_create_def event_create_def upd_defs demo_facts demo_active)
  have m: "may_block demo_event" by (rule demo_may_block [OF k f(8,6,7)])
  show "kernel_ok demo_event_wait" unfolding demo_event_wait_def by (rule krhino_event_get_ok [OF m])
  let ?g = "\<lambda>k. k\<lparr>pend_option := RHINO_AND_CLEAR, pend_flags := 6, pend_info := 0x9800\<rparr>"
  have n: "neutral ?g" by (simp add: neutral_def)
  have "demo_event_wait = core_sched (pend_to_blk_obj 0x5200 (g_active_task demo_event) RHINO_WAIT_FOREVER (upd_task (g_active_task demo_event) ?g demo_event))"
    using f by (simp add: demo_event_wait_def krhino_event_get_def RHINO_WAIT_FOREVER_def RHINO_NO_WAIT_def event_met_def RHINO_AND_CLEAR_def
        RHINO_FLAGS_AND_MASK_def RHINO_AND_def RHINO_OR_def upd_task_def)
  note b = block_call [OF m n, where i = "0x5200" and ticks = RHINO_WAIT_FOREVER, folded this]
  show "blk_list (objs demo_event_wait 0x5200) = [timer_tcb]" "obj_type (objs demo_event_wait 0x5200) = RHINO_EVENT_OBJ_TYPE"
    "event_flags (events demo_event_wait 0x5200) = 4" "pend_flags (tasks demo_event_wait timer_tcb) = 6"
    "pend_option (tasks demo_event_wait timer_tcb) = RHINO_AND_CLEAR" "task_state (tasks demo_event_wait timer_tcb) = K_PEND"
    using b f by (simp_all add: block_order_def)
qed

theorem no_lost_wakeup_witness:
  "blk_list (objs demo_sem_wait 0x5100) = [timer_tcb] \<and> sem_count (sems demo_sem_wait 0x5100) = 0"
proof -
  note f = demo_sem_wait_facts
  have "timer_tcb \<in> set (blk_list (objs demo_sem_wait 0x5100))" by (simp add: f)
  from no_lost_wakeup [OF f(1) demo_image_ok this] f(2,3) show ?thesis by simp
qed

theorem semaphore_refines_witness:
  "(fst (krhino_sem_take 0x5100 RHINO_WAIT_FOREVER demo_sem), sem_view demo_sem_wait 0x5100) = (Pending, 0, [timer_tcb])"
  using semaphore_refines [OF demo_sem_facts(2,3) _ demo_sem_facts(6,7), of RHINO_WAIT_FOREVER] demo_sem_facts
  by (simp add: sem_view_def demo_sem_wait_def RHINO_WAIT_FOREVER_def RHINO_NO_WAIT_def)

theorem semaphore_tokens_witness:
  "fst (krhino_sem_take 0x5100 RHINO_NO_WAIT (snd (krhino_sem_take 0x5100 RHINO_NO_WAIT
     (snd (krhino_sem_give 0x5100 (snd (krhino_sem_give 0x5100 demo_sem))))))) = Ret RHINO_SUCCESS"
  using semaphore_tokens [OF demo_sem_facts(9,3) _ demo_sem_facts(5), of "Suc (Suc 0)" "Suc 0" RHINO_NO_WAIT] demo_sem_facts by simp

theorem event_set_wakes_witness:
  "fst (krhino_event_set 0x5200 3 RHINO_OR demo_event_wait) = RHINO_SUCCESS
   \<and> blk_list (objs (snd (krhino_event_set 0x5200 3 RHINO_OR demo_event_wait)) 0x5200) = []
   \<and> ready (tasks (snd (krhino_event_set 0x5200 3 RHINO_OR demo_event_wait)) timer_tcb)
   \<and> bit (event_flags (events (snd (krhino_event_set 0x5200 3 RHINO_OR demo_event_wait)) 0x5200)) 0
   \<and> \<not> bit (event_flags (events (snd (krhino_event_set 0x5200 3 RHINO_OR demo_event_wait)) 0x5200)) 1"
  using event_set_wakes [OF demo_event_wait_facts(1,3), of 3] demo_event_wait_facts(2,4-7)
  by (simp add: event_met_def RHINO_AND_CLEAR_def RHINO_FLAGS_AND_MASK_def RHINO_FLAGS_CLEAR_MASK_def)

theorem object_del_releases_witness:
  "fst (krhino_sem_del 0x5100 demo_sem_wait) = RHINO_SUCCESS \<and> ready (tasks (snd (krhino_sem_del 0x5100 demo_sem_wait)) timer_tcb)
   \<and> fst (pend_state_end_proc timer_tcb (snd (krhino_sem_del 0x5100 demo_sem_wait))) = RHINO_BLK_DEL"
proof -
  note f = demo_sem_wait_facts
  have s: "fst (krhino_sem_del 0x5100 demo_sem_wait) = RHINO_SUCCESS" using f demo_sem_facts(11) by (simp add: krhino_sem_del_def)
  from object_del_releases [OF kreach_ok [OF f(1) demo_image_ok] _ this, of "0x5100"] s f(2,6) show ?thesis by simp
qed

end
