(* ===== verification/Rhino_Messages.thy ===== *)
theory Rhino_Messages
  imports Rhino_Sync
begin

text \<open>
  Message queues and buffer queues: both are message rings, messages come out in the order and with the content they were
  sent, and a message for which a task waits is handed over to it directly.
\<close>

section \<open>Queues of pointers\<close>

text \<open>A queue that holds the messages \<open>ms\<close> and at which no task waits.\<close>

definition queue_holds :: "oid \<Rightarrow> kernel \<Rightarrow> ptr list \<Rightarrow> bool" where
  "queue_holds i s ms \<longleftrightarrow> i \<noteq> NULL \<and> obj_type (objs s i) = RHINO_QUEUE_OBJ_TYPE \<and> blk_list (objs s i) = [] \<and> q_holds (queues s i) (map ptr_bytes ms)"

definition queue_put :: "oid \<Rightarrow> ptr \<Rightarrow> kernel \<Rightarrow> kernel option" where
  "queue_put i m s = (let (st, s') = krhino_queue_back_send i m s in if st = RHINO_SUCCESS then Some s' else None)"

text \<open>\<open>p\<close> is where the receiver wants the message.\<close>

definition queue_get :: "oid \<Rightarrow> ptr \<Rightarrow> kernel \<Rightarrow> (ptr \<times> kernel) option" where
  "queue_get i p s = (let (r, s') = krhino_queue_recv i RHINO_NO_WAIT p s in if r = Ret RHINO_SUCCESS then Some (user_words s' p, s') else None)"

lemma queue_send_stores:
  assumes "queue_holds i s ms" "q_cur_num (queues s i) < q_size (queues s i)"
  shows "\<exists>q. krhino_queue_back_send i m s = (RHINO_SUCCESS, s\<lparr>queues := (queues s)(i := q)\<rparr>) \<and> q_holds q (map ptr_bytes (ms @ [m])) \<and> q_size q = q_size (queues s i)"
proof -
  let ?q = "queues s i"
  have h: "q_holds ?q (map ptr_bytes ms)" "i \<noteq> NULL" "obj_type (objs s i) = RHINO_QUEUE_OBJ_TYPE" "blk_list (objs s i) = []"
    using assms(1) by (simp_all add: queue_holds_def)
  obtain rb where rb: "ringbuf_push (q_ringbuf ?q) (ptr_bytes m) SIZEOF_PTR = Some (RHINO_SUCCESS, rb)"
    and H: "\<And>pk. q_cur_num ?q + 1 \<le> pk \<Longrightarrow> pk \<le> q_size ?q \<Longrightarrow>
      q_holds (?q\<lparr>q_cur_num := q_cur_num ?q + 1, q_peak_num := pk, q_ringbuf := rb\<rparr>) (map ptr_bytes ms @ [ptr_bytes m])"
    using q_push [OF h(1) assms(2)] by blast
  define pk where "pk = (if q_cur_num ?q + 1 > q_peak_num ?q then q_cur_num ?q + 1 else q_peak_num ?q)"
  have "pk \<le> q_size ?q" "q_cur_num ?q + 1 \<le> pk" using h(1) assms(2) by (auto simp: q_holds_def pk_def)
  from H [OF this(2,1)] have "q_holds (?q\<lparr>q_cur_num := q_cur_num ?q + 1, q_peak_num := pk, q_ringbuf := rb\<rparr>) (map ptr_bytes (ms @ [m]))" by simp
  moreover have "krhino_queue_back_send i m s
      = (RHINO_SUCCESS, s\<lparr>queues := (queues s)(i := ?q\<lparr>q_cur_num := q_cur_num ?q + 1, q_peak_num := pk, q_ringbuf := rb\<rparr>)\<rparr>)"
    using h(2-4) assms(2) rb by (simp add: krhino_queue_back_send_def msg_send_def Let_def upd_queue_def pk_def)
  ultimately show ?thesis by auto
qed

lemma queue_recv_oldest:
  assumes "queue_holds i s (m # ms)" "p \<noteq> NULL"
  shows "\<exists>q. krhino_queue_recv i RHINO_NO_WAIT p s = (Ret RHINO_SUCCESS, s\<lparr>user_words := (user_words s)(p := m), queues := (queues s)(i := q)\<rparr>)
    \<and> q_holds q (map ptr_bytes ms) \<and> q_size q = q_size (queues s i)"
proof -
  let ?q = "queues s i"
  have h: "q_holds ?q (ptr_bytes m # map ptr_bytes ms)" "i \<noteq> NULL" "obj_type (objs s i) = RHINO_QUEUE_OBJ_TYPE"
    using assms(1) by (simp_all add: queue_holds_def)
  obtain rb where "ringbuf_pop (q_ringbuf ?q) False = Some (RHINO_SUCCESS, ptr_bytes m, 4, rb)"
    "q_holds (?q\<lparr>q_ringbuf := rb, q_cur_num := q_cur_num ?q - 1\<rparr>) (map ptr_bytes ms)"
    using q_pop [OF h(1)] by blast
  moreover have "q_cur_num ?q > 0" using h(1) by (simp add: q_holds_def)
  ultimately show ?thesis using h(2,3) assms(2)
    by (intro exI [of _ "?q\<lparr>q_ringbuf := rb, q_cur_num := q_cur_num ?q - 1\<rparr>"]) (simp add: krhino_queue_recv_def Let_def put_word_def upd_queue_def)
qed

interpretation kqm: message_ring "\<lambda>s ms. queue_holds i s ms \<and> p \<noteq> NULL" "\<lambda>_ _. True" "\<lambda>s _. q_cur_num (queues s i) < q_size (queues s i)" "queue_put i" "queue_get i p" for i p
proof (unfold_locales, goal_cases)
  case (1 s ms m)
  then show ?case using queue_send_stores [of i s ms m] by (auto simp: queue_put_def queue_holds_def)
next
  case (2 s ms m)
  then show ?case by (simp add: queue_put_def krhino_queue_back_send_def msg_send_def queue_holds_def)
next
  case (3 s)
  then show ?case by (simp add: queue_get_def krhino_queue_recv_def queue_holds_def q_holds_def)
next
  case (4 s m ms)
  then show ?case using queue_recv_oldest [of i s m ms p] by (auto simp: queue_get_def queue_holds_def)
qed

lemma queue_create_empty:
  assumes "fst (krhino_queue_create i name start mem n s) = RHINO_SUCCESS" "length mem = n * SIZEOF_PTR" "length mem < 2 ^ 32"
  shows "queue_holds i (snd (krhino_queue_create i name start mem n s)) [] \<and> q_size (queues (snd (krhino_queue_create i name start mem n s)) i) = n"
proof -
  have a: "i \<noteq> NULL" "start \<noteq> NULL" "name \<noteq> NULL" "n \<noteq> 0"
    using assms(1) by (auto simp: krhino_queue_create_def queue_create_def split: if_splits)
  have m: "take (n * SIZEOF_PTR mod 4294967296) mem = mem" using assms(2,3) by simp
  have "rb_holds (ringbuf_init mem RINGBUF_TYPE_FIX SIZEOF_PTR) []" using assms(2,3) a(4) by (intro rb_holds_init) (auto simp: SIZEOF_PTR_def)
  then show ?thesis
    using a m assms(2) by (simp add: krhino_queue_create_def queue_create_def Let_def upd_defs queue_holds_def q_holds_def ringbuf_init_def ringbuf_reset_def SIZEOF_PTR_def)
qed

lemma queue_send_all:
  "queue_holds i s ns \<Longrightarrow> if length ns + length ms \<le> q_size (queues s i)
    then \<exists>s'. push_all (queue_put i) ms s = Some s' \<and> queue_holds i s' (ns @ ms)
    else push_all (queue_put i) ms s = None"
proof (induction ms arbitrary: s ns)
  case Nil
  then show ?case using ring_count(2) [of "queues s i"] by (fastforce simp: queue_holds_def)
next
  case (Cons m ms)
  have c: "q_cur_num (queues s i) = length ns" using Cons.prems by (simp add: queue_holds_def q_holds_def)
  show ?case
  proof (cases "length ns < q_size (queues s i)")
    case True
    then obtain q where q: "krhino_queue_back_send i m s = (RHINO_SUCCESS, s\<lparr>queues := (queues s)(i := q)\<rparr>)"
      "q_holds q (map ptr_bytes (ns @ [m]))" "q_size q = q_size (queues s i)"
      using queue_send_stores [OF Cons.prems, of m] c by auto
    have "queue_holds i (s\<lparr>queues := (queues s)(i := q)\<rparr>) (ns @ [m])" using Cons.prems q(2) by (simp add: queue_holds_def)
    moreover have "queue_put i m s = Some (s\<lparr>queues := (queues s)(i := q)\<rparr>)" using q(1) by (simp add: queue_put_def)
    ultimately show ?thesis using Cons.IH [of "s\<lparr>queues := (queues s)(i := q)\<rparr>" "ns @ [m]"] q(3) by (auto split: if_splits)
  next
    case False
    then have "queue_put i m s = None" using kqm.push_no_fit [of i s ns 1 m] Cons.prems c by simp
    with False show ?thesis by simp
  qed
qed

text \<open>
  (C7) A queue delivers first in, first out: after its creation it accepts as many messages as it was created for and not one more,
  and the messages sent are received unchanged and in the order they were sent, after which the queue is empty.
\<close>

theorem queue_fifo:
  assumes "krhino_queue_create i name start mem n s = (RHINO_SUCCESS, s0)" "length mem = n * SIZEOF_PTR" "length mem < 2 ^ 32" "p \<noteq> NULL"
  shows "if length ms \<le> n
    then \<exists>s1 s2. push_all (queue_put i) ms s0 = Some s1 \<and> pop_n (queue_get i p) (length ms) s1 = Some (ms, s2) \<and> queue_get i p s2 = None
    else push_all (queue_put i) ms s0 = None"
proof -
  have c: "queue_holds i s0 []" "q_size (queues s0 i) = n" using queue_create_empty [of i name start mem n s] assms(1-3) by simp_all
  have "\<exists>s2. pop_n (queue_get i p) (length ms) s1 = Some (ms, s2) \<and> queue_get i p s2 = None" if "queue_holds i s1 ms" for s1
    using kqm.pop_n_holds [of i s1 ms "[]" p] kqm.pop_Nil [of i _ p] that assms(4) by auto
  then show ?thesis using queue_send_all [OF c(1), of ms] c(2) by auto
qed

text \<open>
  (C33) A queue never holds more messages than it has room for: in every reachable state the number of messages and its peak
  are at most the size, and sending to a queue with no room left reports \<^verbatim>\<open>RHINO_QUEUE_FULL\<close> and changes nothing.
\<close>

theorem queue_bounded:
  assumes "kreach img s" "image_ok img" "obj_type (objs s i) = RHINO_QUEUE_OBJ_TYPE"
  shows "q_cur_num (queues s i) \<le> q_peak_num (queues s i) \<and> q_peak_num (queues s i) \<le> q_size (queues s i)
    \<and> (i \<noteq> NULL \<and> q_cur_num (queues s i) = q_size (queues s i) \<longrightarrow> krhino_queue_back_send i m s = (RHINO_QUEUE_FULL, s))"
proof -
  obtain ms where "q_holds (queues s i) ms" using kernel_okD(4) [OF kreach_ok [OF assms(1,2)], of i] queue_obj_inv [OF assms(3)] by blast
  with assms(3) show ?thesis by (simp add: q_holds_def krhino_queue_back_send_def msg_send_def)
qed

section \<open>Handing over\<close>

lemma msg_recv_eq:
  assumes "kernel_ok s" "blk_list (objs s i) = w # ws" "neutral g"
  shows "\<exists>q ts. pend_task_wakeup w (upd_task w g s) = s\<lparr>g_ready_queue := q, g_tick_head := ts,
      objs := (objs s)(i := (objs s i)\<lparr>blk_list := ws\<rparr>), tasks := (tasks s)(w := woken BLK_FINISH (g (tasks s w)))\<rparr>"
proof -
  let ?s = "upd_task w g s"
  have b: "base_ok ?s" using kinvD(1) [OF neutral_kinvx [OF kernel_okD(1) [OF assms(1)] assms(3)]] .
  have "pended (tasks s w)" "blk_obj (tasks s w) = i"
    using blk_okD(2) [OF base_okD(2) [OF kinvD(1) [OF kernel_okD(1) [OF assms(1)]]], of w i] assms(2) by auto
  then have w: "pended (tasks ?s w)" "blk_obj (tasks ?s w) = i" using assms(3) by (simp_all add: upd_task_def pended_def neutral_def)
  show ?thesis using pend_task_wakeup_wake(1) [OF b w(1)] wake_eq [of w BLK_FINISH ?s] w(2) assms(2) by (auto simp: upd_task_def)
qed

text \<open>
  (C21) A message for which a task waits is handed over without passing through the queue: the first waiting task is
  released with it, the queue and the other waiting tasks are unchanged, and when the released task goes on with its call
  it returns \<^verbatim>\<open>RHINO_SUCCESS\<close> and delivers this message.
\<close>

theorem queue_hand_over:
  fixes m :: ptr
  assumes "kernel_ok s" "i \<noteq> NULL" "obj_type (objs s i) = RHINO_QUEUE_OBJ_TYPE" "blk_list (objs s i) = w # ws"
  defines "s' \<equiv> snd (krhino_queue_back_send i m s)"
  shows "fst (krhino_queue_back_send i m s) = RHINO_SUCCESS \<and> queues s' = queues s \<and> blk_list (objs s' i) = ws
    \<and> (task_state (tasks s w) = K_PEND \<longrightarrow> ready (tasks s' w)) \<and> (u \<noteq> w \<longrightarrow> tasks s' u = tasks s u)
    \<and> (g_active_task s'' = w \<and> tasks s'' w = tasks s' w \<longrightarrow>
         fst (krhino_queue_recv_end p s'') = RHINO_SUCCESS \<and> user_words (snd (krhino_queue_recv_end p s'')) p = m)"
proof -
  have n: "neutral (\<lambda>k. k\<lparr>task_msg := m\<rparr>)" by (simp add: neutral_def)
  obtain q ts where W: "pend_task_wakeup w (upd_task w (\<lambda>k. k\<lparr>task_msg := m\<rparr>) s) = s\<lparr>g_ready_queue := q, g_tick_head := ts,
      objs := (objs s)(i := (objs s i)\<lparr>blk_list := ws\<rparr>), tasks := (tasks s)(w := woken BLK_FINISH ((tasks s w)\<lparr>task_msg := m\<rparr>))\<rparr>"
    using msg_recv_eq [OF assms(1,4) n] by blast
  obtain ms where "q_holds (queues s i) ms" "ms = []" using kernel_okD(4) [OF assms(1), of i] queue_obj_inv [OF assms(3)] assms(4) by auto
  then have "q_cur_num (queues s i) < q_size (queues s i)" using ring_count(4) [of "queues s i" ms] by (auto simp: q_holds_def)
  then have e: "krhino_queue_back_send i m s = (RHINO_SUCCESS, core_sched (s\<lparr>g_ready_queue := q, g_tick_head := ts,
      objs := (objs s)(i := (objs s i)\<lparr>blk_list := ws\<rparr>), tasks := (tasks s)(w := woken BLK_FINISH ((tasks s w)\<lparr>task_msg := m\<rparr>))\<rparr>))"
    using assms(2-4) by (simp add: krhino_queue_back_send_def msg_send_def task_msg_recv_def W)
  then show ?thesis
    by (simp add: s'_def woken_def ready_def krhino_queue_recv_end_def pend_state_end_proc_def put_word_def)
qed

section \<open>Buffer queues\<close>

text \<open>A buffer queue that holds \<open>ms\<close>, with no task waiting; \<open>fixed\<close> tells whether its messages are blocks of the maximal size \<open>M\<close>.\<close>

definition buf_queue_holds :: "bool \<Rightarrow> nat \<Rightarrow> oid \<Rightarrow> kernel \<Rightarrow> byte list list \<Rightarrow> bool" where
  "buf_queue_holds fixed M i s ms \<longleftrightarrow> i \<noteq> NULL \<and> obj_type (objs s i) = RHINO_BUF_QUEUE_OBJ_TYPE \<and> blk_list (objs s i) = []
     \<and> bq_holds (buf_queues s i) ms \<and> max_msg_size (buf_queues s i) = M \<and> (rb_type (bq_ringbuf (buf_queues s i)) = RINGBUF_TYPE_FIX \<longleftrightarrow> fixed)"

definition buf_acceptable :: "bool \<Rightarrow> nat \<Rightarrow> byte list \<Rightarrow> bool" where
  "buf_acceptable fixed M m \<longleftrightarrow> m \<noteq> [] \<and> length m \<le> M \<and> (fixed \<longrightarrow> length m = M) \<and> length m + RING_BUF_LEN < 2 ^ 32"

definition buf_put :: "oid \<Rightarrow> ptr \<Rightarrow> byte list \<Rightarrow> kernel \<Rightarrow> kernel option" where
  "buf_put i msg m s = (let (st, s') = krhino_buf_queue_send i msg m (length m) s in if st = RHINO_SUCCESS then Some s' else None)"

definition buf_get :: "oid \<Rightarrow> ptr \<Rightarrow> ptr \<Rightarrow> kernel \<Rightarrow> (byte list \<times> kernel) option" where
  "buf_get i msg sz s = (let (r, s') = krhino_buf_queue_recv i RHINO_NO_WAIT msg sz s
     in if r = Ret RHINO_SUCCESS then Some (take (unat (user_words s' sz)) (user_bufs s' msg), s') else None)"

lemma buf_send_step:
  assumes "buf_queue_holds fixed M i s ms" "buf_acceptable fixed M m" "msg \<noteq> NULL"
  shows "if rb_fits (bq_ringbuf (buf_queues s i)) m
    then \<exists>q. krhino_buf_queue_send i msg m (length m) s = (RHINO_SUCCESS, s\<lparr>buf_queues := (buf_queues s)(i := q)\<rparr>)
      \<and> bq_holds q (ms @ [m]) \<and> max_msg_size q = M \<and> rb_type (bq_ringbuf q) = rb_type (bq_ringbuf (buf_queues s i))
    else fst (krhino_buf_queue_send i msg m (length m) s) = RHINO_BUF_QUEUE_FULL"
proof -
  let ?q = "buf_queues s i"
  have h: "bq_holds ?q ms" "i \<noteq> NULL" "obj_type (objs s i) = RHINO_BUF_QUEUE_OBJ_TYPE" "blk_list (objs s i) = []" "max_msg_size ?q = M"
    "rb_type (bq_ringbuf ?q) = RINGBUF_TYPE_FIX \<longleftrightarrow> fixed"
    using assms(1) by (simp_all add: buf_queue_holds_def)
  have r: "rb_holds (bq_ringbuf ?q) ms" "rb_type (bq_ringbuf ?q) = RINGBUF_TYPE_FIX \<longrightarrow> rb_blk_size (bq_ringbuf ?q) = M"
    "bq_cur_num ?q = length ms" "bq_cur_num ?q \<le> bq_peak_num ?q" "min_free_buf_size ?q \<le> rb_freesize (bq_ringbuf ?q)"
    using h(1,5) by (simp_all add: bq_holds_def)
  have m: "0 < length m" "length m \<le> max_msg_size ?q" "may_send ?q m (length m)" "rb_msg_ok (bq_ringbuf ?q) m"
    "length (rb_encode (bq_ringbuf ?q) m) < 2 ^ 32" "take (sent_bytes (bq_ringbuf ?q) (length m)) m = m"
    using assms(2) h(5,6) r(2) by (auto simp: buf_acceptable_def may_send_def sent_bytes_def rb_msg_ok_def rb_encode_def RING_BUF_LEN_def)
  show ?thesis
  proof (cases "rb_fits (bq_ringbuf ?q) m")
    case False
    then have "ringbuf_push (bq_ringbuf ?q) m (length m) = Some (RHINO_RINGBUF_FULL, bq_ringbuf ?q)"
      using ringbuf_push_full [OF r(1) m(4) _ m(5)] by (simp add: rb_fits_def)
    with False show ?thesis using h m(1,2) assms(3) by (simp add: krhino_buf_queue_send_def buf_queue_send_def Let_def)
  next
    case True
    then obtain rb where rb: "ringbuf_push (bq_ringbuf ?q) m (length m) = Some (RHINO_SUCCESS, rb)" "rb_type rb = rb_type (bq_ringbuf ?q)"
      using rb_holds_push [OF r(1) m(4)] by (auto simp: rb_fits_def)
    have B: "length ms + 1 < 2 ^ 32 \<and> (\<forall>pk mf. length ms + 1 \<le> pk \<longrightarrow> mf \<le> rb_freesize rb \<longrightarrow>
      bq_holds (?q\<lparr>bq_ringbuf := rb, bq_cur_num := length ms + 1, bq_peak_num := pk, min_free_buf_size := mf\<rparr>) (ms @ [m]))"
    proof (rule bq_push [OF h(1) m(1-3)], goal_cases)
      case 1
      then show ?case using rb(1) by simp
    next
      case (2 rb')
      then have "rb' = rb" using rb(1) by simp
      with 2 m(6) show ?case by simp
    qed
    define pk where "pk = (if bq_peak_num ?q < length ms + 1 then length ms + 1 else bq_peak_num ?q)"
    define mf where "mf = (if min_free_buf_size ?q > rb_freesize rb then rb_freesize rb else min_free_buf_size ?q)"
    have "bq_holds (?q\<lparr>bq_ringbuf := rb, bq_cur_num := length ms + 1, bq_peak_num := pk, min_free_buf_size := mf\<rparr>) (ms @ [m])"
      using B by (simp add: pk_def mf_def)
    moreover have "krhino_buf_queue_send i msg m (length m) s = (RHINO_SUCCESS,
        s\<lparr>buf_queues := (buf_queues s)(i := ?q\<lparr>bq_ringbuf := rb, bq_cur_num := length ms + 1, bq_peak_num := pk, min_free_buf_size := mf\<rparr>)\<rparr>)"
      using h m(1,2) assms(3) rb(1) r(3) conjunct1 [OF B] by (simp add: krhino_buf_queue_send_def buf_queue_send_def Let_def upd_buf_queue_def pk_def mf_def)
    ultimately show ?thesis using True h(5) rb(2) by auto
  qed
qed

lemma buf_recv_step:
  assumes "buf_queue_holds fixed M i s (m # ms)" "msg \<noteq> NULL" "sz \<noteq> NULL" "ticks = RHINO_NO_WAIT \<or> g_intrpt_nested_level s = 0"
  shows "\<exists>q. krhino_buf_queue_recv i ticks msg sz s = (Ret RHINO_SUCCESS,
      (put_word sz (of_nat (length m)) (put_buf msg m s))\<lparr>buf_queues := (buf_queues s)(i := q)\<rparr>)
    \<and> length m < 2 ^ 32 \<and> buf_queue_holds fixed M i (s\<lparr>buf_queues := (buf_queues s)(i := q)\<rparr>) ms"
proof -
  let ?q = "buf_queues s i"
  have h: "bq_holds ?q (m # ms)" "i \<noteq> NULL" "obj_type (objs s i) = RHINO_BUF_QUEUE_OBJ_TYPE" "blk_list (objs s i) = []" "max_msg_size ?q = M"
    "rb_type (bq_ringbuf ?q) = RINGBUF_TYPE_FIX \<longleftrightarrow> fixed"
    using assms(1) by (simp_all add: buf_queue_holds_def)
  have r: "rb_holds (bq_ringbuf ?q) (m # ms)" using h(1) by (simp add: bq_holds_def)
  have ne: "\<not> ringbuf_is_empty (bq_ringbuf ?q)" using rb_holds_empty [OF r] by simp
  obtain rb where rb: "ringbuf_pop (bq_ringbuf ?q) True = Some (RHINO_SUCCESS, m, length m, rb)" "rb_type rb = rb_type (bq_ringbuf ?q)"
    using rb_holds_pop [OF r] by blast
  define q where "q = ?q\<lparr>bq_ringbuf := rb, bq_cur_num := (bq_cur_num ?q + (2 ^ 32 - 1)) mod 2 ^ 32\<rparr>"
  have "bq_holds q ms" unfolding q_def
    by (rule bq_pop [OF h(1) ne]) (use rb(1) in simp)
  then have "buf_queue_holds fixed M i (s\<lparr>buf_queues := (buf_queues s)(i := q)\<rparr>) ms"
    using h(2-6) rb(2) by (simp add: buf_queue_holds_def q_def)
  moreover have "krhino_buf_queue_recv i ticks msg sz s = (Ret RHINO_SUCCESS,
      (put_word sz (of_nat (length m)) (put_buf msg m s))\<lparr>buf_queues := (buf_queues s)(i := q)\<rparr>)"
    using h(2,3) ne rb(1) assms(2-4) by (auto simp add: krhino_buf_queue_recv_def Let_def upd_buf_queue_def put_word_def put_buf_def q_def)
  moreover have "length m < 2 ^ 32"
    using rb_holds_used [OF r] r by (auto simp: rb_holds_def rb_wf_def rb_encode_def split: if_splits)
  ultimately show ?thesis by blast
qed

lemma buf_queue_holds_frame:
  "buf_queue_holds fixed M i (put_word a v s) ms = buf_queue_holds fixed M i s ms"
  "buf_queue_holds fixed M i (put_buf a bs s) ms = buf_queue_holds fixed M i s ms"
  by (simp_all add: buf_queue_holds_def put_word_def put_buf_def)

interpretation kbm: message_ring "\<lambda>s ms. buf_queue_holds fixed M i s ms \<and> msg \<noteq> NULL \<and> sz \<noteq> NULL" "\<lambda>_. buf_acceptable fixed M"
  "\<lambda>s. rb_fits (bq_ringbuf (buf_queues s i))" "buf_put i msg" "buf_get i msg sz" for fixed M i msg sz
proof (unfold_locales, goal_cases)
  case (1 s ms m)
  then obtain q where "krhino_buf_queue_send i msg m (length m) s = (RHINO_SUCCESS, s\<lparr>buf_queues := (buf_queues s)(i := q)\<rparr>)"
    "bq_holds q (ms @ [m])" "max_msg_size q = M" "rb_type (bq_ringbuf q) = rb_type (bq_ringbuf (buf_queues s i))"
    using buf_send_step [of fixed M i s ms m msg] by auto
  with 1 show ?case by (auto simp: buf_put_def buf_queue_holds_def)
next
  case (2 s ms m)
  then have "fst (krhino_buf_queue_send i msg m (length m) s) = RHINO_BUF_QUEUE_FULL" using buf_send_step [of fixed M i s ms m msg] by auto
  then show ?case by (simp add: buf_put_def split_beta)
next
  case (3 s)
  then have "ringbuf_is_empty (bq_ringbuf (buf_queues s i))" using rb_holds_empty by (auto simp: buf_queue_holds_def bq_holds_def)
  with 3 show ?case by (simp add: buf_get_def krhino_buf_queue_recv_def buf_queue_holds_def)
next
  case (4 s m ms)
  then obtain q where q: "krhino_buf_queue_recv i RHINO_NO_WAIT msg sz s = (Ret RHINO_SUCCESS,
      (put_word sz (of_nat (length m)) (put_buf msg m s))\<lparr>buf_queues := (buf_queues s)(i := q)\<rparr>)"
    "length m < 2 ^ 32" "buf_queue_holds fixed M i (s\<lparr>buf_queues := (buf_queues s)(i := q)\<rparr>) ms"
    using buf_recv_step [of fixed M i s m ms msg sz RHINO_NO_WAIT] by auto
  then have "buf_queue_holds fixed M i ((put_word sz (of_nat (length m)) (put_buf msg m s))\<lparr>buf_queues := (buf_queues s)(i := q)\<rparr>) ms"
    by (simp add: buf_queue_holds_def put_word_def put_buf_def)
  with q 4 show ?case by (simp add: buf_get_def put_word_def put_buf_def take_bit_nat_eq_self unat_of_nat)
qed

lemma buf_queue_create_empty:
  assumes "r = (if fixed then krhino_fix_buf_queue_create i name buf mem M n s else krhino_buf_queue_create i name buf mem (length mem) M s)"
    and "fst r = RHINO_SUCCESS" "length mem < 2 ^ 32" "fixed \<longrightarrow> length mem = M * n"
  shows "buf_queue_holds fixed M i (snd r) []"
proof -
  define ty where "ty = (if fixed then RINGBUF_TYPE_FIX else RINGBUF_TYPE_DYN)"
  have r: "r = buf_queue_create i name buf mem (length mem) M K_OBJ_STATIC_ALLOC ty s"
    using assms(1,3,4) by (cases fixed) (simp_all add: krhino_fix_buf_queue_create_def krhino_buf_queue_create_def ty_def)
  have a: "i \<noteq> NULL" "buf \<noteq> NULL" "name \<noteq> NULL" "M \<noteq> 0" "length mem \<noteq> 0" using assms(2) by (auto simp: r buf_queue_create_def split: if_splits)
  have "rb_holds (ringbuf_init mem ty M) []" using a assms(3,4) by (intro rb_holds_init) (auto simp: ty_def RINGBUF_TYPE_FIX_def RINGBUF_TYPE_DYN_def)
  with a show ?thesis
    by (auto simp: r buf_queue_create_def Let_def upd_defs buf_queue_holds_def bq_holds_def ringbuf_init_def ringbuf_reset_def ty_def
        RINGBUF_TYPE_FIX_def RINGBUF_TYPE_DYN_def)
qed

text \<open>
  (C8) A buffer queue delivers first in, first out and byte for byte, for messages of variable length and for blocks of fixed
  size alike: after its creation, messages sent one after the other with success are received with the lengths and
  in the order they were sent, after which the queue is empty.
\<close>

theorem buf_queue_fifo:
  assumes "(if fixed then krhino_fix_buf_queue_create i name buf mem M n s else krhino_buf_queue_create i name buf mem (length mem) M s) = (RHINO_SUCCESS, s0)"
    and "length mem < 2 ^ 32" "fixed \<longrightarrow> length mem = M * n" "msg \<noteq> NULL" "sz \<noteq> NULL"
    and "\<forall>m \<in> set ms. m \<noteq> [] \<and> length m \<le> M \<and> (fixed \<longrightarrow> length m = M) \<and> length m + RING_BUF_LEN < 2 ^ 32"
    and "push_all (buf_put i msg) ms s0 = Some s1"
  shows "\<exists>s2. pop_n (buf_get i msg sz) (length ms) s1 = Some (ms, s2) \<and> buf_get i msg sz s2 = None"
proof -
  have "buf_queue_holds fixed M i s0 []" using buf_queue_create_empty [OF assms(1) [symmetric]] assms(2,3) by simp
  moreover have "\<forall>m \<in> set ms. buf_acceptable fixed M m" using assms(6) by (simp add: buf_acceptable_def)
  ultimately obtain s2 where "pop_n (buf_get i msg sz) (length ms) s1 = Some (ms, s2)" "buf_queue_holds fixed M i s2 []"
    using kbm.fifo [of fixed M i s0 msg sz ms s1] assms(4,5,7) by blast
  with kbm.pop_Nil [of fixed M i s2 msg sz] assms(4,5) show ?thesis by auto
qed

section \<open>Examples\<close>

definition demo_queue :: kernel where
  "demo_queue = snd (krhino_queue_create 0x5300 0x9000 0x9100 (replicate 8 0) 2 demo_kernel)"

definition demo_queue_wait :: kernel where
  "demo_queue_wait = snd (krhino_queue_recv 0x5300 RHINO_WAIT_FOREVER 0x9800 demo_queue)"

lemma demo_queue_create: "krhino_queue_create 0x5300 0x9000 0x9100 (replicate 8 0) 2 demo_kernel = (RHINO_SUCCESS, demo_queue)"
  by (simp add: demo_queue_def krhino_queue_create_def queue_create_def Let_def prod_eq_iff)

lemma demo_queue_facts:
  "kreach demo_image demo_queue" "obj_type (objs demo_queue 0x5300) = RHINO_QUEUE_OBJ_TYPE" "q_size (queues demo_queue 0x5300) = 2"
  "q_cur_num (queues demo_queue 0x5300) = 0" "blk_list (objs demo_queue 0x5300) = []" "blk_policy (objs demo_queue 0x5300) = BLK_POLICY_PRI"
  "g_sched_lock demo_queue = 0" "g_active_task demo_queue = timer_tcb" "g_intrpt_nested_level demo_queue = 0" "tasks demo_queue = tasks demo_kernel"
  "may_block demo_queue"
proof -
  show k: "kreach demo_image demo_queue" unfolding demo_queue_def
    by (rule kreach.step [OF demo_reach(2)], rule kstep.queue_create) (simp_all add: demo_facts SIZEOF_PTR_def)
  show f: "obj_type (objs demo_queue 0x5300) = RHINO_QUEUE_OBJ_TYPE" "q_size (queues demo_queue 0x5300) = 2"
    "q_cur_num (queues demo_queue 0x5300) = 0" "blk_list (objs demo_queue 0x5300) = []" "blk_policy (objs demo_queue 0x5300) = BLK_POLICY_PRI"
    "g_sched_lock demo_queue = 0" "g_active_task demo_queue = timer_tcb" "g_intrpt_nested_level demo_queue = 0" "tasks demo_queue = tasks demo_kernel"
    by (simp_all add: demo_queue_def krhino_queue_create_def queue_create_def Let_def upd_defs demo_facts demo_active)
  show "may_block demo_queue" by (rule demo_may_block [OF k f(9,7,8)])
qed

lemma demo_queue_wait_facts:
  "kernel_ok demo_queue_wait" "obj_type (objs demo_queue_wait 0x5300) = RHINO_QUEUE_OBJ_TYPE" "blk_list (objs demo_queue_wait 0x5300) = [timer_tcb]"
  "task_state (tasks demo_queue_wait timer_tcb) = K_PEND"
proof -
  note f = demo_queue_facts
  show "kernel_ok demo_queue_wait" unfolding demo_queue_wait_def using may_blockD(1) [OF f(11)] f(11) by (intro krhino_queue_recv_ok)
  have e: "demo_queue_wait = core_sched (pend_to_blk_obj 0x5300 (g_active_task demo_queue) RHINO_WAIT_FOREVER demo_queue)"
    using f by (simp add: demo_queue_wait_def krhino_queue_recv_def RHINO_WAIT_FOREVER_def RHINO_NO_WAIT_def)
  note b = block_call_id [OF f(11), where i = "0x5300" and ticks = RHINO_WAIT_FOREVER]
  show "obj_type (objs demo_queue_wait 0x5300) = RHINO_QUEUE_OBJ_TYPE" "blk_list (objs demo_queue_wait 0x5300) = [timer_tcb]"
    "task_state (tasks demo_queue_wait timer_tcb) = K_PEND"
    using b f unfolding e by (simp_all add: block_order_def)
qed

theorem queue_fifo_witness:
  "\<exists>s1 s2. push_all (queue_put 0x5300) [7, 9] demo_queue = Some s1 \<and> pop_n (queue_get 0x5300 0x9800) (Suc (Suc 0)) s1 = Some ([7, 9], s2)"
  using queue_fifo [OF demo_queue_create, of "0x9800" "[7, 9]"] by (auto simp: SIZEOF_PTR_def simp del: push_all.simps pop_n.simps)

theorem queue_bounded_witness:
  "q_cur_num (queues demo_queue 0x5300) \<le> q_peak_num (queues demo_queue 0x5300) \<and> q_peak_num (queues demo_queue 0x5300) \<le> 2"
  using queue_bounded [OF demo_queue_facts(1) demo_image_ok demo_queue_facts(2)] demo_queue_facts(3) by simp

theorem queue_hand_over_witness:
  "fst (krhino_queue_back_send 0x5300 7 demo_queue_wait) = RHINO_SUCCESS \<and> ready (tasks (snd (krhino_queue_back_send 0x5300 7 demo_queue_wait)) timer_tcb)
   \<and> user_words (snd (krhino_queue_recv_end 0x9800 ((snd (krhino_queue_back_send 0x5300 7 demo_queue_wait))\<lparr>g_active_task := timer_tcb\<rparr>))) 0x9800 = 7"
  using queue_hand_over [OF demo_queue_wait_facts(1) _ demo_queue_wait_facts(2,3), of 7 _
      "(snd (krhino_queue_back_send 0x5300 7 demo_queue_wait))\<lparr>g_active_task := timer_tcb\<rparr>" "0x9800"] demo_queue_wait_facts(4) by simp

lemma demo_buf_queue:
  obtains s0 s1 where "krhino_buf_queue_create 0x5400 0x9000 0x9100 (replicate 16 0) (length (replicate 16 (0::byte))) 4 demo_kernel = (RHINO_SUCCESS, s0)"
    "push_all (buf_put 0x5400 0x9800) [[1, 2], [3]] s0 = Some s1"
proof -
  define s0 where "s0 = snd (krhino_buf_queue_create 0x5400 0x9000 0x9100 (replicate 16 0) (length (replicate 16 (0::byte))) 4 demo_kernel)"
  have c: "krhino_buf_queue_create 0x5400 0x9000 0x9100 (replicate 16 0) (length (replicate 16 (0::byte))) 4 demo_kernel = (RHINO_SUCCESS, s0)"
    by (simp add: s0_def krhino_buf_queue_create_def buf_queue_create_def Let_def prod_eq_iff)
  have "bq_ringbuf (buf_queues s0 0x5400) = ringbuf_init (replicate 16 0) RINGBUF_TYPE_DYN 4" "max_msg_size (buf_queues s0 0x5400) = 4"
    "obj_type (objs s0 0x5400) = RHINO_BUF_QUEUE_OBJ_TYPE" "blk_list (objs s0 0x5400) = []"
    by (simp_all add: s0_def krhino_buf_queue_create_def buf_queue_create_def Let_def upd_defs)
  then have "\<exists>s1. push_all (buf_put 0x5400 0x9800) [[1, 2], [3]] s0 = Some s1"
    by (simp add: buf_put_def krhino_buf_queue_send_def buf_queue_send_def Let_def upd_buf_queue_def ringbuf_push_def ringbuf_push_dyn_def
        ringbuf_init_def ringbuf_reset_def memcpy_to_def rb_eval)
  with c that show ?thesis by blast
qed

theorem buf_queue_fifo_witness:
  "\<exists>s0 s1 s2. krhino_buf_queue_create 0x5400 0x9000 0x9100 (replicate 16 0) 16 4 demo_kernel = (RHINO_SUCCESS, s0)
    \<and> push_all (buf_put 0x5400 0x9800) [[1, 2], [3]] s0 = Some s1 \<and> pop_n (buf_get 0x5400 0x9800 0x9900) (Suc (Suc 0)) s1 = Some ([[1, 2], [3]], s2)"
proof (rule demo_buf_queue)
  fix s0 s1
  assume a: "krhino_buf_queue_create 0x5400 0x9000 0x9100 (replicate 16 0) (length (replicate 16 (0::byte))) 4 demo_kernel = (RHINO_SUCCESS, s0)"
    "push_all (buf_put 0x5400 0x9800) [[1, 2], [3]] s0 = Some s1"
  have "\<exists>s2. pop_n (buf_get 0x5400 0x9800 0x9900) (length [[1, 2 :: byte], [3]]) s1 = Some ([[1, 2], [3]], s2) \<and> buf_get 0x5400 0x9800 0x9900 s2 = None"
    using a by (intro buf_queue_fifo [where fixed = False and mem = "replicate 16 0" and M = 4]) (simp_all add: RING_BUF_LEN_def)
  with a show ?thesis by (auto simp del: push_all.simps pop_n.simps)
qed

end
