(* ===== verification/Rhino_Timing.thy ===== *)
theory Rhino_Timing
  imports Rhino_Messages
begin

text \<open>
  Time: tasks wake up exactly when their time has come, the next wake-up is known, times are converted without loss, and the
  timers and work queues do what they were asked for in the right order.
\<close>

section \<open>Ticks\<close>

lemma time_slice_upd_task: "\<exists>x. tasks (time_slice_upd s) u = (tasks s u)\<lparr>time_slice := x\<rparr>" "g_tick_count (time_slice_upd s) = g_tick_count s"
proof -
  have h: "tasks (ready_list_head_to_tail t s) = tasks s" "g_tick_count (ready_list_head_to_tail t s) = g_tick_count s" for t s
    by (simp_all add: ready_list_head_to_tail_def fault_def split: option.split)
  have same: "\<exists>x. k = k\<lparr>time_slice := x\<rparr>" for k :: ktask by (rule exI [of _ "time_slice k"]) simp
  show "\<exists>x. tasks (time_slice_upd s) u = (tasks s u)\<lparr>time_slice := x\<rparr>"
    using same by (auto simp: time_slice_upd_def Let_def upd_task_def h split: list.split)
  show "g_tick_count (time_slice_upd s) = g_tick_count s"
    by (simp add: time_slice_upd_def Let_def upd_task_def h split: list.split)
qed

text \<open>What matters of a task for the time it wakes up.\<close>

definition same_wait :: "ktask \<Rightarrow> ktask \<Rightarrow> bool" where
  "same_wait k k' \<longleftrightarrow> task_state k' = task_state k \<and> tick_match k' = tick_match k \<and> tick_head k' = tick_head k"

lemma tick_proc_task:
  "task_state (tasks (krhino_tick_proc s) u) = task_state (tasks (tick_list_update 1 s) u)"
  "blk_state (tasks (krhino_tick_proc s) u) = blk_state (tasks (tick_list_update 1 s) u)"
  "same_wait (tasks (tick_list_update 1 s) u) (tasks (krhino_tick_proc s) u)"
  "g_tick_count (krhino_tick_proc s) = g_tick_count (tick_list_update 1 s)"
proof -
  obtain x where "tasks (krhino_tick_proc s) u = (tasks (tick_list_update 1 s) u)\<lparr>time_slice := x\<rparr>"
    using time_slice_upd_task(1) by (auto simp: krhino_tick_proc_def)
  then show "task_state (tasks (krhino_tick_proc s) u) = task_state (tasks (tick_list_update 1 s) u)"
    "blk_state (tasks (krhino_tick_proc s) u) = blk_state (tasks (tick_list_update 1 s) u)"
    "same_wait (tasks (tick_list_update 1 s) u) (tasks (krhino_tick_proc s) u)" by (simp_all add: same_wait_def)
qed (simp add: krhino_tick_proc_def time_slice_upd_task(2))

lemma tick_proc_kinv: "kinv s \<Longrightarrow> kinv (krhino_tick_proc s)"
  by (simp add: krhino_tick_proc_def time_slice_upd_frames(1) tick_list_update_ok(1))

lemma tick_procs_until:
  assumes "kinv s" "tick_head (tasks s t)" "unat (tick_match (tasks s t) - g_tick_count s) = n" "n \<le> 2 ^ 63" "k < n"
  defines "s' \<equiv> (krhino_tick_proc ^^ k) s"
  shows "kinv s' \<and> same_wait (tasks s t) (tasks s' t) \<and> unat (tick_match (tasks s' t) - g_tick_count s') = n - k"
  using assms(5) unfolding s'_def
proof (induction k)
  case 0
  then show ?case using assms(1,3) by (simp add: same_wait_def)
next
  case (Suc k)
  define s1 where "s1 = (krhino_tick_proc ^^ k) s"
  have IH: "kinv s1" "same_wait (tasks s t) (tasks s1 t)" "unat (tick_match (tasks s1 t) - g_tick_count s1) = n - k"
    using Suc by (simp_all add: s1_def)
  have h: "tick_head (tasks s1 t)" using IH(2) assms(2) by (simp add: same_wait_def)
  have l: "tick_match (tasks s1 t) - g_tick_count s1 \<le> 2 ^ 63" using IH(3) assms(4) by (simp add: word_le_nat_alt)
  have ne: "tick_match (tasks s1 t) - g_tick_count s1 \<noteq> 1" using IH(3) Suc.prems by auto
  note o = tick_one [OF IH(1) h l]
  have b: "same_wait (tasks s t) (tasks (krhino_tick_proc s1) t)"
    using IH(2) but_prioD [OF o(2) [OF ne]] tick_proc_task(3) [of s1 t] by (simp add: same_wait_def)
  have "tick_match (tasks (krhino_tick_proc s1) t) - g_tick_count (krhino_tick_proc s1) = (tick_match (tasks s1 t) - g_tick_count s1) - 1"
    using b IH(2) tick_proc_task(4) [of s1] o(3) by (simp add: same_wait_def)
  moreover have "tick_match (tasks s1 t) - g_tick_count s1 \<noteq> 0" using IH(3) Suc.prems by (metis diff_is_0_eq not_le Suc_lessD unat_0)
  ultimately have "unat (tick_match (tasks (krhino_tick_proc s1) t) - g_tick_count (krhino_tick_proc s1)) = n - Suc k"
    using IH(3) by (simp add: unat_minus_one)
  with b tick_proc_kinv [OF IH(1)] show ?case by (simp add: s1_def [symmetric])
qed

lemma tick_procs_at:
  assumes "kinv s" "tick_head (tasks s t)" "unat (tick_match (tasks s t) - g_tick_count s) = n" "n \<le> 2 ^ 63" "0 < n"
  shows "task_state (tasks ((krhino_tick_proc ^^ n) s) t) = after_expiry (task_state (tasks s t))"
    "blk_state (tasks ((krhino_tick_proc ^^ n) s) t) = (if pended (tasks s t) then BLK_TIMEOUT else BLK_FINISH)"
    "kinv ((krhino_tick_proc ^^ n) s)"
proof -
  obtain k where n: "n = Suc k" using assms(5) gr0_implies_Suc by blast
  define s1 where "s1 = (krhino_tick_proc ^^ k) s"
  have u: "kinv s1" "same_wait (tasks s t) (tasks s1 t)" "unat (tick_match (tasks s1 t) - g_tick_count s1) = 1"
    using tick_procs_until [OF assms(1-4), of k] n by (simp_all add: s1_def)
  have l: "tick_match (tasks s1 t) - g_tick_count s1 = 1" using u(3) by (simp add: word_unat_eq_iff)
  have h: "tick_head (tasks s1 t)" using u(2) assms(2) by (simp add: same_wait_def)
  have l': "tick_match (tasks s1 t) - g_tick_count s1 \<le> 2 ^ 63" by (simp add: l)
  note o = tick_one(1) [OF u(1) h l' l]
  have e: "(krhino_tick_proc ^^ n) s = krhino_tick_proc s1" by (simp add: n s1_def)
  show "task_state (tasks ((krhino_tick_proc ^^ n) s) t) = after_expiry (task_state (tasks s t))"
    "blk_state (tasks ((krhino_tick_proc ^^ n) s) t) = (if pended (tasks s t) then BLK_TIMEOUT else BLK_FINISH)"
    "kinv ((krhino_tick_proc ^^ n) s)"
    unfolding e using o u(2) tick_proc_kinv [OF u(1)] by (simp_all add: tick_proc_task(1,2) same_wait_def pended_def)
qed

text \<open>
  (C6) A task that sleeps for \<open>n\<close> ticks sleeps through the first \<open>n - 1\<close> of them and is ready at the \<open>n\<close>-th,
  for every \<open>n\<close> up to \<open>2 ^ 63\<close>, also when the tick counter wraps around in between.
\<close>

theorem sleep_wakes_on_time:
  fixes ticks :: tick_t
  assumes "may_block s" "g_sched_lock s = 0" "ticks \<noteq> 0" "unat ticks \<le> 2 ^ 63"
  defines "t \<equiv> g_active_task s" and "s' \<equiv> snd (krhino_task_sleep ticks s)"
  shows "fst (krhino_task_sleep ticks s) = Pending
    \<and> (\<forall>k < unat ticks. task_state (tasks ((krhino_tick_proc ^^ k) s') t) = K_SLEEP)
    \<and> ready (tasks ((krhino_tick_proc ^^ unat ticks) s') t) \<and> blk_state (tasks ((krhino_tick_proc ^^ unat ticks) s') t) = BLK_FINISH"
proof -
  obtain q ts where e: "krhino_task_sleep ticks s = (Pending, core_sched (move t (asleep (g_tick_count s) ticks (tasks s t)) q ts s))"
    using krhino_task_sleep_eq [OF assms(1,3,2)] by (auto simp: t_def)
  have k: "kinv s'" using kernel_okD(1) [OF krhino_task_sleep_ok [OF assms(1)]] by (simp add: s'_def)
  have f: "tasks s' t = asleep (g_tick_count s) ticks (tasks s t)" "g_tick_count s' = g_tick_count s" by (simp_all add: s'_def e)
  have st: "tick_head (tasks s' t)" "unat (tick_match (tasks s' t) - g_tick_count s') = unat ticks" "task_state (tasks s' t) = K_SLEEP"
    by (simp_all add: f asleep_def)
  have n: "0 < unat ticks" using assms(3) by (simp add: unat_gt_0)
  have "\<forall>k < unat ticks. task_state (tasks ((krhino_tick_proc ^^ k) s') t) = K_SLEEP"
    using tick_procs_until [OF k st(1,2) assms(4)] st(3) by (simp add: same_wait_def)
  with tick_procs_at(1,2) [OF k st(1,2) assms(4) n] st(3) show ?thesis
    by (simp add: e ready_def after_expiry_def pended_def)
qed

text \<open>
  (C17) A wait with a timeout ends with \<^verbatim>\<open>RHINO_BLK_TIMEOUT\<close> when its ticks have passed and nobody has ended it before: in every
  reachable state, a task that waits at an object with \<open>n\<close> ticks left is still waiting after fewer ticks; after \<open>n\<close> it
  waits for nothing any more, is ready unless it was suspended, and its call reports the timeout.
\<close>

theorem wait_times_out:
  assumes "kreach img s" "image_ok img" "t \<in> set (blk_list (objs s i))" "tick_head (tasks s t)"
    and "unat (tick_match (tasks s t) - g_tick_count s) = n" "n \<le> 2 ^ 63"
  defines "s' \<equiv> (krhino_tick_proc ^^ n) s"
  shows "(\<forall>k < n. task_state (tasks ((krhino_tick_proc ^^ k) s) t) = task_state (tasks s t))
    \<and> t \<notin> set (blk_list (objs s' j)) \<and> (task_state (tasks s t) = K_PEND \<longrightarrow> ready (tasks s' t))
    \<and> fst (pend_state_end_proc t s') = RHINO_BLK_TIMEOUT"
proof -
  have k: "kinv s" using kernel_okD(1) [OF kreach_ok [OF assms(1,2)]] .
  note b = base_okD [OF kinvD(1) [OF k]]
  have p: "pended (tasks s t)" using blk_okD(2) [OF b(2)] assms(3) by blast
  have "tick_match (tasks s t) \<noteq> g_tick_count s" using b(3) assms(4) by (auto simp: tick_ok_def)
  then have n: "0 < n" using assms(5) by (metis eq_iff_diff_eq_0 gr0I unat_eq_zero)
  note a = tick_procs_at [OF k assms(4-6) n, folded s'_def]
  have "\<not> pended (tasks s' t)" using a(1) by (simp add: pended_def after_expiry_def)
  then have "t \<notin> set (blk_list (objs s' j))" using blk_okD(2) [OF base_okD(2) [OF kinvD(1) [OF a(3)]]] by blast
  moreover have "\<forall>k < n. task_state (tasks ((krhino_tick_proc ^^ k) s) t) = task_state (tasks s t)"
    using tick_procs_until [OF k assms(4-6)] by (simp add: same_wait_def)
  ultimately show ?thesis using a(1,2) p by (simp add: pend_state_end_proc_def ready_def after_expiry_def)
qed

text \<open>
  (C34) \<^verbatim>\<open>krhino_next_sleep_ticks_get\<close>, which tells how long the processor may be stopped, is exact in every reachable state: it is
  the least number of ticks after which a task has to be woken, never zero, and \<^verbatim>\<open>RHINO_WAIT_FOREVER\<close> if there is none.
\<close>

theorem next_sleep_exact:
  assumes "kreach img s" "image_ok img"
  defines "r \<equiv> krhino_next_sleep_ticks_get s" and "left \<equiv> \<lambda>t. tick_match (tasks s t) - g_tick_count s"
  shows "if \<exists>t. tick_head (tasks s t)
    then r \<noteq> 0 \<and> (\<exists>t. tick_head (tasks s t) \<and> r = left t) \<and> (\<forall>t. tick_head (tasks s t) \<longrightarrow> r \<le> left t)
    else r = RHINO_WAIT_FOREVER"
proof -
  have T: "tick_ok (g_tick_head s) (g_tick_count s) (tasks s)"
    using base_okD(3) [OF kinvD(1) [OF kernel_okD(1) [OF kreach_ok [OF assms(1,2)]]]] .
  then have m: "t \<in> set (g_tick_head s) \<longleftrightarrow> tick_head (tasks s t)" "tick_head (tasks s t) \<Longrightarrow> left t \<noteq> 0"
    "sorted (map left (g_tick_head s))" for t by (auto simp: tick_ok_def left_def)
  show ?thesis
  proof (cases "g_tick_head s")
    case Nil
    with m(1) show ?thesis by (simp add: r_def krhino_next_sleep_ticks_get_def)
  next
    case (Cons u us)
    have r: "r = left u" using Cons by (simp add: r_def krhino_next_sleep_ticks_get_def left_def)
    have "tick_head (tasks s t) \<Longrightarrow> r \<le> left t" for t using m(1) [of t] m(3) Cons by (auto simp: r)
    moreover have "tick_head (tasks s u)" using m(1) [of u] Cons by simp
    ultimately show ?thesis using m(2) [of u] r by auto
  qed
qed

text \<open>
  (C35) The conversion of times at 100 ticks per second: milliseconds are rounded up to ticks, for all 64-bit values without wrapping
  around, so that no wait is too short and none is longer by 10 milliseconds or more, and ticks that fit are converted forth and back without loss.
\<close>

theorem time_conversions:
  "unat (krhino_ms_to_ticks ms) * 10 \<ge> unat ms \<and> unat (krhino_ms_to_ticks ms) * 10 < unat ms + 10
   \<and> (unat ticks * 10 < 2 ^ 64 \<longrightarrow> unat (krhino_ticks_to_ms ticks) = unat ticks * 10 \<and> krhino_ms_to_ticks (krhino_ticks_to_ms ticks) = ticks)"
proof -
  have "unat ticks * 10 < 2 ^ 64 \<Longrightarrow> unat (krhino_ticks_to_ms ticks) = unat ticks * 10"
    by (simp add: krhino_ticks_to_ms_eq unat_word_ariths)
  moreover from this have "unat ticks * 10 < 2 ^ 64 \<Longrightarrow> krhino_ms_to_ticks (krhino_ticks_to_ms ticks) = ticks"
    by (simp add: word_unat_eq_iff krhino_ms_to_ticks_eq)
  ultimately show ?thesis by (auto simp: krhino_ms_to_ticks_eq)
qed

section \<open>Timers\<close>

lemma start_cmd_acceptable: "length (cb_pad cb) = 3 \<Longrightarrow> buf_acceptable fixed SIZEOF_CB (cb_bytes cb)"
  using bytes_cb_bytes(2) [of cb] by (auto simp: buf_acceptable_def SIZEOF_CB_def RING_BUF_LEN_def)

lemma timer_cmd_delivered:
  assumes pad: "length (cb_pad c) = 3" and "g_intrpt_nested_level (kern s) = 0" and h: "buf_queue_holds fixed SIZEOF_CB (g_timer_queue s) (kern s) []"
    and "timer_send c s = (RHINO_SUCCESS, s1)" "p \<noteq> NULL" "sz \<noteq> NULL"
    and "kcall (krhino_buf_queue_recv (g_timer_queue s1) RHINO_WAIT_FOREVER p sz) s1 = (r, s2)"
  shows "r = Ret RHINO_SUCCESS" "timers s2 = timers s" "g_timer_head s2 = g_timer_head s" "g_tick_count (kern s2) = g_tick_count (kern s)"
    "timer_msg p s2 = c"
proof -
  note cb = bytes_cb_bytes [OF pad]
  have a: "cb_addr \<noteq> NULL" by (simp add: cb_addr_def)
  have k: "krhino_buf_queue_send (g_timer_queue s) cb_addr (cb_bytes c) (length (cb_bytes c)) (kern s) = (RHINO_SUCCESS, kern s1)" "s1 = s\<lparr>kern := kern s1\<rparr>"
    using assms(4) cb(2) by (auto simp: timer_send_def kcall_def split_beta prod_eq_iff)
  have "rb_fits (bq_ringbuf (buf_queues (kern s) (g_timer_queue s))) (cb_bytes c)"
    using buf_send_step [OF h start_cmd_acceptable [OF pad] a] k(1) by (auto split: if_splits)
  then obtain q where q: "kern s1 = (kern s)\<lparr>buf_queues := (buf_queues (kern s))(g_timer_queue s := q)\<rparr>" "bq_holds q [cb_bytes c]" "max_msg_size q = SIZEOF_CB"
    "rb_type (bq_ringbuf q) = rb_type (bq_ringbuf (buf_queues (kern s) (g_timer_queue s)))"
    using buf_send_step [OF h start_cmd_acceptable [OF pad] a] k(1) by auto
  define k1 where "k1 = kern s1"
  have s1: "s1 = s\<lparr>kern := k1\<rparr>" using k(2) by (simp add: k1_def)
  have n: "g_intrpt_nested_level k1 = 0" "g_tick_count k1 = g_tick_count (kern s)" using q(1) assms(2) by (simp_all add: k1_def)
  have "buf_queue_holds fixed SIZEOF_CB (g_timer_queue s) k1 [cb_bytes c]" using h q by (simp add: buf_queue_holds_def k1_def)
  then obtain q' where R: "krhino_buf_queue_recv (g_timer_queue s) RHINO_WAIT_FOREVER p sz k1
      = (Ret RHINO_SUCCESS, (put_word sz (of_nat (length (cb_bytes c))) (put_buf p (cb_bytes c) k1))\<lparr>buf_queues := (buf_queues k1)(g_timer_queue s := q')\<rparr>)"
    using buf_recv_step [of fixed SIZEOF_CB "g_timer_queue s" k1 "cb_bytes c" "[]" p sz RHINO_WAIT_FOREVER] assms(5,6) n(1) by auto
  then show "r = Ret RHINO_SUCCESS" "timers s2 = timers s" "g_timer_head s2 = g_timer_head s" "g_tick_count (kern s2) = g_tick_count (kern s)"
    "timer_msg p s2 = c"
    using assms(7) cb n(2) by (auto simp: s1 kcall_def timer_msg_def put_word_def put_buf_def)
qed



text \<open>
  An overdue timer can be missed: the insertion of a periodic timer compares unsigned distances, so that a timer that is overdue counts as far away.
  In the state below, at tick 100, the timer at 48 was due at tick 99; after the timer task has run it is behind the others in
  the list, still overdue, and the task waits 5 more ticks.
\<close>

theorem late_timer_missed:
  "\<exists>s'. timers_ok (late_timers s) \<and> timer_task_loop (\<lambda>f t a s. s) (late_timers s) = Some s' \<and> g_timer_head s' = [32, 16, 48]
     \<and> timer_match (timers s' 48) = 99 \<and> g_timer_count s' = 100 \<and> timer_task_delta s' = Some 5"
  using late_timers_left by blast

section \<open>Work queues\<close>

text \<open>Work that is in no queue, not running, and has no delay.\<close>

definition idle_work :: "ptr \<Rightarrow> ksys \<Rightarrow> ptr \<Rightarrow> bool" where
  "idle_work q s w \<longleftrightarrow> w \<noteq> NULL \<and> work_exit (works s w) \<noteq> 1 \<and> work_dly (works s w) = 0 \<and> work_current (workqueues s q) \<noteq> w"

lemma work_run_adds:
  fixes cb_mem :: k_timer_queue_cb
  assumes "works_ok s" "idle_work q s w" "q \<noteq> NULL"
  defines "s' \<equiv> snd (krhino_work_run cb_mem q w s)"
  shows "works_ok s'" "work_list (workqueues s' q) = work_list (workqueues s q) @ [w]" "work_current (workqueues s' q) = work_current (workqueues s q)"
    "v \<noteq> w \<Longrightarrow> works s' v = works s v" "work_dly (works s' v) = work_dly (works s v)"
proof -
  have e: "work_exit (works s w) \<noteq> 1" and r: "krhino_work_run cb_mem q w s = work_queue_add q w s"
    using assms(2,3) by (simp_all add: idle_work_def krhino_work_run_def)
  show "works_ok s'" using work_queue_add_ok(1) [OF assms(1) e] by (simp add: s'_def r)
  show "work_list (workqueues s' q) = work_list (workqueues s q) @ [w]" "work_current (workqueues s' q) = work_current (workqueues s q)"
    "v \<noteq> w \<Longrightarrow> works s' v = works s v" "work_dly (works s' v) = work_dly (works s v)"
    using work_queue_add_eq(3,4) [OF assms(1) e, of q] by (simp_all add: s'_def r)
qed

lemma work_runs_add:
  fixes cb_mem :: k_timer_queue_cb
  assumes "works_ok s" "\<forall>w \<in> set ws. idle_work q s w" "distinct ws" "q \<noteq> NULL"
  defines "s' \<equiv> fold (\<lambda>w s. snd (krhino_work_run cb_mem q w s)) ws s"
  shows "works_ok s' \<and> work_list (workqueues s' q) = work_list (workqueues s q) @ ws
    \<and> work_current (workqueues s' q) = work_current (workqueues s q) \<and> (\<forall>v. work_dly (works s' v) = work_dly (works s v))"
  using assms(1-3) unfolding s'_def
proof (induction ws arbitrary: s)
  case (Cons w ws)
  define s1 where "s1 = snd (krhino_work_run cb_mem q w s)"
  have w: "idle_work q s w" "w \<notin> set ws" using Cons.prems by simp_all
  note r = work_run_adds [OF Cons.prems(1) w(1) assms(4), where cb_mem = cb_mem, folded s1_def]
  have "\<forall>v \<in> set ws. idle_work q s1 v" using Cons.prems(2) w(2) r(3,4) by (fastforce simp: idle_work_def)
  with Cons.IH [OF r(1)] Cons.prems(3) r(2,3,5) show ?case by (simp add: s1_def)
qed simp

lemma worker_nexts:
  assumes "works_ok s" "work_list (workqueues s q) = ws" "n \<le> length ws"
  defines "s' \<equiv> (worker_task_next q RHINO_SUCCESS ^^ n) s"
  shows "works_ok s' \<and> work_list (workqueues s' q) = drop n ws \<and> (0 < n \<longrightarrow> work_current (workqueues s' q) = ws ! (n - 1)) \<and> kern s' = kern s"
  using assms(3) unfolding s'_def
proof (induction n)
  case 0
  then show ?case using assms(1,2) by simp
next
  case (Suc n)
  define s1 where "s1 = (worker_task_next q RHINO_SUCCESS ^^ n) s"
  have IH: "works_ok s1" "work_list (workqueues s1 q) = ws ! n # drop (Suc n) ws" "kern s1 = kern s"
    using Suc by (simp_all add: s1_def Cons_nth_drop_Suc)
  from worker_task_next_eq [OF IH(1,2)] worker_task_next_ok [OF IH(1,2)] IH(3) show ?case by (simp add: s1_def [symmetric])
qed


text \<open>
  A work that is waiting in a queue cannot be cancelled: \<^verbatim>\<open>krhino_work_cancel\<close> refuses exactly the works that are in a list, so that its removal
  from the list is never reached with effect.
\<close>

theorem work_cancel_refused:
  assumes "works_ok s" "w \<in> set (work_list (workqueues s q))" "q \<noteq> NULL" "w \<noteq> NULL"
  shows "fst (krhino_work_cancel cb_mem w s) \<noteq> RHINO_SUCCESS \<and> workqueues (snd (krhino_work_cancel cb_mem w s)) = workqueues s"
  using krhino_work_cancel_lists [OF assms(1)] assms(2-4) by simp

section \<open>Examples\<close>

lemma demo_kernel_may_block: "may_block demo_kernel"
  by (rule demo_may_block [OF demo_reach(2) refl demo_active demo_facts(1)])

theorem sleep_wakes_on_time_witness:
  "task_state (tasks ((krhino_tick_proc ^^ 2) (snd (krhino_task_sleep 3 demo_kernel))) timer_tcb) = K_SLEEP
   \<and> ready (tasks ((krhino_tick_proc ^^ 3) (snd (krhino_task_sleep 3 demo_kernel))) timer_tcb)"
proof -
  have n: "unat (3 :: tick_t) = 3" "(3 :: tick_t) \<noteq> 0" "(2 :: nat) < 3" by simp_all
  from sleep_wakes_on_time [OF demo_kernel_may_block demo_facts(2) n(2), unfolded n(1) demo_active] n(3) show ?thesis by simp
qed

definition demo_timed :: kernel where
  "demo_timed = snd (krhino_sem_take 0x5100 7 demo_sem)"

lemma demo_timed_facts:
  "kreach demo_image demo_timed" "blk_list (objs demo_timed 0x5100) = [timer_tcb]" "tick_head (tasks demo_timed timer_tcb)"
  "tick_match (tasks demo_timed timer_tcb) - g_tick_count demo_timed = 7" "task_state (tasks demo_timed timer_tcb) = K_PEND"
  "tick_head (tasks demo_timed t) \<longleftrightarrow> t = timer_tcb"
proof -
  note f = demo_sem_facts
  show "kreach demo_image demo_timed" unfolding demo_timed_def using f(2)
    by (intro kreach.step [OF f(1)] kstep.sem_take) (simp add: wait_ok_def may_block_def)
  have e: "demo_timed = core_sched (pend_to_blk_obj 0x5100 (g_active_task demo_sem) 7 demo_sem)"
    using f by (simp add: demo_timed_def krhino_sem_take_def RHINO_NO_WAIT_def)
  note b = block_call_id [OF f(2), where i = "0x5100" and ticks = 7]
  have h: "\<not> tick_head (tasks demo_kernel t)" for t using demo_boot_facts(1) by (simp add: demo_kernel_def krhino_start_fields boot_ok_def)
  show "blk_list (objs demo_timed 0x5100) = [timer_tcb]" "tick_head (tasks demo_timed timer_tcb)"
    "tick_match (tasks demo_timed timer_tcb) - g_tick_count demo_timed = 7" "task_state (tasks demo_timed timer_tcb) = K_PEND"
    "tick_head (tasks demo_timed t) \<longleftrightarrow> t = timer_tcb"
    using b f h unfolding e by (simp_all add: block_order_def blocked_def RHINO_WAIT_FOREVER_def)
qed

theorem wait_times_out_witness:
  "ready (tasks ((krhino_tick_proc ^^ 7) demo_timed) timer_tcb) \<and> fst (pend_state_end_proc timer_tcb ((krhino_tick_proc ^^ 7) demo_timed)) = RHINO_BLK_TIMEOUT
   \<and> timer_tcb \<in> set (blk_list (objs demo_timed 0x5100)) \<and> timer_tcb \<notin> set (blk_list (objs ((krhino_tick_proc ^^ 7) demo_timed) 0x5100))"
proof -
  note f = demo_timed_facts
  have m: "timer_tcb \<in> set (blk_list (objs demo_timed 0x5100))" "unat (tick_match (tasks demo_timed timer_tcb) - g_tick_count demo_timed) = 7" "(7 :: nat) \<le> 2 ^ 63"
    by (simp_all add: f(2,4))
  from wait_times_out [OF f(1) demo_image_ok m(1) f(3) m(2,3)] m(1) f(5) show ?thesis by simp
qed

theorem next_sleep_exact_witness:
  "krhino_next_sleep_ticks_get demo_timed = 7"
  using next_sleep_exact [OF demo_timed_facts(1) demo_image_ok] demo_timed_facts(4,6) by auto

theorem time_conversions_witness:
  "unat (krhino_ms_to_ticks 25) = 3 \<and> krhino_ms_to_ticks (krhino_ticks_to_ms 7) = 7"
  using time_conversions [of 25 7] by auto

text \<open>A system with its own timer queue and three timers: one periodic and one single timer that are due now, and one that is not running.\<close>

definition demo_timers :: ksys where
  "demo_timers =
     (let k = \<lparr>to_head = True, timer_name = 4, timer_cb = 8, timer_cb_arg = 0, timer_match = 100, timer_remain = 10, init_count = 10,
         round_ticks = 10, timer_priv = 0, timer_obj_type = RHINO_TIMER_OBJ_TYPE, timer_state = TIMER_ACTIVE, timer_alloc_flag = K_OBJ_STATIC_ALLOC\<rparr>
      in (zero_ksys demo_image)\<lparr>kern := (snd (krhino_fix_buf_queue_create 0x5500 0x9000 0x9100 (replicate 48 0) SIZEOF_CB 2 demo_kernel))\<lparr>g_tick_count := 100\<rparr>,
           g_timer_count := 100, g_timer_queue := 0x5500, g_timer_head := [16, 32],
           timers := (timers (zero_ksys demo_image))(16 := k, 32 := k\<lparr>round_ticks := 0\<rparr>, 48 := k\<lparr>to_head := False, timer_state := TIMER_DEACTIVE\<rparr>)\<rparr>)"

lemma demo_timers_facts:
  "timers_ok demo_timers" "on_time demo_timers" "g_timer_count demo_timers = g_tick_count (kern demo_timers)"
  "timer_obj_type (timers demo_timers 48) = RHINO_TIMER_OBJ_TYPE" "48 \<notin> set (g_timer_head demo_timers)" "init_count (timers demo_timers 48) = 10"
  "g_intrpt_nested_level (kern demo_timers) = 0" "g_tick_count (kern demo_timers) = 100"
  "buf_queue_holds True SIZEOF_CB (g_timer_queue demo_timers) (kern demo_timers) []" "g_timer_head demo_timers = [16, 32]"
  "timer_match (timers demo_timers 16) = 100" "round_ticks (timers demo_timers 16) = 10" "round_ticks (timers demo_timers 32) = 0"
proof -
  show "timers_ok demo_timers"
    by (auto simp: timers_ok_def demo_timers_def zero_ksys_def Let_def MAX_TIMER_TICKS_value split: if_splits)
  show "on_time demo_timers" by (auto simp: on_time_def demo_timers_def Let_def MAX_TIMER_TICKS_value)
  show "g_timer_count demo_timers = g_tick_count (kern demo_timers)"
    "timer_obj_type (timers demo_timers 48) = RHINO_TIMER_OBJ_TYPE" "48 \<notin> set (g_timer_head demo_timers)" "init_count (timers demo_timers 48) = 10"
    "g_tick_count (kern demo_timers) = 100" "g_timer_head demo_timers = [16, 32]"
    "timer_match (timers demo_timers 16) = 100" "round_ticks (timers demo_timers 16) = 10" "round_ticks (timers demo_timers 32) = 0"
    by (simp_all add: demo_timers_def Let_def)
  let ?r = "krhino_fix_buf_queue_create 0x5500 0x9000 0x9100 (replicate 48 0) SIZEOF_CB 2 demo_kernel"
  have k: "kern demo_timers = (snd ?r)\<lparr>g_tick_count := 100\<rparr>" "g_timer_queue demo_timers = 0x5500" by (simp_all add: demo_timers_def Let_def)
  show "g_intrpt_nested_level (kern demo_timers) = 0"
    by (simp add: k krhino_fix_buf_queue_create_def buf_queue_create_def Let_def upd_defs demo_facts)
  have "fst ?r = RHINO_SUCCESS" by (simp add: krhino_fix_buf_queue_create_def buf_queue_create_def Let_def SIZEOF_CB_def)
  then have "buf_queue_holds True SIZEOF_CB 0x5500 (snd ?r) []"
    by (intro buf_queue_create_empty [where n = 2 and mem = "replicate 48 0"]) (simp_all add: SIZEOF_CB_def)
  then show "buf_queue_holds True SIZEOF_CB (g_timer_queue demo_timers) (kern demo_timers) []" by (simp add: k buf_queue_holds_def)
qed


definition demo_cb :: k_timer_queue_cb where
  "demo_cb = \<lparr>cb_timer = 0, cb_num = 0, cb_pad = [0, 0, 0], cb_first = 0, cb_u = 0\<rparr>"



end
