(* ===== verification/Spec2Isabelle.thy ===== *)
theory Spec2Isabelle
  imports Rhino_KList Rhino_Fifo Rhino_MmBlk Rhino_Timing
begin

text \<open>
  A verification library of the Rhino kernel of AliOS Things, the C files of \<^verbatim>\<open>src/kernel/rhino/core\<close> and
  \<^verbatim>\<open>src/kernel/rhino/common/k_fifo.c\<close>, in the single-core configuration of
  \<^verbatim>\<open>src/board/developerkit/aos/k_config.h\<close>.

  \<^bold>\<open>The program.\<close>  The kernel runs tasks by priority on one processor.  A ready queue holds one circular list of
  tasks per priority and a bitmap of the priorities in use (\<^verbatim>\<open>k_sched.c\<close>, \<^verbatim>\<open>k_bitmap.h\<close>, \<^verbatim>\<open>k_list.h\<close>).  A task that
  waits is on the wait list of an object, on the tick list, or on both (\<^verbatim>\<open>k_pend.c\<close>, \<^verbatim>\<open>k_tick.c\<close>).  The objects are
  semaphores, mutexes with priority inheritance, event flags, queues of pointers, and buffer queues that copy
  messages through a ring buffer (\<^verbatim>\<open>k_sem.c\<close>, \<^verbatim>\<open>k_mutex.c\<close>, \<^verbatim>\<open>k_event.c\<close>, \<^verbatim>\<open>k_queue.c\<close>, \<^verbatim>\<open>k_buf_queue.c\<close>,
  \<^verbatim>\<open>k_ringbuf.c\<close>).  Timers and work queues are tasks of the kernel itself that take their orders from a buffer queue
  and from semaphores (\<^verbatim>\<open>k_timer.c\<close>, \<^verbatim>\<open>k_workqueue.c\<close>).  Byte queues and block pools (\<^verbatim>\<open>k_fifo.c\<close>, \<^verbatim>\<open>k_mm_blk.c\<close>)
  stand beside them.

  \<^bold>\<open>The model.\<close>  The state of the kernel is the record \<open>kernel\<close>: the control blocks as functions from 32-bit addresses, and
  the globals of \<^verbatim>\<open>k_obj.c\<close>.  Counters keep their width where they can wrap (tick count, semaphore count, nesting
  counters).  The record \<open>ksys\<close> adds the timers and work queues.  Every function of the source is a function of the same
  name that returns its status and the new state.  A call that may wait ends either with a status (\<open>Ret\<close>) or in the
  middle (\<open>Pending\<close>); what the source does after the task was woken is a second function, whose name ends in \<open>_end\<close>.  A
  critical section is one step, since interrupts are off inside of it.  Results of the memory heap and the functions that
  timers and works call are arguments.  A null pointer that is followed, a node that is unlinked twice or an endless loop
  sets \<open>k_fault\<close> for ever; the invariants show that this does not happen.

  \<^bold>\<open>The theories\<close>, each with the source it models:
  \<^item> \<open>Rhino_Prelude\<close>: machine types, status codes of \<^verbatim>\<open>k_err.h\<close>, generic lemmas, the locale \<open>stable_insert\<close> of ordered lists.
  \<^item> \<open>Rhino_KList\<close>, \<open>Rhino_Bitmap\<close>, \<open>Rhino_Ringbuf\<close>, \<open>Rhino_Fifo\<close>, \<open>Rhino_MmBlk\<close>: the data structures, down to pointers, bits
    and bytes, with the locales \<open>priority_bitmap\<close> and \<open>message_ring\<close>.
  \<^item> \<open>Rhino_Kernel\<close>, \<open>Rhino_Stack\<close>, \<open>Rhino_Sched\<close>, \<open>Rhino_Pend\<close>, \<open>Rhino_Mutex\<close>: the state, the stacks of tasks, and the inner
    operations of \<^verbatim>\<open>k_sched.c\<close> (locale \<open>priority_lanes\<close>), \<^verbatim>\<open>k_pend.c\<close> and \<^verbatim>\<open>k_mutex.c\<close>.
  \<^item> \<open>Rhino_Sem\<close>, \<open>Rhino_Event\<close>, \<open>Rhino_Queue\<close>, \<open>Rhino_BufQueue\<close>, \<open>Rhino_Task\<close>, \<open>Rhino_Tick\<close>: the calls of the files of these names
    and of \<^verbatim>\<open>k_time.c\<close>.
  \<^item> \<open>Rhino_System\<close>, \<open>Rhino_Timer\<close>, \<open>Rhino_Workqueue\<close>, \<open>Rhino_Sys\<close>: the services, start-up and interrupts (\<^verbatim>\<open>k_sys.c\<close>,
    \<^verbatim>\<open>k_idle.c\<close>, \<^verbatim>\<open>k_dyn_mem_proc.c\<close>) and the task semaphores (\<^verbatim>\<open>k_task_sem.c\<close>).
  \<^item> \<open>Rhino_Invariant\<close>, \<open>Rhino_Objects\<close>, \<open>Rhino_Mutex_Ops\<close>, \<open>Rhino_Mutex_Calls\<close>, \<open>Rhino_Task_Inv\<close>, \<open>Rhino_Task_Del\<close>: the invariant
    \<open>kernel_ok\<close> and that the operations keep it.
  \<^item> \<open>Rhino_Run\<close>, \<open>Rhino_Services\<close>: the kernel as a transition system, \<open>kstep\<close> and \<open>sstep\<close>, and its reachable states, \<open>kreach\<close> and
    \<open>sreach\<close>.  The guards of the steps are what the kernel expects of its clients.
  \<^item> \<open>Rhino_Example\<close>: a concrete image and states it reaches, at which the properties are applied.
  \<^item> \<open>Rhino_Scheduling\<close>, \<open>Rhino_Locking\<close>, \<open>Rhino_Sync\<close>, \<open>Rhino_Messages\<close>, \<open>Rhino_Timing\<close>, and this theory: the properties.

  \<^bold>\<open>What is shown.\<close>  The ready queue, wait lists, tick list and mutex chains agree with the states of the tasks in all reachable
  states.  The most urgent ready task runs; priorities are inherited exactly, along chains of any length; preemption, yielding,
  time slices, nesting of suspensions and of the scheduler lock behave as described.  No wake-up is lost, semaphores refine
  counters with a queue of tasks, messages arrive in order and unchanged, deletion releases all who wait.  Sleeping tasks and
  timed waits end at their tick, across the wrap-around of the counter; timers are called when they are due; works are done in
  order.  The data structures refine lists, sets of bits, streams of bytes and pools.  Some theorems record defects:
  \<open>late_timer_missed\<close>, \<open>work_cancel_refused\<close> and \<open>mblk_pool_init_endless\<close>.

  \<^bold>\<open>Bounds.\<close>  There is no fuel.  Loops over lists are structural recursions; \<open>wake_all\<close> has a termination proof; the loops that
  follow pointers (\<open>klist_scan\<close>, \<open>mblk_link\<close>, \<open>free_scan\<close>, \<open>pri_limit_loop\<close>, \<open>pri_look_loop\<close>, \<open>task_pri_change\<close>, \<open>mutex_free_loop\<close>,
  \<open>timer_cb_loop\<close>, \<open>timer_task_loop\<close>) are partial functions whose value is \<open>None\<close> when they do not end.  That they end is part of their
  lemmas: for the loops of the mutexes because \<open>kernel_ok\<close> makes the chains of owners acyclic.

  \<^bold>\<open>Not modelled.\<close>  The heap (\<^verbatim>\<open>k_mm.c\<close>, \<^verbatim>\<open>k_mm_debug.c\<close>): its results are arguments.  Statistics, tracing and user hooks
  (\<^verbatim>\<open>k_stats.c\<close> except for the stack check and the object lists, \<^verbatim>\<open>k_trace.c\<close>, \<^verbatim>\<open>src/kernel/rhino/debug\<close>): they only
  record what the kernel did.  The code for several processors, which this configuration does not compile.  The check of the
  interrupt stack, which is switched off.  \<^verbatim>\<open>k_atomic.c\<close>, which is read only under \<^verbatim>\<open>RHINO_CONFIG_ATOMIC_GENERIC\<close>, and the three
  wrappers \<^verbatim>\<open>krhino_ringbuf_reset\<close>, \<^verbatim>\<open>krhino_ringbuf_is_empty\<close> and \<^verbatim>\<open>krhino_ringbuf_is_full\<close>.  Context switches in assembly: a switch is the
  assignment of \<open>g_active_task\<close>.  The layers above the kernel: file systems, drivers, network, protocols and applications.
\<close>





end
